(* ===== verification/Prelude.thy ===== *)
theory Prelude
  imports Main "HOL-Library.Word"
begin

text \<open>
  Shared vocabulary of the development: the machine types of \<^verbatim>\<open>src/SYSTEM/sys/sys.h\<close>
  (\<open>u8\<close>, \<open>u16\<close>, \<open>u32\<close>, \<open>u64\<close>), undefined behaviour of C as a value, checked
  array accesses, bounded \<open>for\<close> loops over a fallible body, little-endian byte views,
  and the generic lemmas that carry the component proofs.
\<close>

unbundle bit_operations_syntax

section \<open>Machine types and faults\<close>

type_synonym u8 = "8 word"
type_synonym u16 = "16 word"
type_synonym u32 = "32 word"
type_synonym u64 = "64 word"

text \<open>
  A C operation either yields a value or is undefined: an access outside an array, a division
  by zero, an access through a null pointer, or a loop that the model follows for a bounded number
  of rounds only.
\<close>

datatype c_fault = OutOfBounds | DivByZero | NullPointer | NoFuel

type_synonym 'a res = "c_fault + 'a"

definition bind_res :: "'a res \<Rightarrow> ('a \<Rightarrow> 'b res) \<Rightarrow> 'b res" where
  "bind_res m f = (case m of Inl e \<Rightarrow> Inl e | Inr x \<Rightarrow> f x)"

definition arr_get :: "'a list \<Rightarrow> nat \<Rightarrow> 'a res" where
  "arr_get xs i = (if i < length xs then Inr (xs ! i) else Inl OutOfBounds)"

definition arr_set :: "'a list \<Rightarrow> nat \<Rightarrow> 'a \<Rightarrow> 'a list res" where
  "arr_set xs i v = (if i < length xs then Inr (xs[i := v]) else Inl OutOfBounds)"

text \<open>A \<open>for\<close> loop whose body may fault: the index list is walked from left to right.\<close>

primrec for_each :: "'i list \<Rightarrow> ('i \<Rightarrow> 's \<Rightarrow> 's res) \<Rightarrow> 's \<Rightarrow> 's res" where
  "for_each [] f s = Inr s"
| "for_each (i # is) f s = bind_res (f i s) (for_each is f)"

section \<open>Little-endian views\<close>

text \<open>The bytes of a word in memory order on the little-endian Cortex-M4.\<close>

definition le_bytes :: "nat \<Rightarrow> 'a::len word \<Rightarrow> u8 list" where
  "le_bytes n w = map (\<lambda>i. ucast (drop_bit (8 * i) w)) [0..<n]"

fun of_le_bytes :: "u8 list \<Rightarrow> 'a::len word" where
  "of_le_bytes [] = 0"
| "of_le_bytes (b # bs) = ucast b OR push_bit 8 (of_le_bytes bs)"

section \<open>Lemma collections and generic lemmas\<close>

named_theorems res_simps "evaluation of fallible steps"

lemma bind_res_simps [simp, res_simps]:
  "bind_res (Inr x) f = f x"
  "bind_res (Inl e) f = Inl e"
  by (simp_all add: bind_res_def)

lemma bind_res_eq_Inr [simp]:
  "bind_res m f = Inr y \<longleftrightarrow> (\<exists>x. m = Inr x \<and> f x = Inr y)"
  by (cases m) simp_all

lemma bind_res_eq_Inl:
  "bind_res m f = Inl e \<longleftrightarrow> m = Inl e \<or> (\<exists>x. m = Inr x \<and> f x = Inl e)"
  by (cases m) simp_all

lemma bind_res_cong_Inr: "(\<And>x. m = Inr x \<Longrightarrow> f x = g x) \<Longrightarrow> bind_res m f = bind_res m g"
  by (cases m) simp_all

lemma bind_res_assoc: "bind_res (bind_res m f) g = bind_res m (\<lambda>x. bind_res (f x) g)"
  by (cases m) simp_all

lemma arr_get_Inr [simp, res_simps]: "i < length xs \<Longrightarrow> arr_get xs i = Inr (xs ! i)"
  by (simp add: arr_get_def)

lemma arr_set_Inr [simp, res_simps]: "i < length xs \<Longrightarrow> arr_set xs i v = Inr (xs[i := v])"
  by (simp add: arr_set_def)

lemma arr_get_Inl: "length xs \<le> i \<Longrightarrow> arr_get xs i = Inl OutOfBounds"
  by (simp add: arr_get_def)

lemma arr_set_Inl: "length xs \<le> i \<Longrightarrow> arr_set xs i v = Inl OutOfBounds"
  by (simp add: arr_set_def)

lemma for_each_append:
  "for_each (xs @ ys) f s = bind_res (for_each xs f s) (for_each ys f)"
  by (induction xs arbitrary: s) (auto simp: bind_res_def split: sum.splits)

text \<open>
  The loop rule: a body that keeps an invariant and never faults under it makes a loop that
  keeps it and never faults; where the body is a total step, the loop is a \<open>fold\<close>.
\<close>

lemma for_each_inv:
  assumes "P s" and "\<And>i s. i \<in> set is \<Longrightarrow> P s \<Longrightarrow> \<exists>s'. f i s = Inr s' \<and> P s'"
  shows "\<exists>s'. for_each is f s = Inr s' \<and> P s'"
  using assms
proof (induction "is" arbitrary: s)
  case Nil
  then show ?case by simp
next
  case (Cons i "is")
  then obtain s1 where "f i s = Inr s1" and "P s1" by (meson list.set_intros(1))
  with Cons show ?case by simp
qed

lemma for_each_fold:
  assumes "P s" and "\<And>i s. i \<in> set is \<Longrightarrow> P s \<Longrightarrow> f i s = Inr (g i s) \<and> P (g i s)"
  shows "for_each is f s = Inr (fold g is s) \<and> P (fold g is s)"
  using assms by (induction "is" arbitrary: s) simp_all

lemma for_each_cong_fun:
  assumes "\<And>i s. i \<in> set is \<Longrightarrow> f i s = g i s"
  shows "for_each is f s = for_each is g s"
  using assms by (induction "is" arbitrary: s) (auto simp: bind_res_def split: sum.splits)

lemma for_each_cong_inv:
  assumes "P s" and "\<And>i s. i \<in> set is \<Longrightarrow> P s \<Longrightarrow> f i s = g i s"
    and "\<And>i s s'. i \<in> set is \<Longrightarrow> P s \<Longrightarrow> g i s = Inr s' \<Longrightarrow> P s'"
  shows "for_each is f s = for_each is g s"
  using assms
proof (induction "is" arbitrary: s)
  case Nil
  then show ?case by simp
next
  case (Cons a "is")
  have eq: "f a s = g a s" using Cons.prems(1,2) by simp
  show ?case
  proof (cases "g a s")
    case (Inl e)
    with eq show ?thesis by simp
  next
    case (Inr s1)
    then have "P s1" using Cons.prems(1,3) by (meson list.set_intros(1))
    then have "for_each is f s1 = for_each is g s1"
      by (rule Cons.IH) (use Cons.prems(2,3) in \<open>simp, metis list.set_intros(2)\<close>)
    with eq Inr show ?thesis by simp
  qed
qed

lemma for_each_map: "for_each (map h is) f s = for_each is (\<lambda>i. f (h i)) s"
  by (induction "is" arbitrary: s) (auto simp: bind_res_def split: sum.splits)

lemma for_each_concat: "for_each (concat xss) f s = for_each xss (\<lambda>xs. for_each xs f) s"
  by (induction xss arbitrary: s) (auto simp: for_each_append bind_res_def split: sum.splits)

lemma for_each_filter:
  "for_each is (\<lambda>i s. if p i then f i s else Inr s) s = for_each (filter p is) f s"
  by (induction "is" arbitrary: s) (auto simp: bind_res_def split: sum.splits)

lemma fold_inv:
  assumes "P s" and "\<And>i s. i \<in> set is \<Longrightarrow> P s \<Longrightarrow> P (g i s)"
  shows "P (fold g is s)"
  using assms by (induction "is" arbitrary: s) simp_all

text \<open>Bit arithmetic.\<close>

lemma word_and_1_pos: "0 < (w AND 1) \<longleftrightarrow> bit w 0" for w :: "'a::len word"
  by (simp add: and_one_eq word_gt_0 mod2_eq_if bit_0)

lemma drop_bit_and_1_pos: "0 < (drop_bit i w AND 1) \<longleftrightarrow> bit w i" for w :: "'a::len word"
  by (simp add: word_and_1_pos bit_drop_bit_eq)

lemma drop_bit_and_1_eq: "(drop_bit i w AND 1) = 1 \<longleftrightarrow> bit w i" for w :: "'a::len word"
  by (simp add: and_one_eq bit_iff_odd_drop_bit odd_iff_mod_2_eq_one)

lemma length_le_bytes [simp]: "length (le_bytes n w) = n"
  by (simp add: le_bytes_def)

lemma nth_le_bytes [simp]: "i < n \<Longrightarrow> le_bytes n w ! i = ucast (drop_bit (8 * i) w)"
  by (simp add: le_bytes_def)

text \<open>Bits of a word assembled from bytes, and the round trip through memory.\<close>

lemma bit_of_le_bytes:
  "bit (of_le_bytes bs :: 'a::len word) n \<longleftrightarrow>
     n < LENGTH('a) \<and> n div 8 < length bs \<and> bit (bs ! (n div 8)) (n mod 8)"
proof (induction bs arbitrary: n)
  case Nil
  then show ?case by simp
next
  case (Cons b bs)
  show ?case
  proof (cases "n < 8")
    case True
    then show ?thesis by (auto simp: bit_or_iff bit_push_bit_iff bit_unsigned_iff)
  next
    case False
    then obtain m where n: "n = m + 8" by (metis le_add_diff_inverse2 not_le)
    have "\<not> bit b (m + 8)" using bit_imp_le_length[of b "m + 8"] by auto
    moreover have "(m + 8) div 8 = Suc (m div 8)" by simp
    ultimately show ?thesis using Cons[of m] by (auto simp: n bit_or_iff bit_push_bit_iff bit_unsigned_iff)
  qed
qed

lemma bit_le_bytes:
  "i < n \<Longrightarrow> k < 8 \<Longrightarrow> bit (le_bytes n w ! i) k \<longleftrightarrow> bit w (8 * i + k)"
  by (simp add: bit_unsigned_iff bit_drop_bit_eq ac_simps)

lemma of_le_bytes_le_bytes:
  "LENGTH('a) \<le> 8 * n \<Longrightarrow> of_le_bytes (le_bytes n w) = w" for w :: "'a::len word"
  by (rule bit_word_eqI) (simp add: bit_of_le_bytes less_mult_imp_div_less bit_le_bytes mult.commute del: nth_le_bytes)

text \<open>A loop that stores a run of values from offset \<open>k\<close> on.\<close>

lemma fold_store:
  assumes "k + n \<le> length xs"
  shows "length (fold (\<lambda>i xs. xs[k + i := v i]) [0..<n] xs) = length xs"
    and "j < length xs \<Longrightarrow> fold (\<lambda>i xs. xs[k + i := v i]) [0..<n] xs ! j =
      (if k \<le> j \<and> j < k + n then v (j - k) else xs ! j)"
proof -
  show len: "length (fold (\<lambda>i xs. xs[k + i := v i]) [0..<n] xs) = length xs" for n
    by (induction n) auto
  show "fold (\<lambda>i xs. xs[k + i := v i]) [0..<n] xs ! j = (if k \<le> j \<and> j < k + n then v (j - k) else xs ! j)"
    if "j < length xs"
    using assms that by (induction n) (auto simp: nth_list_update len)
qed

lemma ucast_low_byte: "ucast (w AND 0xff) = (ucast w :: u8)" for w :: "'a::len word"
proof (rule bit_word_eqI)
  fix n assume "n < LENGTH(8)"
  then have n: "n < 8" by simp
  have e: "(0xff :: 'a word) = mask 8" by (simp add: mask_eq_exp_minus_1)
  show "bit (ucast (w AND 0xff) :: u8) n = bit (ucast w :: u8) n"
    unfolding e using n by (auto simp: bit_simps dest: bit_imp_le_length)
qed

end
