(* ===== verification/Hal.thy ===== *)
theory Hal
  imports Prelude
begin

text \<open>
  The hardware boundary. The firmware acts on the board by stores to GPIO registers and by
  calls of the vendor HAL; each is one \<open>io_event\<close>, and a component appends the events it
  causes to its log in program order. The pin macros of
  \<^verbatim>\<open>src/HARDWARE/Fiu/FiuProcess.h\<close> are the tables below. What the board makes of a log
  (pin levels, the fourteen SN74374 registers that drive the relays) is read off by the
  observers \<open>level_step\<close> and \<open>board_step\<close>, which follow the register semantics of the
  port (a store to \<open>BSRR\<close> sets and clears output bits) and of a rising-edge register.
\<close>

section \<open>Ports, pins and events\<close>

datatype gpio_port = GPIOA | GPIOB | GPIOC | GPIOD | GPIOE | GPIOF | GPIOG | GPIOH | GPIOI

datatype gpio_mode = GPIO_MODE_INPUT | GPIO_MODE_OUTPUT_PP | GPIO_MODE_AF_PP

type_synonym pin = "gpio_port \<times> nat"

datatype io_event =
    Bsrr gpio_port u32
  | BitBand gpio_port nat u32
  | GpioInit gpio_port u16 gpio_mode
  | DelayMs u16
  | Tim10PwmStop | Tim10PwmDeInit | Tim10PwmStart u32 u32 u32
  | Tim2StopIT | Tim2DeInit | Tim2StartIT u32 u32
  | NullTimer nat
  | CanTransmit u32 "u8 list"
  | Pcf8574Bit nat bool
  | Print string
  | SystemReset

definition GPIO_PIN :: "nat \<Rightarrow> u16" where
  "GPIO_PIN k = push_bit k 1"

definition HAL_GPIO_WritePin :: "gpio_port \<Rightarrow> u16 \<Rightarrow> bool \<Rightarrow> io_event" where
  "HAL_GPIO_WritePin GPIOx GPIO_Pin PinState =
     (if PinState then Bsrr GPIOx (ucast GPIO_Pin)
      else Bsrr GPIOx (push_bit 16 (ucast GPIO_Pin)))"

definition write_pin :: "pin \<Rightarrow> bool \<Rightarrow> io_event" where
  "write_pin pn v = HAL_GPIO_WritePin (fst pn) (GPIO_PIN (snd pn)) v"

definition CH_EN :: pin where
  "CH_EN = (GPIOH, 12)"

definition CHCLK_tab :: "pin list" where
  "CHCLK_tab =
     [(GPIOH, 15), (GPIOI, 0), (GPIOI, 1), (GPIOI, 2), (GPIOI, 3), (GPIOA, 15), (GPIOC, 10),
      (GPIOC, 11), (GPIOC, 12), (GPIOD, 3), (GPIOD, 4), (GPIOD, 5), (GPIOD, 6), (GPIOD, 7)]"

definition RELAYEN_tab :: "pin list" where
  "RELAYEN_tab =
     [(GPIOB, 13), (GPIOB, 14), (GPIOB, 15), (GPIOD, 11), (GPIOD, 12), (GPIOD, 13), (GPIOG, 3),
      (GPIOG, 6), (GPIOG, 7), (GPIOC, 6), (GPIOC, 7), (GPIOC, 8), (GPIOC, 9), (GPIOA, 8),
      (GPIOH, 13), (GPIOH, 14)]"

definition CTRLBUS_tab :: "pin list" where
  "CTRLBUS_tab =
     [(GPIOF, 8), (GPIOC, 13), (GPIOI, 9), (GPIOI, 10), (GPIOI, 11), (GPIOF, 6), (GPIOF, 7),
      (GPIOI, 8), (GPIOE, 2), (GPIOE, 3), (GPIOE, 4), (GPIOE, 5), (GPIOE, 6), (GPIOF, 9),
      (GPIOF, 10), (GPIOA, 0), (GPIOH, 2)]"

definition FUSETEST_tab :: "pin list" where
  "FUSETEST_tab = [(GPIOA, 5), (GPIOA, 6), (GPIOB, 0), (GPIOB, 1), (GPIOH, 6)]"

definition FUSEDATA_tab :: "pin list" where
  "FUSEDATA_tab = [(GPIOH, 11), (GPIOH, 10), (GPIOH, 9), (GPIOH, 8), (GPIOH, 7)]"

definition RESCTRL_tab :: "pin list" where
  "RESCTRL_tab =
     [(GPIOI, 7), (GPIOI, 6), (GPIOI, 5), (GPIOI, 4), (GPIOB, 9), (GPIOB, 8), (GPIOB, 7),
      (GPIOB, 6), (GPIOB, 5), (GPIOB, 4), (GPIOB, 3), (GPIOG, 12), (GPIOG, 11), (GPIOG, 10),
      (GPIOG, 9)]"

text \<open>The macros number their pins from 1.\<close>

definition CHCLK :: "nat \<Rightarrow> pin" where
  "CHCLK i = CHCLK_tab ! (i - 1)"

definition RELAYEN :: "nat \<Rightarrow> pin" where
  "RELAYEN i = RELAYEN_tab ! (i - 1)"

definition CTRLBUS :: "nat \<Rightarrow> pin" where
  "CTRLBUS i = CTRLBUS_tab ! (i - 1)"

definition RESCTRL :: "nat \<Rightarrow> pin" where
  "RESCTRL i = RESCTRL_tab ! (i - 1)"

definition FUSETEST :: "nat \<Rightarrow> pin" where
  "FUSETEST i = FUSETEST_tab ! (i - 1)"

definition FUSEDATA :: "nat \<Rightarrow> pin" where
  "FUSEDATA i = FUSEDATA_tab ! (i - 1)"

text \<open>The assignment \<open>PXout(n) = v\<close>: a store to the bit-band alias of one \<open>ODR\<close> bit.\<close>

definition Pout :: "pin \<Rightarrow> u32 \<Rightarrow> io_event" where
  "Pout pn v = BitBand (fst pn) (snd pn) v"

section \<open>What the board sees\<close>

type_synonym levels = "pin \<Rightarrow> bool"

fun level_step :: "io_event \<Rightarrow> levels \<Rightarrow> levels" where
  "level_step (Bsrr p w) l =
     (\<lambda>(q, n). if q = p \<and> n < 16 then bit w n \<or> (l (q, n) \<and> \<not> bit w (n + 16)) else l (q, n))"
| "level_step (BitBand p k v) l = l((p, k) := bit v 0)"
| "level_step _ l = l"

definition levels_of :: "io_event list \<Rightarrow> levels \<Rightarrow> levels" where
  "levels_of es l = fold level_step es l"

text \<open>
  \<open>dq_out b k i\<close> is output \<open>i\<close> of relay register \<open>k\<close>: on a rising edge of
  \<open>CHCLK(k+1)\<close> the register takes the sixteen \<open>RELAYEN\<close> lines.
\<close>

record board =
  level :: levels
  dq_out :: "nat \<Rightarrow> nat \<Rightarrow> bool"

definition board_step :: "io_event \<Rightarrow> board \<Rightarrow> board" where
  "board_step e b =
     (let l = level_step e (level b) in
      b\<lparr>level := l,
        dq_out := (\<lambda>k. if k < 14 \<and> \<not> level b (CHCLK (k + 1)) \<and> l (CHCLK (k + 1))
                       then (\<lambda>i. l (RELAYEN (i + 1))) else dq_out b k)\<rparr>)"

definition board_run :: "io_event list \<Rightarrow> board \<Rightarrow> board" where
  "board_run es b = fold board_step es b"

text \<open>Every line of the four output groups.\<close>

definition tab_pins :: "pin list" where
  "tab_pins = CHCLK_tab @ RELAYEN_tab @ CTRLBUS_tab @ RESCTRL_tab"

section \<open>Lemmas\<close>

named_theorems pin_tabs "the pin tables of FiuProcess.h"

lemmas pin_tab_defs [pin_tabs] =
  CHCLK_def CHCLK_tab_def RELAYEN_def RELAYEN_tab_def CTRLBUS_def CTRLBUS_tab_def
  RESCTRL_def RESCTRL_tab_def FUSETEST_def FUSETEST_tab_def FUSEDATA_def FUSEDATA_tab_def CH_EN_def

lemma bit_GPIO_PIN: "bit (GPIO_PIN k) n \<longleftrightarrow> n = k \<and> n < 16"
  by (auto simp: GPIO_PIN_def bit_exp_iff)

text \<open>A pin write moves exactly its own pin, whatever the level was.\<close>

lemma level_step_write_pin:
  assumes "snd pn < 16"
  shows "level_step (write_pin pn v) l = l(pn := v)"
proof (cases pn)
  case (Pair p k)
  with assms have k: "k < 16" by simp
  have "level_step (write_pin (p, k) v) l (q, n) = (l((p, k) := v)) (q, n)" for q n
    using k by (auto simp: write_pin_def HAL_GPIO_WritePin_def bit_GPIO_PIN bit_ucast_iff bit_push_bit_iff)
  then show ?thesis using Pair by fastforce
qed

lemma level_step_Pout [simp]: "level_step (Pout pn v) l = l(pn := bit v 0)"
  by (cases pn) (simp add: Pout_def)

lemma levels_of_simps [simp]:
  "levels_of [] l = l"
  "levels_of (e # es) l = levels_of es (level_step e l)"
  "levels_of (es @ fs) l = levels_of fs (levels_of es l)"
  by (simp_all add: levels_of_def)

lemma board_run_simps [simp]:
  "board_run [] b = b"
  "board_run (e # es) b = board_run es (board_step e b)"
  "board_run (es @ fs) b = board_run fs (board_run es b)"
  by (simp_all add: board_run_def)

lemma level_board_step [simp]: "level (board_step e b) = level_step e (level b)"
  by (simp add: board_step_def Let_def)

lemma level_board_run [simp]: "level (board_run es b) = levels_of es (level b)"
  by (induction es arbitrary: b) simp_all

text \<open>
  The tables name distinct pins: the relay bus, the register clocks, the bus relays and the
  resistor decade never share a line.
\<close>

lemma distinct_tab_pins: "distinct tab_pins"
  by (simp add: tab_pins_def CHCLK_tab_def RELAYEN_tab_def CTRLBUS_tab_def RESCTRL_tab_def)

lemma tab_pins_16: "pn \<in> set tab_pins \<Longrightarrow> snd pn < 16"
  by (auto simp: tab_pins_def CHCLK_tab_def RELAYEN_tab_def CTRLBUS_tab_def RESCTRL_tab_def)

lemma tab_lengths [simp]:
  "length CHCLK_tab = 14" "length RELAYEN_tab = 16" "length CTRLBUS_tab = 17"
  "length RESCTRL_tab = 15"
  by (simp_all add: CHCLK_tab_def RELAYEN_tab_def CTRLBUS_tab_def RESCTRL_tab_def)

lemma pin_in_tab:
  "k < 14 \<Longrightarrow> CHCLK (Suc k) \<in> set CHCLK_tab"
  "i < 16 \<Longrightarrow> RELAYEN (Suc i) \<in> set RELAYEN_tab"
  "i < 17 \<Longrightarrow> CTRLBUS (Suc i) \<in> set CTRLBUS_tab"
  "i < 15 \<Longrightarrow> RESCTRL (Suc i) \<in> set RESCTRL_tab"
  by (simp_all add: CHCLK_def RELAYEN_def CTRLBUS_def RESCTRL_def)

lemma tab_disjoint:
  "set CHCLK_tab \<inter> set RELAYEN_tab = {}" "set CHCLK_tab \<inter> set CTRLBUS_tab = {}"
  "set CHCLK_tab \<inter> set RESCTRL_tab = {}" "set RELAYEN_tab \<inter> set CTRLBUS_tab = {}"
  "set RELAYEN_tab \<inter> set RESCTRL_tab = {}" "set CTRLBUS_tab \<inter> set RESCTRL_tab = {}"
  using distinct_tab_pins unfolding tab_pins_def by auto

lemma CHCLK_inj: "k < 14 \<Longrightarrow> j < 14 \<Longrightarrow> CHCLK (Suc k) = CHCLK (Suc j) \<longleftrightarrow> k = j"
  using distinct_tab_pins unfolding tab_pins_def CHCLK_def by (simp add: nth_eq_iff_index_eq)

lemma RELAYEN_inj: "k < 16 \<Longrightarrow> j < 16 \<Longrightarrow> RELAYEN (Suc k) = RELAYEN (Suc j) \<longleftrightarrow> k = j"
  using distinct_tab_pins unfolding tab_pins_def RELAYEN_def by (simp add: nth_eq_iff_index_eq)

lemma CHCLK_neq_RELAYEN [simp]:
  "k < 14 \<Longrightarrow> i < 16 \<Longrightarrow> CHCLK (Suc k) \<noteq> RELAYEN (Suc i)"
  "k < 14 \<Longrightarrow> i < 16 \<Longrightarrow> RELAYEN (Suc i) \<noteq> CHCLK (Suc k)"
  using pin_in_tab(1,2) tab_disjoint(1) by (metis disjoint_iff)+

lemma pin_16 [simp]:
  "k < 14 \<Longrightarrow> snd (CHCLK (Suc k)) < 16"
  "i < 16 \<Longrightarrow> snd (RELAYEN (Suc i)) < 16"
  "i < 17 \<Longrightarrow> snd (CTRLBUS (Suc i)) < 16"
  "i < 15 \<Longrightarrow> snd (RESCTRL (Suc i)) < 16"
  using pin_in_tab tab_pins_16 unfolding tab_pins_def by auto

end
