(* ===== verification/Relay.thy ===== *)
theory Relay
  imports Hal
begin

text \<open>
  \<^verbatim>\<open>src/HARDWARE/Fiu/FiuProcess.c\<close>, the lower half: the shadow copies \<open>uDqStatus\<close> of
  the fourteen relay registers and the routines that drive them (\<open>Sn74374_fun\<close>,
  \<open>Sn74374_Clear0\<close>, \<open>Sn74374_Set0\<close>), the bus relays (\<open>HV_FunRelay_Set\<close>,
  \<open>HI_FunRelay_Set\<close>), the resistor decade (\<open>Resistance_select\<close>) and the fuse test.
  The main result is that the shadow copy and the registers on the board stay equal.
\<close>

section \<open>State\<close>

text \<open>The file's globals, with the log of what the routines did to the board.\<close>

record relay_st =
  uKasuStatus :: "u8 list"
  uKamnStatus :: "u8 list"
  uDqStatus :: "u16 list"
  uResistance :: "u16 list"
  uFiuCom_buf :: "u8 list"
  uFaultModePreStatus :: u8
  uFaultModeStatus :: u8
  io :: "io_event list"

definition emit :: "io_event list \<Rightarrow> relay_st \<Rightarrow> relay_st" where
  "emit es s = s\<lparr>io := io s @ es\<rparr>"

text \<open>The arrays have the lengths of their declarations.\<close>

definition relay_wf :: "relay_st \<Rightarrow> bool" where
  "relay_wf s \<longleftrightarrow> length (uKasuStatus s) = 72 \<and> length (uKamnStatus s) = 72 \<and>
     length (uDqStatus s) = 14 \<and> length (uResistance s) = 15 \<and> length (uFiuCom_buf s) = 17"

text \<open>At power-up the C runtime zeroes every global; the log is empty.\<close>

definition relay_init :: relay_st where
  "relay_init = \<lparr>uKasuStatus = replicate 72 0, uKamnStatus = replicate 72 0, uDqStatus = replicate 14 0,
     uResistance = replicate 15 0, uFiuCom_buf = replicate 17 0, uFaultModePreStatus = 0,
     uFaultModeStatus = 0, io = []\<rparr>"

lemma relay_wf_init [simp]: "relay_wf relay_init"
  by (simp add: relay_wf_def relay_init_def)

section \<open>Operations\<close>

definition Resistance_select :: "u8 \<Rightarrow> u8 \<Rightarrow> relay_st \<Rightarrow> relay_st" where
  "Resistance_select uResvalueHigh uResvalueLow s =
     (if (drop_bit 7 uResvalueHigh AND 1) = 0
      then emit
        (map (\<lambda>i. Pout (RESCTRL (i + 1)) (if (drop_bit i uResvalueLow AND 1) = 1 then 1 else 0)) [0..<8] @
         map (\<lambda>i. Pout (RESCTRL (i + 9)) (if (drop_bit i uResvalueHigh AND 1) = 1 then 1 else 0)) [0..<7]) s
      else s)"

text \<open>
  \<open>Fuse_test\<close> drives the five test lines one after the other and reads the fuse inputs;
  \<open>FUSEDATA i = True\<close> stands for the level found on input \<open>i\<close> when it is read.
\<close>

definition Fuse_test :: "(nat \<Rightarrow> bool) \<Rightarrow> relay_st \<Rightarrow> u8 \<times> relay_st" where
  "Fuse_test fusedata s =
     (fold (\<lambda>i r. if \<not> fusedata (i + 1) then r OR push_bit i 1 else r) [0..<5] 0,
      emit (concat (map (\<lambda>i. [Pout (FUSETEST (i + 1)) 1, DelayMs 40]) [0..<5]) @
            map (\<lambda>i. Pout (FUSETEST (i + 1)) 0) [0..<5]) s)"

text \<open>The sixteen \<open>RELAYEN\<close> lines set from a value, and one clock pulse.\<close>

definition relayen_write :: "u16 \<Rightarrow> io_event list" where
  "relayen_write w = map (\<lambda>i. write_pin (RELAYEN (i + 1)) (0 < (drop_bit i w AND 1))) [0..<16]"

definition chclk_pulse :: "nat \<Rightarrow> io_event list" where
  "chclk_pulse k =
     (if k < 14
      then [write_pin (CHCLK (k + 1)) False, DelayMs 1, write_pin (CHCLK (k + 1)) True, DelayMs 1,
            write_pin (CHCLK (k + 1)) False]
      else [])"

definition Sn74374_fun :: "nat \<Rightarrow> u16 \<Rightarrow> relay_st \<Rightarrow> relay_st res" where
  "Sn74374_fun uNumber uSetValue s =
     bind_res (arr_get (uDqStatus s) uNumber) (\<lambda>d.
     let uSetValuetemp = d OR uSetValue;
         s = emit (relayen_write uSetValuetemp) s in
     bind_res (arr_set (uDqStatus s) uNumber uSetValuetemp) (\<lambda>dq.
     Inr (emit (chclk_pulse uNumber) (s\<lparr>uDqStatus := dq\<rparr>))))"

definition Sn74374_Clear0 :: "nat \<Rightarrow> relay_st \<Rightarrow> relay_st res" where
  "Sn74374_Clear0 uNumber s =
     bind_res (arr_set (uDqStatus s) uNumber 0) (\<lambda>dq.
     Inr (emit (chclk_pulse uNumber)
           (emit (map (\<lambda>i. write_pin (RELAYEN (i + 1)) False) [0..<16]) (s\<lparr>uDqStatus := dq\<rparr>))))"

definition Sn74374_Set0 :: "relay_st \<Rightarrow> relay_st res" where
  "Sn74374_Set0 s = for_each [0..<14] Sn74374_Clear0 s"

text \<open>Writes to bus relays, in the order of the source: relay number and level.\<close>

definition ctrlbus_write :: "(nat \<times> bool) list \<Rightarrow> io_event list" where
  "ctrlbus_write ws = map (\<lambda>(i, v). write_pin (CTRLBUS i) v) ws"

definition HI_FunRelay_Set :: "u8 \<Rightarrow> relay_st \<Rightarrow> relay_st" where
  "HI_FunRelay_Set uSetValue s =
     (if uSetValue = 0 then
        emit (ctrlbus_write [(2, False), (14, False), (15, False), (16, False), (17, False)]) s
      else if uSetValue = 1 then
        emit (ctrlbus_write [(2, False), (14, False), (15, False), (16, False), (17, False)]) s
      else if uSetValue = 2 then
        emit (ctrlbus_write [(2, False), (14, False), (15, False), (16, True), (17, False)]) s
      else s)"

text \<open>The bus relay settings of \<open>HV_FunRelay_Set\<close>: reset, the four composite faults,
  then the fast-switching settings.\<close>

fun hv_composite :: "nat \<Rightarrow> (nat \<times> bool) list" where
  "hv_composite n =
     (if n = 0 then
        [(1, False), (2, False), (3, False), (4, False), (5, False), (6, False), (7, False),
         (8, False), (9, False), (10, False), (11, False), (12, False), (13, False), (14, False),
         (15, False), (16, False), (17, False)]
      else if n = 1 then
        [(1, True), (2, False), (3, False), (4, False), (5, False), (6, False), (7, False),
         (10, True), (11, True), (13, True)]
      else if n = 2 then
        [(1, True), (2, False), (3, False), (4, False), (5, False), (6, False), (7, False),
         (10, True), (11, True), (13, False)]
      else if n = 3 then
        [(1, True), (2, False), (3, False), (4, False), (5, False), (6, False), (7, False),
         (10, True), (11, False), (12, True)]
      else if n = 4 then
        [(1, True), (2, False), (3, False), (4, False), (5, False), (6, False), (7, False),
         (10, True), (11, False), (12, False)]
      else [])"

fun hv_fast :: "nat \<Rightarrow> (nat \<times> bool) list" where
  "hv_fast n =
     (if n = 5 then
        [(1, True), (2, False), (3, False), (4, False), (5, True), (6, True), (7, False),
         (10, True), (11, True), (13, True)]
      else if n = 6 then
        [(1, True), (2, False), (3, False), (4, False), (5, True), (6, True), (7, False),
         (10, True), (11, True), (13, False)]
      else if n = 7 then
        [(1, True), (2, False), (3, False), (4, False), (5, True), (6, True), (7, False),
         (10, True), (11, False), (12, True)]
      else if n = 8 then
        [(1, True), (2, False), (3, False), (4, False), (5, True), (6, True), (7, False),
         (10, True), (11, False), (13, False)]
      else if n = 9 then
        [(1, True), (2, False), (3, False), (4, False), (5, True), (6, False), (7, False),
         (10, False), (11, False), (13, False)]
      else if n = 10 then
        [(1, True), (2, False), (3, False), (4, False), (5, True), (6, True), (7, False),
         (10, False), (11, False), (13, False)]
      else if n = 11 then
        [(1, True), (2, False), (3, True), (4, False), (5, True), (6, True), (7, False),
         (10, False), (11, False), (13, False)]
      else [])"

definition HV_FunRelay_Set :: "u8 \<Rightarrow> relay_st \<Rightarrow> relay_st" where
  "HV_FunRelay_Set uSetValue s =
     (let n = unat uSetValue in
      emit (ctrlbus_write (if n \<le> 4 then hv_composite n else hv_fast n)) s)"

definition tdreset_process :: "relay_st \<Rightarrow> relay_st res" where
  "tdreset_process s =
     bind_res (Sn74374_Set0 s) (\<lambda>s.
     Inr (HI_FunRelay_Set 0 (Resistance_select 0 0 (HV_FunRelay_Set 0 s))))"

section \<open>Observers\<close>

text \<open>
  The board after a log, started in an arbitrary state \<open>b0\<close>; the numbers of the relays whose
  shadow bit is set (relay \<open>n\<close> is output \<open>n mod 16\<close> of register \<open>n div 16\<close>);
  the levels of the bus relays and of the resistor decade.
\<close>

definition board_of :: "board \<Rightarrow> relay_st \<Rightarrow> board" where
  "board_of b0 s = board_run (io s) b0"

definition relays :: "relay_st \<Rightarrow> nat set" where
  "relays s = {n. n < 224 \<and> bit (uDqStatus s ! (n div 16)) (n mod 16)}"

definition bus_levels :: "board \<Rightarrow> relay_st \<Rightarrow> bool list" where
  "bus_levels b0 s = map (\<lambda>i. level (board_of b0 s) (CTRLBUS (i + 1))) [0..<17]"

definition res_levels :: "board \<Rightarrow> relay_st \<Rightarrow> bool list" where
  "res_levels b0 s = map (\<lambda>i. level (board_of b0 s) (RESCTRL (i + 1))) [0..<15]"

definition dq_coherent :: "board \<Rightarrow> relay_st \<Rightarrow> bool" where
  "dq_coherent b0 s \<longleftrightarrow>
     (\<forall>k < 14. \<forall>i < 16. dq_out (board_of b0 s) k i = bit (uDqStatus s ! k) i)"

text \<open>The same for a set of registers, and a state in which the shadow agrees with the board.\<close>

definition coherent_at :: "board \<Rightarrow> relay_st \<Rightarrow> nat set \<Rightarrow> bool" where
  "coherent_at b0 s K \<longleftrightarrow>
     (\<forall>k \<in> K. \<forall>i < 16. dq_out (board_of b0 s) k i = bit (uDqStatus s ! k) i)"

definition good :: "board \<Rightarrow> relay_st \<Rightarrow> bool" where
  "good b0 s \<longleftrightarrow> relay_wf s \<and> dq_coherent b0 s"

text \<open>The whole observable state: frame buffer, bus relays, resistor decade, agreement with the board.\<close>

definition holds :: "board \<Rightarrow> u8 list \<Rightarrow> bool list \<Rightarrow> bool list \<Rightarrow> relay_st \<Rightarrow> bool" where
  "holds b0 buf bl rl s \<longleftrightarrow>
     good b0 s \<and> uFiuCom_buf s = buf \<and> bus_levels b0 s = bl \<and> res_levels b0 s = rl"

text \<open>What a sequence of bus relay writes, and a resistor setting, leave behind.\<close>

definition bus_effect :: "(nat \<times> bool) list \<Rightarrow> bool list \<Rightarrow> bool list" where
  "bus_effect ws bl = fold (\<lambda>(i, v) bl. bl[i - 1 := v]) ws bl"

definition res_effect :: "u8 \<Rightarrow> u8 \<Rightarrow> bool list \<Rightarrow> bool list" where
  "res_effect h l rl =
     (if bit h 7 then rl else map (bit l) [0..<8] @ map (bit h) [0..<7])"

text \<open>Events that leave every register clock alone.\<close>

definition clk_quiet :: "io_event \<Rightarrow> bool" where
  "clk_quiet e \<longleftrightarrow> (\<forall>l. \<forall>k < 14. level_step e l (CHCLK (Suc k)) = l (CHCLK (Suc k)))"

section \<open>Events on the board\<close>

lemma level_step_table:
  "i < 16 \<Longrightarrow> level_step (write_pin (RELAYEN (Suc i)) v) l = l(RELAYEN (Suc i) := v)"
  "k < 14 \<Longrightarrow> level_step (write_pin (CHCLK (Suc k)) v) l = l(CHCLK (Suc k) := v)"
  "j < 17 \<Longrightarrow> level_step (write_pin (CTRLBUS (Suc j)) v) l = l(CTRLBUS (Suc j) := v)"
  by (simp_all add: level_step_write_pin)

lemma tab_neq [simp]:
  "k < 14 \<Longrightarrow> j < 17 \<Longrightarrow> CHCLK (Suc k) \<noteq> CTRLBUS (Suc j)"
  "k < 14 \<Longrightarrow> r < 15 \<Longrightarrow> CHCLK (Suc k) \<noteq> RESCTRL (Suc r)"
  "k < 14 \<Longrightarrow> j < 17 \<Longrightarrow> CTRLBUS (Suc j) \<noteq> CHCLK (Suc k)"
  "k < 14 \<Longrightarrow> r < 15 \<Longrightarrow> RESCTRL (Suc r) \<noteq> CHCLK (Suc k)"
  "i < 16 \<Longrightarrow> j < 17 \<Longrightarrow> CTRLBUS (Suc j) \<noteq> RELAYEN (Suc i)"
  "i < 16 \<Longrightarrow> r < 15 \<Longrightarrow> RESCTRL (Suc r) \<noteq> RELAYEN (Suc i)"
  "j < 17 \<Longrightarrow> r < 15 \<Longrightarrow> CTRLBUS (Suc j) \<noteq> RESCTRL (Suc r)"
  "j < 17 \<Longrightarrow> r < 15 \<Longrightarrow> RESCTRL (Suc r) \<noteq> CTRLBUS (Suc j)"
  using pin_in_tab tab_disjoint by (metis disjoint_iff)+

lemma table_inj:
  "i < 17 \<Longrightarrow> j < 17 \<Longrightarrow> CTRLBUS (Suc i) = CTRLBUS (Suc j) \<longleftrightarrow> i = j"
  "p < 15 \<Longrightarrow> r < 15 \<Longrightarrow> RESCTRL (Suc p) = RESCTRL (Suc r) \<longleftrightarrow> p = r"
  using distinct_tab_pins unfolding tab_pins_def CTRLBUS_def RESCTRL_def
  by (simp_all add: nth_eq_iff_index_eq)

lemma clk_quiet_write [simp]:
  "i < 16 \<Longrightarrow> clk_quiet (write_pin (RELAYEN (Suc i)) v)"
  "j < 17 \<Longrightarrow> clk_quiet (write_pin (CTRLBUS (Suc j)) v)"
  "r < 15 \<Longrightarrow> clk_quiet (Pout (RESCTRL (Suc r)) w)"
  "clk_quiet (DelayMs n)"
  by (simp_all add: clk_quiet_def level_step_table)

lemma clk_quiet_other [simp]:
  "clk_quiet (GpioInit p w m)" "clk_quiet (Print t)" "clk_quiet (CanTransmit i d)" "clk_quiet (Pcf8574Bit n v)"
  "clk_quiet SystemReset" "clk_quiet Tim10PwmStop" "clk_quiet Tim10PwmDeInit" "clk_quiet (Tim10PwmStart x y z)"
  "clk_quiet Tim2StopIT" "clk_quiet Tim2DeInit" "clk_quiet (Tim2StartIT x y)" "clk_quiet (NullTimer t')"
  by (simp_all add: clk_quiet_def)

lemma dq_out_quiet:
  assumes "\<And>e. e \<in> set es \<Longrightarrow> clk_quiet e"
  shows "dq_out (board_run es b) = dq_out b"
  using assms
proof (induction es arbitrary: b)
  case Nil
  then show ?case by simp
next
  case (Cons e es)
  then have q: "clk_quiet e" by simp
  then have "level_step e (level b) (CHCLK (Suc k)) = level b (CHCLK (Suc k))" if "k < 14" for k
    using that unfolding clk_quiet_def by blast
  then have "dq_out (board_step e b) = dq_out b"
    by (auto simp: board_step_def Let_def fun_eq_iff)
  with Cons show ?case by simp
qed

text \<open>Writing a run of pins of one table: each pin gets its own value, the others keep theirs.\<close>

lemma levels_of_map_write:
  assumes "\<And>i l. i < n \<Longrightarrow> level_step (ev i) l = l(pn i := vl i)"
    and "\<And>i j. i < n \<Longrightarrow> j < n \<Longrightarrow> pn i = pn j \<longleftrightarrow> i = j" and "m \<le> n" and "j < n"
  shows "levels_of (map ev [0..<m]) l (pn j) = (if j < m then vl j else l (pn j))"
  using assms(3) assms(1,2,4) by (induction m) (auto simp: less_Suc_eq)

lemma levels_of_map_frame:
  assumes "\<And>i l. i < m \<Longrightarrow> level_step (ev i) l = l(pn i := vl i)"
    and "\<And>i. i < m \<Longrightarrow> q \<noteq> pn i"
  shows "levels_of (map ev [0..<m]) l q = l q"
  using assms by (induction m) auto

lemma levels_relayen_write:
  "i < 16 \<Longrightarrow> levels_of (relayen_write w) l (RELAYEN (Suc i)) = bit w i"
  using levels_of_map_write[of 16 "\<lambda>i. write_pin (RELAYEN (i + 1)) (0 < (drop_bit i w AND 1))"
      "\<lambda>i. RELAYEN (i + 1)" "bit w" 16 i l]
  by (simp add: relayen_write_def level_step_table RELAYEN_inj drop_bit_and_1_pos)

lemma levels_relayen_frame:
  "(\<And>i. i < 16 \<Longrightarrow> q \<noteq> RELAYEN (Suc i)) \<Longrightarrow> levels_of (relayen_write w) l q = l q"
  using levels_of_map_frame[of 16 "\<lambda>i. write_pin (RELAYEN (i + 1)) (0 < (drop_bit i w AND 1))"
      "\<lambda>i. RELAYEN (i + 1)" "bit w" q l]
  by (simp add: relayen_write_def level_step_table drop_bit_and_1_pos)

lemma relayen_write_0:
  "map (\<lambda>i. write_pin (RELAYEN (i + 1)) False) [0..<16] = relayen_write 0"
  by (simp add: relayen_write_def)

text \<open>One clock pulse loads exactly the addressed register from the relay bus.\<close>

lemma board_chclk_pulse:
  assumes "k < 14"
  shows "dq_out (board_run (chclk_pulse k) b) =
           (dq_out b)(k := (\<lambda>i. if RELAYEN (Suc i) = CHCLK (Suc k) then True else level b (RELAYEN (Suc i))))"
  using assms
  by (auto simp: chclk_pulse_def board_step_def level_step_table CHCLK_inj Let_def fun_eq_iff)

lemma levels_chclk_pulse:
  "k < 14 \<Longrightarrow> levels_of (chclk_pulse k) l = l(CHCLK (Suc k) := False)"
  by (simp add: chclk_pulse_def level_step_table)

lemma dq_out_load:
  assumes "k < 14" "j < 14" "i < 16"
  shows "dq_out (board_run (relayen_write w @ chclk_pulse k) b) j i =
           (if j = k then bit w i else dq_out b j i)"
proof -
  have "dq_out (board_run (relayen_write w) b) = dq_out b"
    by (rule dq_out_quiet) (auto simp: relayen_write_def)
  with assms show ?thesis
    by (simp add: board_chclk_pulse levels_relayen_write)
qed

section \<open>The routines on the shadow state\<close>

lemma emit_simps [simp]:
  "uKasuStatus (emit es s) = uKasuStatus s" "uKamnStatus (emit es s) = uKamnStatus s"
  "uDqStatus (emit es s) = uDqStatus s" "uResistance (emit es s) = uResistance s"
  "uFiuCom_buf (emit es s) = uFiuCom_buf s" "io (emit es s) = io s @ es"
  "uFaultModePreStatus (emit es s) = uFaultModePreStatus s"
  "uFaultModeStatus (emit es s) = uFaultModeStatus s"
  "relays (emit es s) = relays s" "relay_wf (emit es s) = relay_wf s"
  by (simp_all add: emit_def relays_def relay_wf_def)

lemma emit_emit [simp]: "emit es (emit fs s) = emit (fs @ es) s"
  by (simp add: emit_def)

lemma board_of_emit [simp]: "board_of b0 (emit es s) = board_run es (board_of b0 s)"
  by (simp add: board_of_def)

lemma relay_wf_dq [simp]: "relay_wf s \<Longrightarrow> length (uDqStatus s) = 14"
  by (simp add: relay_wf_def)

lemma Sn74374_fun_eq:
  assumes "relay_wf s" "k < 14"
  shows "Sn74374_fun k v s =
    (let w = uDqStatus s ! k OR v in
     Inr (emit (relayen_write w @ chclk_pulse k) (s\<lparr>uDqStatus := (uDqStatus s)[k := w]\<rparr>)))"
  using assms by (simp add: Sn74374_fun_def Let_def emit_def)

lemma Sn74374_Clear0_eq:
  assumes "relay_wf s" "k < 14"
  shows "Sn74374_Clear0 k s =
    Inr (emit (relayen_write 0 @ chclk_pulse k) (s\<lparr>uDqStatus := (uDqStatus s)[k := 0]\<rparr>))"
  using assms by (simp add: Sn74374_Clear0_def relayen_write_0[simplified])

lemma Sn74374_out_of_range:
  "length (uDqStatus s) \<le> k \<Longrightarrow> Sn74374_fun k v s = Inl OutOfBounds"
  by (simp add: Sn74374_fun_def arr_get_Inl)

lemma board_of_update [simp]: "board_of b0 (s\<lparr>uDqStatus := d\<rparr>) = board_of b0 s"
  by (simp add: board_of_def)

lemma coherent_load:
  assumes "relay_wf s" "k < 14" "coherent_at b0 s K" "K \<subseteq> {..<14}"
  shows "coherent_at b0
    (emit (relayen_write w @ chclk_pulse k) (s\<lparr>uDqStatus := (uDqStatus s)[k := w]\<rparr>)) (insert k K)"
  unfolding coherent_at_def
proof (intro ballI allI impI)
  fix j i :: nat
  assume j: "j \<in> insert k K" and i: "i < 16"
  with assms have "j < 14" by auto
  with assms j i show "dq_out (board_of b0 (emit (relayen_write w @ chclk_pulse k)
      (s\<lparr>uDqStatus := (uDqStatus s)[k := w]\<rparr>))) j i =
    bit (uDqStatus (emit (relayen_write w @ chclk_pulse k)
      (s\<lparr>uDqStatus := (uDqStatus s)[k := w]\<rparr>)) ! j) i"
    using dq_out_load[of k j i w "board_of b0 s"]
    by (auto simp: coherent_at_def nth_list_update simp del: board_run_simps)
qed

lemma dq_coherent_at: "dq_coherent b0 s \<longleftrightarrow> coherent_at b0 s {..<14}"
  by (auto simp: dq_coherent_def coherent_at_def)

lemma relay_wf_dq_update [simp]:
  "relay_wf (s\<lparr>uDqStatus := (uDqStatus s)[k := w]\<rparr>) = relay_wf s"
  by (simp add: relay_wf_def)

lemma load_frame:
  assumes "k < 14"
  shows "bus_levels b0 (emit (relayen_write w @ chclk_pulse k) (s\<lparr>uDqStatus := d\<rparr>)) = bus_levels b0 s"
    and "res_levels b0 (emit (relayen_write w @ chclk_pulse k) (s\<lparr>uDqStatus := d\<rparr>)) = res_levels b0 s"
  using assms
  by (simp_all add: bus_levels_def res_levels_def levels_relayen_frame levels_chclk_pulse)

lemma holds_load:
  assumes "holds b0 buf bl rl s" "k < 14"
  shows "holds b0 buf bl rl
    (emit (relayen_write w @ chclk_pulse k) (s\<lparr>uDqStatus := (uDqStatus s)[k := w]\<rparr>))"
  using assms coherent_load[of s k b0 "{..<14}" w] load_frame[OF assms(2)]
  by (simp add: holds_def good_def dq_coherent_at insert_absorb del: board_of_emit)

lemma holds_Sn74374_fun:
  assumes "holds b0 buf bl rl s" "k < 14"
  shows "\<exists>s'. Sn74374_fun k v s = Inr s' \<and> holds b0 buf bl rl s' \<and>
    uDqStatus s' = (uDqStatus s)[k := uDqStatus s ! k OR v]"
  using assms holds_load[OF assms, of "uDqStatus s ! k OR v"]
  by (simp add: holds_def good_def Sn74374_fun_eq Let_def)

lemma holds_Sn74374_Clear0:
  assumes "holds b0 buf bl rl s" "k < 14"
  shows "\<exists>s'. Sn74374_Clear0 k s = Inr s' \<and> holds b0 buf bl rl s' \<and>
    uDqStatus s' = (uDqStatus s)[k := 0]"
  using assms holds_load[OF assms, of 0]
  by (simp add: holds_def good_def Sn74374_Clear0_eq)

section \<open>The register bank as an interface\<close>

text \<open>
  What the fault routines rely on: writing a mask to register \<open>k\<close> or-s it into that register,
  clearing zeroes it, neither touches another register, neither faults on registers
  \<open>0..13\<close>, and both keep a state invariant \<open>ok\<close>.
\<close>

locale relay_bank =
  fixes set_reg :: "nat \<Rightarrow> u16 \<Rightarrow> 's \<Rightarrow> 's res"
    and clear_reg :: "nat \<Rightarrow> 's \<Rightarrow> 's res"
    and reg :: "'s \<Rightarrow> nat \<Rightarrow> u16"
    and ok :: "'s \<Rightarrow> bool"
  assumes set_reg: "ok s \<Longrightarrow> k < 14 \<Longrightarrow>
      \<exists>s'. set_reg k v s = Inr s' \<and> ok s' \<and> reg s' = (reg s)(k := reg s k OR v)"
    and clear_reg: "ok s \<Longrightarrow> k < 14 \<Longrightarrow>
      \<exists>s'. clear_reg k s = Inr s' \<and> ok s' \<and> reg s' = (reg s)(k := 0)"
begin

definition closed :: "'s \<Rightarrow> nat set" where
  "closed s = {n. n < 224 \<and> bit (reg s (n div 16)) (n mod 16)}"

text \<open>Closing relay \<open>n\<close> through its register closes that relay and no other.\<close>

lemma close_relay:
  assumes "ok s" "n < 224"
  shows "\<exists>s'. set_reg (n div 16) (push_bit (n mod 16) 1) s = Inr s' \<and> ok s' \<and>
    closed s' = insert n (closed s)"
proof -
  from assms have "n div 16 < 14" by simp
  from set_reg[OF assms(1) this] obtain s' where
    s': "set_reg (n div 16) (push_bit (n mod 16) 1) s = Inr s'" "ok s'"
    "reg s' = (reg s)(n div 16 := reg s (n div 16) OR push_bit (n mod 16) 1)"
    by blast
  have "m \<in> closed s' \<longleftrightarrow> m \<in> insert n (closed s)" for m
  proof (cases "m div 16 = n div 16")
    case True
    then have "m mod 16 = n mod 16 \<longleftrightarrow> m = n" by (metis div_mult_mod_eq)
    with True s'(3) assms(2) show ?thesis
      by (auto simp: closed_def bit_or_iff bit_push_bit_iff bit_exp_iff)
  next
    case False
    with s'(3) show ?thesis by (auto simp: closed_def)
  qed
  with s' show ?thesis by blast
qed

text \<open>Writing the empty mask refreshes a register and changes no relay.\<close>

lemma refresh_reg:
  assumes "ok s" "k < 14"
  shows "\<exists>s'. set_reg k 0 s = Inr s' \<and> ok s' \<and> closed s' = closed s"
  using set_reg[OF assms, of 0] by (auto simp: closed_def)

lemma clear_all:
  assumes "ok s"
  shows "\<exists>s'. for_each [0..<14] clear_reg s = Inr s' \<and> ok s' \<and> closed s' = {}"
proof -
  have "\<exists>s'. for_each [0..<n] clear_reg s = Inr s' \<and> ok s' \<and> (\<forall>k < n. reg s' k = 0)"
    if "n \<le> 14" for n
    using that
  proof (induction n)
    case 0
    with assms show ?case by simp
  next
    case (Suc n)
    then obtain s1 where s1: "for_each [0..<n] clear_reg s = Inr s1" "ok s1" "\<forall>k < n. reg s1 k = 0"
      by auto
    from Suc.prems clear_reg[OF s1(2), of n] s1 show ?case
      by (auto simp: for_each_append less_Suc_eq)
  qed
  from this[of 14] show ?thesis by (auto simp: closed_def)
qed

end

text \<open>
  The firmware's registers meet the interface under the invariant that shadow and board agree
  and that frame buffer, bus relays and resistor decade keep their values, for every initial
  board.
\<close>

interpretation rb: relay_bank Sn74374_fun Sn74374_Clear0 "\<lambda>s k. uDqStatus s ! k"
  "holds b0 buf bl rl" for b0 buf bl rl
proof (unfold_locales, goal_cases)
  case (1 s k v)
  then show ?case
    using holds_Sn74374_fun[of b0 buf bl rl s k v]
    by (force simp: fun_eq_iff nth_list_update holds_def good_def)
next
  case (2 s k)
  then show ?case
    using holds_Sn74374_Clear0[of b0 buf bl rl s k]
    by (force simp: fun_eq_iff nth_list_update holds_def good_def)
qed

lemma closed_relays [simp]: "rb.closed = relays"
  by (simp add: rb.closed_def relays_def fun_eq_iff)

section \<open>Bus relays, resistor decade and reset\<close>

lemma good_quiet:
  assumes "good b0 s" "\<And>e. e \<in> set es \<Longrightarrow> clk_quiet e"
  shows "good b0 (emit es s)"
  using assms(1) dq_out_quiet[OF assms(2)] by (simp add: good_def dq_coherent_def)

lemma levels_ctrlbus_write:
  assumes "\<forall>(i, v) \<in> set ws. 1 \<le> i \<and> i \<le> 17"
  shows "map (\<lambda>i. levels_of (ctrlbus_write ws) l (CTRLBUS (Suc i))) [0..<17] =
      bus_effect ws (map (\<lambda>i. l (CTRLBUS (Suc i))) [0..<17])"
    and "r < 15 \<Longrightarrow> levels_of (ctrlbus_write ws) l (RESCTRL (Suc r)) = l (RESCTRL (Suc r))"
  using assms
proof (induction ws arbitrary: l)
  case Nil
  { case 1 then show ?case by (simp add: ctrlbus_write_def bus_effect_def) }
  { case 2 then show ?case by (simp add: ctrlbus_write_def) }
next
  case (Cons w ws)
  obtain i v where w: "w = (i, v)" by (cases w)
  { case 1
    then obtain j where j: "i = Suc j" "j < 17" using w by (cases i) auto
    have "map (\<lambda>n. (l(CTRLBUS (Suc j) := v)) (CTRLBUS (Suc n))) [0..<17] =
        (map (\<lambda>n. l (CTRLBUS (Suc n))) [0..<17])[j := v]"
      using j by (intro nth_equalityI) (auto simp: nth_list_update table_inj)
    with 1 w j Cons(1)[of "l(CTRLBUS (Suc j) := v)"] show ?case
      by (simp add: ctrlbus_write_def bus_effect_def level_step_table fun_upd_def del: upt_Suc) }
  { case 2
    then obtain j where "i = Suc j" "j < 17" using w by (cases i) auto
    with 2 w Cons(2)[of "l(CTRLBUS (Suc j) := v)"] show ?case
      by (simp add: ctrlbus_write_def level_step_table fun_upd_def) }
qed

lemma clk_quiet_ctrlbus:
  assumes "\<forall>(i, v) \<in> set ws. 1 \<le> i \<and> i \<le> 17" "e \<in> set (ctrlbus_write ws)"
  shows "clk_quiet e"
proof -
  from assms obtain i v where "e = write_pin (CTRLBUS i) v" "1 \<le> i" "i \<le> 17"
    by (auto simp: ctrlbus_write_def)
  then show ?thesis using clk_quiet_write(2)[of "i - 1" v] by simp
qed

lemma holds_ctrlbus:
  assumes "holds b0 buf bl rl s" "\<forall>(i, v) \<in> set ws. 1 \<le> i \<and> i \<le> 17"
  shows "holds b0 buf (bus_effect ws bl) rl (emit (ctrlbus_write ws) s)"
proof -
  have "good b0 (emit (ctrlbus_write ws) s)"
    using assms(1) clk_quiet_ctrlbus[OF assms(2)] unfolding holds_def by (blast intro: good_quiet)
  moreover have "res_levels b0 (emit (ctrlbus_write ws) s) = res_levels b0 s"
    using levels_ctrlbus_write(2)[OF assms(2)] by (auto simp: res_levels_def)
  ultimately show ?thesis
    using assms levels_ctrlbus_write(1)[OF assms(2)] by (simp add: holds_def bus_levels_def)
qed

lemma hv_range:
  "\<forall>(i, v) \<in> set (hv_composite n). 1 \<le> i \<and> i \<le> 17"
  "\<forall>(i, v) \<in> set (hv_fast n). 1 \<le> i \<and> i \<le> 17"
  by auto

text \<open>The writes \<open>HV_FunRelay_Set\<close> makes for an argument, as one list.\<close>

abbreviation hv_writes :: "u8 \<Rightarrow> (nat \<times> bool) list" where
  "hv_writes v \<equiv> (if unat v \<le> 4 then hv_composite (unat v) else hv_fast (unat v))"

lemma holds_HV:
  "holds b0 buf bl rl s \<Longrightarrow> holds b0 buf (bus_effect (hv_writes v) bl) rl (HV_FunRelay_Set v s)"
  unfolding HV_FunRelay_Set_def Let_def using hv_range by (intro holds_ctrlbus) presburger+

lemma relays_bus [simp]:
  "relays (HV_FunRelay_Set v s) = relays s" "relays (HI_FunRelay_Set v s) = relays s"
  "relays (Resistance_select h l s) = relays s"
  by (simp_all add: HV_FunRelay_Set_def HI_FunRelay_Set_def Resistance_select_def Let_def)

text \<open>The fifteen resistor lines follow the value's bits, least significant first.\<close>

definition res_events :: "u8 \<Rightarrow> u8 \<Rightarrow> io_event list" where
  "res_events h l = map (\<lambda>i. Pout (RESCTRL (i + 1)) (of_bool (if i < 8 then bit l i else bit h (i - 8)))) [0..<15]"

lemma Resistance_select_eq:
  "Resistance_select h l s = (if bit h 7 then s else emit (res_events h l) s)"
proof -
  have "map (\<lambda>i. Pout (RESCTRL (i + 1)) (if (drop_bit i l AND 1) = 1 then 1 else 0)) [0..<8] @
        map (\<lambda>i. Pout (RESCTRL (i + 9)) (if (drop_bit i h AND 1) = 1 then 1 else 0)) [0..<7]
      = res_events h l" (is "?A @ ?B = _")
  proof (rule nth_equalityI)
    show "length (?A @ ?B) = length (res_events h l)" by (simp add: res_events_def)
    fix i assume "i < length (?A @ ?B)"
    then show "(?A @ ?B) ! i = res_events h l ! i"
      by (simp add: res_events_def nth_append drop_bit_and_1_eq del: upt_Suc)
  qed
  moreover have "(drop_bit 7 h AND 1) = 0 \<longleftrightarrow> \<not> bit h 7"
    using drop_bit_and_1_pos[of 7 h] unfolding word_gt_0 by metis
  ultimately show ?thesis by (simp add: Resistance_select_def)
qed

lemma levels_res_events:
  "r < 15 \<Longrightarrow> levels_of (res_events h l) f (RESCTRL (Suc r)) = (if r < 8 then bit l r else bit h (r - 8))"
  "(\<And>i. i < 15 \<Longrightarrow> q \<noteq> RESCTRL (Suc i)) \<Longrightarrow> levels_of (res_events h l) f q = f q"
  unfolding res_events_def
  using levels_of_map_write[of 15 "\<lambda>i. Pout (RESCTRL (i + 1)) (of_bool (if i < 8 then bit l i else bit h (i - 8)))"
      "\<lambda>i. RESCTRL (i + 1)" "\<lambda>i. if i < 8 then bit l i else bit h (i - 8)" 15 r f]
    levels_of_map_frame[of 15 "\<lambda>i. Pout (RESCTRL (i + 1)) (of_bool (if i < 8 then bit l i else bit h (i - 8)))"
      "\<lambda>i. RESCTRL (i + 1)" "\<lambda>i. if i < 8 then bit l i else bit h (i - 8)" q f]
  by (simp_all add: table_inj bit_0 del: upt_Suc)

lemma holds_Resistance:
  assumes "holds b0 buf bl rl s"
  shows "holds b0 buf bl (res_effect h l rl) (Resistance_select h l s)"
proof (cases "bit h 7")
  case True
  with assms show ?thesis by (simp add: Resistance_select_eq res_effect_def)
next
  case False
  have "good b0 (emit (res_events h l) s)"
    using assms by (intro good_quiet) (auto simp: holds_def res_events_def)
  moreover have "bus_levels b0 (emit (res_events h l) s) = bus_levels b0 s"
    by (auto simp: bus_levels_def levels_res_events(2))
  moreover have "res_levels b0 (emit (res_events h l) s) = map (bit l) [0..<8] @ map (bit h) [0..<7]"
    by (rule nth_equalityI) (auto simp: res_levels_def levels_res_events(1) nth_append)
  ultimately show ?thesis
    using assms False by (simp add: Resistance_select_eq res_effect_def holds_def)
qed

text \<open>
  Clearing makes the addressed registers agree with the board whatever they held, so the
  reset establishes the agreement from any well-formed state.
\<close>

lemma Sn74374_Set0_holds:
  assumes "relay_wf s"
  shows "\<exists>s'. Sn74374_Set0 s = Inr s' \<and> relays s' = {} \<and>
    holds b0 (uFiuCom_buf s) (bus_levels b0 s) (res_levels b0 s) s'"
proof -
  have "\<exists>s'. for_each [0..<n] Sn74374_Clear0 s = Inr s' \<and> relay_wf s' \<and> coherent_at b0 s' {..<n} \<and>
      (\<forall>k < n. uDqStatus s' ! k = 0) \<and> uFiuCom_buf s' = uFiuCom_buf s \<and>
      bus_levels b0 s' = bus_levels b0 s \<and> res_levels b0 s' = res_levels b0 s"
    if "n \<le> 14" for n
    using that
  proof (induction n)
    case 0
    with assms show ?case by (simp add: coherent_at_def)
  next
    case (Suc n)
    then obtain s1 where s1: "for_each [0..<n] Sn74374_Clear0 s = Inr s1" "relay_wf s1"
      "coherent_at b0 s1 {..<n}" "\<forall>k < n. uDqStatus s1 ! k = 0" "uFiuCom_buf s1 = uFiuCom_buf s"
      "bus_levels b0 s1 = bus_levels b0 s" "res_levels b0 s1 = res_levels b0 s"
      by auto
    from Suc.prems have n: "n < 14" by simp
    from coherent_load[OF s1(2) n s1(3)] n s1 load_frame[OF n] show ?case
      by (auto simp: for_each_append Sn74374_Clear0_eq lessThan_Suc nth_list_update less_Suc_eq
          simp del: board_of_emit)
  qed
  from this[of 14] show ?thesis
    by (auto simp: Sn74374_Set0_def holds_def good_def dq_coherent_at relays_def)
qed

lemma length_levels [simp]: "length (bus_levels b0 s) = 17" "length (res_levels b0 s) = 15"
  by (simp_all add: bus_levels_def res_levels_def)

lemma holds_lengths: "holds b0 buf bl rl s \<Longrightarrow> length bl = 17 \<and> length rl = 15"
  by (auto simp: holds_def)

lemma bus_effect_reset: "length bl = 17 \<Longrightarrow> bus_effect (hv_composite 0) bl = replicate 17 False"
  by (rule nth_equalityI) (auto simp: bus_effect_def nth_list_update less_Suc_eq numeral_eq_Suc)

lemma res_effect_0: "res_effect 0 0 rl = replicate 15 False"
  by (rule nth_equalityI) (auto simp: res_effect_def nth_append)

lemma holds_HI0:
  assumes "holds b0 buf (replicate 17 False) rl s"
  shows "holds b0 buf (replicate 17 False) rl (HI_FunRelay_Set 0 s)"
proof -
  have "bus_effect [(2, False), (14, False), (15, False), (16, False), (17, False)] (replicate 17 False)
      = replicate 17 False"
    by (simp add: bus_effect_def numeral_eq_Suc)
  with holds_ctrlbus[OF assms, of "[(2, False), (14, False), (15, False), (16, False), (17, False)]"]
  show ?thesis by (simp add: HI_FunRelay_Set_def)
qed

lemma tdreset_holds:
  assumes "relay_wf s"
  shows "\<exists>s'. tdreset_process s = Inr s' \<and> relays s' = {} \<and>
    holds b0 (uFiuCom_buf s) (replicate 17 False) (replicate 15 False) s'"
proof -
  from Sn74374_Set0_holds[OF assms] obtain s1 where s1: "Sn74374_Set0 s = Inr s1" "relays s1 = {}"
    "holds b0 (uFiuCom_buf s) (bus_levels b0 s) (res_levels b0 s) s1" by blast
  from holds_HV[OF s1(3), of 0] have "holds b0 (uFiuCom_buf s) (replicate 17 False) (res_levels b0 s) (HV_FunRelay_Set 0 s1)"
    by (simp add: bus_effect_reset del: hv_composite.simps)
  from holds_Resistance[OF this, of 0 0]
  have "holds b0 (uFiuCom_buf s) (replicate 17 False) (replicate 15 False)
      (Resistance_select 0 0 (HV_FunRelay_Set 0 s1))"
    by (simp add: res_effect_0)
  from holds_HI0[OF this] s1 show ?thesis by (simp add: tdreset_process_def)
qed

end
