(* ===== verification/FiuFrame.thy ===== *)
theory FiuFrame
  imports Relay
begin

text \<open>
  \<^verbatim>\<open>src/HARDWARE/Fiu/FiuProcess.c\<close>, the upper half: the routines that inject one fault on
  one channel (\<open>fuhegz_set\<close>, \<open>ddlgz_set\<close>, \<open>kstdgz_set\<close>, \<open>ksldmn_set\<close>,
  \<open>ksldmn_two_set\<close>), the four frame processors that walk the 72 channel bits of the
  17-byte frame, and the frame dispatcher \<open>FiuCom_Process\<close>. The lemmas give, for every
  frame, the exact set of relays closed, the bus relay levels and the resistor lines.
\<close>

section \<open>One fault on one channel\<close>

text \<open>
  Channel \<open>c\<close> owns relays \<open>3c\<close> (opens ECU from load), \<open>3c+1\<close> (ECU to bus) and
  \<open>3c+2\<close> (load to bus). The five lines that close one of them recur throughout the file;
  \<open>utemp\<close> is an 8-bit variable.
\<close>

definition chan_relay :: "nat \<Rightarrow> nat \<Rightarrow> relay_st \<Rightarrow> relay_st res" where
  "chan_relay uChannel n s =
     (let utemp = (uChannel * 3 + n) mod 256;
          uDqNumber = utemp div 16;
          uDqPin = utemp mod 16;
          uDqPinVal = push_bit uDqPin 1 in
      Sn74374_fun uDqNumber uDqPinVal s)"

definition fuhegz_set :: "nat \<Rightarrow> u8 \<Rightarrow> relay_st \<Rightarrow> relay_st res" where
  "fuhegz_set uChannel uSetValue s =
     bind_res (chan_relay uChannel 0 s) (\<lambda>s.
     bind_res
       (if uSetValue = 2 then bind_res (chan_relay uChannel 1 s) (\<lambda>s. Inr (HV_FunRelay_Set 1 s))
        else if uSetValue = 3 then bind_res (chan_relay uChannel 1 s) (\<lambda>s. Inr (HV_FunRelay_Set 2 s))
        else if uSetValue = 4 then bind_res (chan_relay uChannel 1 s) (\<lambda>s. Inr (HV_FunRelay_Set 3 s))
        else if uSetValue = 5 then bind_res (chan_relay uChannel 1 s) (\<lambda>s. Inr (HV_FunRelay_Set 4 s))
        else Inr s) (\<lambda>s.
     Inr (s\<lparr>uFaultModePreStatus := 0\<rparr>)))"

definition ddlgz_set :: "nat \<Rightarrow> u8 \<Rightarrow> relay_st \<Rightarrow> relay_st res" where
  "ddlgz_set uChannel uSetValue s =
     bind_res (chan_relay uChannel 0 s) (\<lambda>s.
     if uSetValue = 2 then bind_res (chan_relay uChannel 1 s) (\<lambda>s. Inr (HI_FunRelay_Set 1 s))
     else if uSetValue = 3 then bind_res (chan_relay uChannel 1 s) (\<lambda>s. Inr (HI_FunRelay_Set 2 s))
     else Inr s)"

text \<open>The fast faults put all three relays of the channel on the bus.\<close>

definition chan_on_bus :: "nat \<Rightarrow> relay_st \<Rightarrow> relay_st res" where
  "chan_on_bus uChannel s =
     bind_res (chan_relay uChannel 0 s) (\<lambda>s.
     bind_res (chan_relay uChannel 1 s) (\<lambda>s.
     bind_res (chan_relay uChannel 2 s) (\<lambda>s.
     bind_res (arr_set (uKasuStatus s) uChannel 1) (\<lambda>ks.
     Inr (s\<lparr>uKasuStatus := ks\<rparr>)))))"

definition kstdgz_set :: "nat \<Rightarrow> u8 \<Rightarrow> relay_st \<Rightarrow> relay_st res" where
  "kstdgz_set uChannel uSetValue s =
     bind_res (chan_on_bus uChannel s) (\<lambda>s.
     Inr (if uSetValue = 1 then HV_FunRelay_Set 9 s
          else if uSetValue = 2 then HV_FunRelay_Set 5 s
          else if uSetValue = 3 then HV_FunRelay_Set 6 s
          else if uSetValue = 4 then HV_FunRelay_Set 7 s
          else if uSetValue = 5 then HV_FunRelay_Set 8 s
          else s))"

definition frame_resistance :: "relay_st \<Rightarrow> relay_st" where
  "frame_resistance s = Resistance_select (uFiuCom_buf s ! 13) (uFiuCom_buf s ! 14) s"

definition ksldmn_set :: "nat \<Rightarrow> u8 \<Rightarrow> relay_st \<Rightarrow> relay_st res" where
  "ksldmn_set uChannel uSetValue s =
     bind_res (chan_on_bus uChannel s) (\<lambda>s.
     Inr (if uSetValue = 1 then frame_resistance (HV_FunRelay_Set 10 s)
          else if uSetValue = 2 then frame_resistance (HV_FunRelay_Set 5 s)
          else if uSetValue = 3 then frame_resistance (HV_FunRelay_Set 6 s)
          else if uSetValue = 4 then frame_resistance (HV_FunRelay_Set 7 s)
          else if uSetValue = 5 then frame_resistance (HV_FunRelay_Set 8 s)
          else if uSetValue = 7 then frame_resistance (HV_FunRelay_Set 11 s)
          else s))"

text \<open>Two channels tied together; the third step rewrites a register with no new bit.\<close>

definition ksldmn_two_set :: "nat \<Rightarrow> nat \<Rightarrow> u8 \<Rightarrow> relay_st \<Rightarrow> relay_st res" where
  "ksldmn_two_set uChannel1 uChannel2 type s =
     bind_res (chan_relay uChannel1 0 s) (\<lambda>s.
     bind_res (chan_relay uChannel1 1 s) (\<lambda>s.
     bind_res (Sn74374_fun ((uChannel2 * 3 + 0) mod 256 div 16) 0 s) (\<lambda>s.
     bind_res (chan_relay uChannel2 2 s) (\<lambda>s.
     Inr (if type = 0 then frame_resistance (HV_FunRelay_Set 10 s) else s)))))"

section \<open>Frames\<close>

text \<open>The double loop over the nine channel bytes and their bits.\<close>

definition for_channels :: "(nat \<Rightarrow> relay_st \<Rightarrow> relay_st res) \<Rightarrow> relay_st \<Rightarrow> relay_st res" where
  "for_channels body s =
     for_each [0..<9] (\<lambda>i s.
       if 0 < uFiuCom_buf s ! (i + 3)
       then for_each [0..<8] (\<lambda>j s.
              if (drop_bit j (uFiuCom_buf s ! (i + 3)) AND 1) = 1 then body (8 * i + j) s else Inr s) s
       else Inr s) s"

definition clear_frame :: "relay_st \<Rightarrow> relay_st" where
  "clear_frame s = s\<lparr>uFiuCom_buf := fold (\<lambda>i b. b[i := 0]) [0..<17] (uFiuCom_buf s)\<rparr>"

definition fuhegz_process :: "relay_st \<Rightarrow> relay_st res" where
  "fuhegz_process s =
     bind_res (tdreset_process s) (\<lambda>s.
     bind_res (for_channels (\<lambda>c s. fuhegz_set c (uFiuCom_buf s ! 12) s) s) (\<lambda>s.
     Inr (clear_frame s)))"

definition kstdgz_process :: "relay_st \<Rightarrow> relay_st res" where
  "kstdgz_process s =
     bind_res (tdreset_process s) (\<lambda>s.
     bind_res (for_channels (\<lambda>c s. kstdgz_set c (uFiuCom_buf s ! 12) s) s) (\<lambda>s.
     Inr (clear_frame s)))"

text \<open>
  The leakage processor. For type 6 it first collects the selected channels into
  \<open>uChanSet[4]\<close>, whose end the write \<open>uChanSet[t++] = uChan\<close> does not check.
\<close>

definition collect_channel :: "nat \<Rightarrow> nat list \<times> nat \<Rightarrow> (nat list \<times> nat) res" where
  "collect_channel uChan = (\<lambda>(uChanSet, t).
     bind_res (arr_set uChanSet t uChan) (\<lambda>cs. Inr (cs, t + 1)))"

definition collect_channels :: "u8 list \<Rightarrow> (nat list \<times> nat) res" where
  "collect_channels buf =
     for_each [0..<9] (\<lambda>i st.
       if 0 < buf ! (i + 3)
       then for_each [0..<8] (\<lambda>j st.
              if (drop_bit j (buf ! (i + 3)) AND 1) = 1 then collect_channel (8 * i + j) st else Inr st) st
       else Inr st) (replicate 4 0, 0)"

definition ksldmn_process :: "relay_st \<Rightarrow> relay_st res" where
  "ksldmn_process s =
     bind_res (tdreset_process s) (\<lambda>s.
     bind_res
       (if (0 \<le> uFiuCom_buf s ! 12 \<and> uFiuCom_buf s ! 12 < 6) \<or> uFiuCom_buf s ! 12 = 7
        then for_channels (\<lambda>c s. ksldmn_set c (uFiuCom_buf s ! 12) s) s
        else Inr s) (\<lambda>s.
     bind_res
       (if uFiuCom_buf s ! 12 = 6
        then bind_res (collect_channels (uFiuCom_buf s)) (\<lambda>(uChanSet, t).
               if t = 2 then ksldmn_two_set (uChanSet ! 0) (uChanSet ! 1) 0 s else Inr s)
        else Inr s) (\<lambda>s.
     Inr (clear_frame s))))"

definition ddltdgz_process :: "relay_st \<Rightarrow> relay_st res" where
  "ddltdgz_process s =
     bind_res (tdreset_process s) (\<lambda>s.
     bind_res (for_channels (\<lambda>c s. ddlgz_set c (uFiuCom_buf s ! 12) s) s) (\<lambda>s.
     Inr (clear_frame s)))"

definition FiuCom_Process :: "u8 list \<Rightarrow> relay_st \<Rightarrow> relay_st res" where
  "FiuCom_Process g_FiuByte17Data s =
     (let s = s\<lparr>uFiuCom_buf := fold (\<lambda>i b. b[i := g_FiuByte17Data ! i]) [0..<17] (uFiuCom_buf s)\<rparr>;
          buf = uFiuCom_buf s in
      if buf ! 0 = 0xbe \<and> buf ! 1 = 0xbe \<and> buf ! 15 = 0xed \<and> buf ! 16 = 0xed
      then (if buf ! 2 = 0 then fuhegz_process s
            else if buf ! 2 = 1 then kstdgz_process s
            else if buf ! 2 = 2 then ksldmn_process s
            else if buf ! 2 = 3 then ddltdgz_process s
            else if buf ! 2 = 4 then tdreset_process s
            else Inr (emit [Print (''error'' @ [CHR 0x0A])] s))
      else Inr s)"

section \<open>Channel selection\<close>

text \<open>The channels a frame selects, in the order the loop visits them.\<close>

definition sel_channels :: "u8 list \<Rightarrow> nat list" where
  "sel_channels buf = filter (\<lambda>c. bit (buf ! (c div 8 + 3)) (c mod 8)) [0..<72]"

lemma upt_72: "[0..<72] = concat (map (\<lambda>i. map (\<lambda>j. 8 * i + j) [0..<8]) [0..<9])"
  by code_simp

lemma for_channel_bits:
  "for_each [0..<9] (\<lambda>i st.
     if 0 < buf ! (i + 3)
     then for_each [0..<8] (\<lambda>j st.
            if (drop_bit j (buf ! (i + 3)) AND 1) = 1 then body (8 * i + j) st else Inr st) st
     else Inr st) st = for_each (sel_channels buf) body st"
proof -
  let ?sel = "\<lambda>c. bit (buf ! (c div 8 + 3)) (c mod 8)"
  let ?row = "\<lambda>i. map (\<lambda>j. 8 * i + j) [0..<8::nat]"
  have row: "(if 0 < buf ! (i + 3)
      then for_each [0..<8] (\<lambda>j st.
            if (drop_bit j (buf ! (i + 3)) AND 1) = 1 then body (8 * i + j) st else Inr st) st
      else Inr st) = for_each (filter ?sel (?row i)) body st" for i st
  proof -
    have sel: "?sel (8 * i + j) = bit (buf ! (i + 3)) j" if "j < 8" for j
      using that by simp
    have "for_each [0..<8] (\<lambda>j st.
            if (drop_bit j (buf ! (i + 3)) AND 1) = 1 then body (8 * i + j) st else Inr st) st
        = for_each (?row i) (\<lambda>c st. if ?sel c then body c st else Inr st) st"
      unfolding for_each_map by (intro for_each_cong_fun) (auto simp: drop_bit_and_1_eq sel)
    then have "for_each [0..<8] (\<lambda>j st.
            if (drop_bit j (buf ! (i + 3)) AND 1) = 1 then body (8 * i + j) st else Inr st) st
        = for_each (filter ?sel (?row i)) body st"
      by (simp only: for_each_filter)
    moreover have "filter ?sel (?row i) = []" if "buf ! (i + 3) = 0"
      using that sel by (simp only: filter_map filter_empty_conv comp_def map_is_Nil_conv) auto
    ultimately show ?thesis by (auto simp: word_gt_0 simp del: upt_Suc)
  qed
  have "sel_channels buf = concat (map (\<lambda>i. filter ?sel (?row i)) [0..<9])"
    unfolding sel_channels_def upt_72 by (simp add: filter_concat comp_def)
  then show ?thesis by (simp only: for_each_concat for_each_map row)
qed

text \<open>A body that leaves the frame buffer alone runs once for each selected channel.\<close>

lemma for_channels_eq:
  assumes "\<And>c s s'. body c s = Inr s' \<Longrightarrow> uFiuCom_buf s' = uFiuCom_buf s"
  shows "for_channels body s = for_each (sel_channels (uFiuCom_buf s)) body s"
proof -
  let ?P = "\<lambda>t. uFiuCom_buf t = uFiuCom_buf s"
  have keep: "for_each cs body t = Inr t' \<Longrightarrow> uFiuCom_buf t' = uFiuCom_buf t" for cs t t'
    using assms by (induction cs arbitrary: t) auto
  have inner: "for_each [0..<8] (\<lambda>j s. if (drop_bit j (uFiuCom_buf s ! (i + 3)) AND 1) = 1 then body (8 * i + j) s else Inr s) t
      = for_each [0..<8] (\<lambda>j t. if (drop_bit j (uFiuCom_buf s ! (i + 3)) AND 1) = 1 then body (8 * i + j) t else Inr t) t"
    if "?P t" for t i
    by (rule for_each_cong_inv[where P = ?P]) (use that assms in \<open>auto split: if_splits\<close>)
  have "for_channels body s = for_each [0..<9] (\<lambda>i t.
     if 0 < uFiuCom_buf s ! (i + 3)
     then for_each [0..<8] (\<lambda>j t.
            if (drop_bit j (uFiuCom_buf s ! (i + 3)) AND 1) = 1 then body (8 * i + j) t else Inr t) t
     else Inr t) s"
    unfolding for_channels_def
  proof (rule for_each_cong_inv[where P = ?P])
    fix i t t'
    assume t: "?P t" and "(if 0 < uFiuCom_buf s ! (i + 3)
     then for_each [0..<8] (\<lambda>j t.
            if (drop_bit j (uFiuCom_buf s ! (i + 3)) AND 1) = 1 then body (8 * i + j) t else Inr t) t
     else Inr t) = Inr t'"
    moreover have "uFiuCom_buf u' = uFiuCom_buf u" if "for_each js (\<lambda>j t.
            if (drop_bit j (uFiuCom_buf s ! (i + 3)) AND 1) = 1 then body (8 * i + j) t else Inr t) u = Inr u'"
      for js u u'
      using that assms by (induction js arbitrary: u) (auto split: if_splits)
    ultimately show "?P t'" by (auto split: if_splits)
  qed (use inner in auto)
  then show ?thesis by (simp only: for_channel_bits)
qed

section \<open>What one channel's routine does\<close>

text \<open>
  \<open>injects b0 buf F G R body\<close>: run on channel \<open>c\<close>, the routine never faults, closes the
  relays \<open>R c\<close> on top of those closed, changes bus relays by \<open>F\<close> and the resistor
  decade by \<open>G\<close>, leaves the frame buffer alone and keeps shadow and board in agreement.
\<close>

definition injects ::
  "board \<Rightarrow> u8 list \<Rightarrow> (bool list \<Rightarrow> bool list) \<Rightarrow> (bool list \<Rightarrow> bool list) \<Rightarrow> (nat \<Rightarrow> nat set) \<Rightarrow>
   (nat \<Rightarrow> relay_st \<Rightarrow> relay_st res) \<Rightarrow> bool" where
  "injects b0 buf F G R body \<longleftrightarrow>
     (\<forall>c < 72. \<forall>bl rl s. holds b0 buf bl rl s \<longrightarrow>
        (\<exists>s'. body c s = Inr s' \<and> holds b0 buf (F bl) (G rl) s' \<and> relays s' = relays s \<union> R c))"

named_theorems inj_intros "composition of channel routines"

lemma injects_skip [inj_intros]: "injects b0 buf id id (\<lambda>_. {}) (\<lambda>_ s. Inr s)"
  by (simp add: injects_def)

lemma injects_bind:
  assumes "injects b0 buf F G R f" "injects b0 buf F' G' R' g"
  shows "injects b0 buf (F' \<circ> F) (G' \<circ> G) (\<lambda>c. R c \<union> R' c) (\<lambda>c s. bind_res (f c s) (g c))"
  unfolding injects_def
proof (intro allI impI)
  fix c :: nat and bl rl s assume c: "c < 72" and h: "holds b0 buf bl rl s"
  from assms(1) c h obtain s1 where s1: "f c s = Inr s1" "holds b0 buf (F bl) (G rl) s1"
    "relays s1 = relays s \<union> R c" unfolding injects_def by blast
  from assms(2) c s1(2) obtain s2 where "g c s1 = Inr s2" "holds b0 buf (F' (F bl)) (G' (G rl)) s2"
    "relays s2 = relays s1 \<union> R' c" unfolding injects_def by blast
  with s1 show "\<exists>s'. bind_res (f c s) (g c) = Inr s' \<and>
      holds b0 buf ((F' \<circ> F) bl) ((G' \<circ> G) rl) s' \<and> relays s' = relays s \<union> (R c \<union> R' c)"
    by auto
qed

lemma chan_relay_eq:
  "c < 72 \<Longrightarrow> n < 3 \<Longrightarrow>
     chan_relay c n s = Sn74374_fun ((3 * c + n) div 16) (push_bit ((3 * c + n) mod 16) 1) s"
  by (simp add: chan_relay_def Let_def mult.commute)

lemma injects_relay: "n < 3 \<Longrightarrow> injects b0 buf id id (\<lambda>c. {3 * c + n}) (\<lambda>c. chan_relay c n)"
  unfolding injects_def using rb.close_relay by (fastforce simp: chan_relay_eq)

lemma injects_HV: "injects b0 buf (bus_effect (hv_writes v)) id (\<lambda>_. {}) (\<lambda>_ s. Inr (HV_FunRelay_Set v s))"
  unfolding injects_def using holds_HV by auto

lemma injects_resistance:
  "injects b0 buf id (res_effect (buf ! 13) (buf ! 14)) (\<lambda>_. {}) (\<lambda>_ s. Inr (frame_resistance s))"
  unfolding injects_def frame_resistance_def using holds_Resistance by (auto simp: holds_def)

lemma injects_total:
  assumes "\<And>bl rl s c. holds b0 buf bl rl s \<Longrightarrow> c < 72 \<Longrightarrow>
      \<exists>s'. f c s = Inr s' \<and> holds b0 buf bl rl s' \<and> uDqStatus s' = uDqStatus s"
  shows "injects b0 buf id id (\<lambda>_. {}) f"
  unfolding injects_def using assms by (fastforce simp: relays_def)

text \<open>A loop over channels: the bus and resistor effects repeat, the relays accumulate.\<close>

lemma injects_loop:
  assumes "injects b0 buf F G R body" "\<forall>c \<in> set cs. c < 72" "holds b0 buf bl rl s"
  shows "\<exists>s'. for_each cs body s = Inr s' \<and>
    holds b0 buf ((F ^^ length cs) bl) ((G ^^ length cs) rl) s' \<and> relays s' = relays s \<union> \<Union> (R ` set cs)"
  using assms(2,3)
proof (induction cs arbitrary: bl rl s)
  case Nil
  then show ?case by simp
next
  case (Cons c cs)
  with assms(1) obtain s1 where s1: "body c s = Inr s1" "holds b0 buf (F bl) (G rl) s1"
    "relays s1 = relays s \<union> R c" unfolding injects_def by (meson list.set_intros(1))
  with Cons.IH[OF _ s1(2)] Cons.prems(1) show ?case
    by (auto simp: funpow_swap1)
qed

lemma sel_channels_range: "\<forall>c \<in> set (sel_channels buf). c < 72"
  by (simp add: sel_channels_def)

section \<open>The channel routines\<close>

lemma keep_buf [simp]:
  "uFiuCom_buf (emit es s) = uFiuCom_buf s"
  "uFiuCom_buf (HV_FunRelay_Set v s) = uFiuCom_buf s"
  "uFiuCom_buf (HI_FunRelay_Set v s) = uFiuCom_buf s"
  "uFiuCom_buf (Resistance_select h l s) = uFiuCom_buf s"
  "uFiuCom_buf (frame_resistance s) = uFiuCom_buf s"
  by (simp_all add: emit_def HV_FunRelay_Set_def HI_FunRelay_Set_def Resistance_select_def
      frame_resistance_def Let_def)

lemma chan_relay_keeps_buf: "chan_relay c n s = Inr s' \<Longrightarrow> uFiuCom_buf s' = uFiuCom_buf s"
  by (auto simp: chan_relay_def Sn74374_fun_def Let_def)

lemma chan_on_bus_keeps_buf: "chan_on_bus c s = Inr s' \<Longrightarrow> uFiuCom_buf s' = uFiuCom_buf s"
  by (auto simp: chan_on_bus_def dest!: chan_relay_keeps_buf)

lemma set_keeps_buf:
  "fuhegz_set c v s = Inr s' \<Longrightarrow> uFiuCom_buf s' = uFiuCom_buf s"
  "ddlgz_set c v s = Inr s' \<Longrightarrow> uFiuCom_buf s' = uFiuCom_buf s"
  "kstdgz_set c v s = Inr s' \<Longrightarrow> uFiuCom_buf s' = uFiuCom_buf s"
  "ksldmn_set c v s = Inr s' \<Longrightarrow> uFiuCom_buf s' = uFiuCom_buf s"
  by (auto simp: fuhegz_set_def ddlgz_set_def kstdgz_set_def ksldmn_set_def
      dest!: chan_relay_keeps_buf chan_on_bus_keeps_buf split: if_splits)

lemma holds_uKasu:
  assumes "holds b0 buf bl rl s" "length ks = 72"
  shows "holds b0 buf bl rl (s\<lparr>uKasuStatus := ks\<rparr>)"
  using assms
  by (auto simp: holds_def good_def relay_wf_def dq_coherent_def bus_levels_def res_levels_def board_of_def)

lemma holds_wf: "holds b0 buf bl rl s \<Longrightarrow> length (uKasuStatus s) = 72 \<and> length buf = 17"
  by (auto simp: holds_def good_def relay_wf_def)

lemma injects_chan_on_bus:
  "injects b0 buf id id (\<lambda>c. {3 * c, 3 * c + 1, 3 * c + 2}) chan_on_bus"
proof -
  have mark: "injects b0 buf id id (\<lambda>_. {}) (\<lambda>c s. bind_res (arr_set (uKasuStatus s) c 1) (\<lambda>ks. Inr (s\<lparr>uKasuStatus := ks\<rparr>)))"
    by (rule injects_total) (simp add: holds_wf holds_uKasu)
  have "injects b0 buf id id (\<lambda>c. {3 * c + 0} \<union> ({3 * c + 1} \<union> ({3 * c + 2} \<union> {}))) chan_on_bus"
    unfolding chan_on_bus_def
    using injects_bind[OF injects_relay[of 0] injects_bind[OF injects_relay[of 1]
          injects_bind[OF injects_relay[of 2] mark]]]
    by (simp add: insert_commute)
  then show ?thesis by (simp add: insert_commute)
qed

section \<open>The fault plan\<close>

text \<open>
  The specification of a frame, written from the fault tables and independently of the code:
  which of its three relays a selected channel closes, and which bus relays are energised.
  The commands are 0 (composite), 1 (fast switching), 2 (leakage) and 3 (high current).
\<close>

definition plan_offsets :: "nat \<Rightarrow> nat \<Rightarrow> nat set" where
  "plan_offsets cmd ty =
     (if cmd = 0 then (if ty \<in> {2, 3, 4, 5} then {0, 1} else {0})
      else if cmd = 3 then (if ty \<in> {2, 3} then {0, 1} else {0})
      else {0, 1, 2})"

definition plan_supply :: "nat \<Rightarrow> nat set" where
  "plan_supply ty =
     (if ty = 2 then {10, 11, 13} else if ty = 3 then {10, 11} else if ty = 4 then {10, 12}
      else if ty = 5 then {10} else {})"

definition plan_bus :: "nat \<Rightarrow> nat \<Rightarrow> nat set" where
  "plan_bus cmd ty =
     (if cmd = 0 then (if ty \<in> {2, 3, 4, 5} then insert 1 (plan_supply ty) else {})
      else if cmd = 1 then
        (if ty = 1 then {1, 5} else if ty \<in> {2, 3, 4, 5} then {1, 5, 6} \<union> plan_supply ty else {})
      else if cmd = 2 then
        (if ty = 1 then {1, 5, 6} else if ty \<in> {2, 3, 4} then {1, 5, 6} \<union> plan_supply ty
         else if ty = 5 then {1, 5, 6, 10} else if ty = 7 then {1, 3, 5, 6} else {})
      else if cmd = 3 \<and> ty = 3 then {16} else {})"

text \<open>The bus relays that a level list has high, and the level list of a set of relays.\<close>

definition bus_of :: "nat set \<Rightarrow> bool list" where
  "bus_of S = map (\<lambda>i. i + 1 \<in> S) [0..<17]"

lemma bus_effect_nth:
  assumes "\<forall>(i, v) \<in> set ws. 1 \<le> i \<and> i \<le> 17" "length bl = 17" "k < 17"
  shows "bus_effect ws bl ! k = (case map_of (rev ws) (Suc k) of Some v \<Rightarrow> v | None \<Rightarrow> bl ! k)"
  using assms
proof (induction ws rule: rev_induct)
  case Nil
  then show ?case by (simp add: bus_effect_def)
next
  case (snoc w ws)
  obtain i v where w: "w = (i, v)" by (cases w)
  have "length (bus_effect ws bl) = 17"
    unfolding bus_effect_def by (rule fold_inv[where P = "\<lambda>l. length l = 17"]) (use snoc.prems in auto)
  with snoc w show ?case by (cases i) (auto simp: bus_effect_def nth_list_update)
qed

lemma length_bus_effect [simp]: "length (bus_effect ws bl) = length bl"
  unfolding bus_effect_def by (rule fold_inv[where P = "\<lambda>l. length l = length bl"]) auto

lemma bus_effect_idem:
  assumes "\<forall>(i, v) \<in> set ws. 1 \<le> i \<and> i \<le> 17" "length bl = 17"
  shows "bus_effect ws (bus_effect ws bl) = bus_effect ws bl"
  by (rule nth_equalityI) (auto simp: assms bus_effect_nth[OF assms(1)] split: option.splits)

lemma bus_effect_from_reset:
  assumes "\<forall>(i, v) \<in> set ws. 1 \<le> i \<and> i \<le> 17"
  shows "bus_effect ws (replicate 17 False) = bus_of {i. map_of (rev ws) i = Some True}"
  by (rule nth_equalityI)
    (auto simp: bus_of_def bus_effect_nth[OF assms] split: option.splits simp del: upt_Suc)

lemma funpow_idem:
  assumes "f (f x) = f x"
  shows "(f ^^ n) x = (if n = 0 then x else f x)"
  using assms by (induction n) auto

section \<open>From routine to frame\<close>

lemma holds_clear_frame:
  assumes "holds b0 buf bl rl s"
  shows "holds b0 (replicate 17 0) bl rl (clear_frame s)" "relays (clear_frame s) = relays s"
proof -
  from assms have len: "length (uFiuCom_buf s) = 17" by (auto simp: holds_def good_def relay_wf_def)
  have nth: "length b = 17 \<Longrightarrow> n \<le> 17 \<Longrightarrow> length (fold (\<lambda>i b. b[i := 0]) [0..<n] b) = 17 \<and>
      (\<forall>k < n. fold (\<lambda>i b. b[i := 0]) [0..<n] b ! k = 0)" for b :: "u8 list" and n
    by (induction n) (auto simp: nth_list_update less_Suc_eq)
  have "fold (\<lambda>i b. b[i := 0]) [0..<17] (uFiuCom_buf s) = replicate 17 0"
    by (rule nth_equalityI) (use nth[OF len, of 17] in auto)
  with assms show "holds b0 (replicate 17 0) bl rl (clear_frame s)"
    by (simp add: clear_frame_def holds_def good_def relay_wf_def dq_coherent_def bus_levels_def
        res_levels_def board_of_def del: upt_Suc)
  show "relays (clear_frame s) = relays s" by (simp add: clear_frame_def relays_def)
qed

text \<open>
  A frame processor resets the board, runs the routine on every selected channel and clears the
  frame: what is closed at the end is what the selected channels ask for and nothing else.
\<close>

lemma process_plan:
  assumes "relay_wf s" and buf: "buf = uFiuCom_buf s"
    and inj: "injects b0 buf (bus_effect ws) G R body"
    and ws: "\<forall>(i, v) \<in> set ws. 1 \<le> i \<and> i \<le> 17"
    and G: "G (G (replicate 15 False)) = G (replicate 15 False)"
    and keep: "\<And>c s s'. body c s = Inr s' \<Longrightarrow> uFiuCom_buf s' = uFiuCom_buf s"
  shows "\<exists>s'. bind_res (tdreset_process s) (\<lambda>s. bind_res (for_channels body s) (\<lambda>s. Inr (clear_frame s))) = Inr s' \<and>
    relays s' = \<Union> (R ` set (sel_channels buf)) \<and>
    holds b0 (replicate 17 0)
      (bus_of (if sel_channels buf = [] then {} else {i. map_of (rev ws) i = Some True}))
      (if sel_channels buf = [] then replicate 15 False else G (replicate 15 False)) s'"
proof -
  from tdreset_holds[OF assms(1)] obtain s1 where s1: "tdreset_process s = Inr s1" "relays s1 = {}"
    "holds b0 buf (replicate 17 False) (replicate 15 False) s1" unfolding buf by blast
  have buf1: "uFiuCom_buf s1 = buf" using s1(3) by (simp add: holds_def)
  from injects_loop[OF inj sel_channels_range s1(3), of buf]
  obtain s2 where s2: "for_each (sel_channels buf) body s1 = Inr s2"
    "holds b0 buf ((bus_effect ws ^^ length (sel_channels buf)) (replicate 17 False))
       ((G ^^ length (sel_channels buf)) (replicate 15 False)) s2"
    "relays s2 = \<Union> (R ` set (sel_channels buf))" using s1(2) by auto
  have "bus_of {} = replicate 17 False"
    by (rule nth_equalityI) (simp_all add: bus_of_def del: upt_Suc)
  moreover have "bus_effect ws (bus_effect ws (replicate 17 False)) = bus_effect ws (replicate 17 False)"
    by (rule bus_effect_idem[OF ws]) simp
  ultimately have "(bus_effect ws ^^ length (sel_channels buf)) (replicate 17 False) =
      bus_of (if sel_channels buf = [] then {} else {i. map_of (rev ws) i = Some True})"
    by (simp add: funpow_idem bus_effect_from_reset[OF ws])
  with s2(2) have "holds b0 buf (bus_of (if sel_channels buf = [] then {} else {i. map_of (rev ws) i = Some True}))
      (if sel_channels buf = [] then replicate 15 False else G (replicate 15 False)) s2"
    by (simp add: funpow_idem[OF G])
  from holds_clear_frame[OF this] s1(1) s2 show ?thesis
    by (simp add: for_channels_eq[OF keep] buf1)
qed

text \<open>The bus relay writes that each routine makes for a fault type.\<close>

definition fuhegz_ws :: "u8 \<Rightarrow> (nat \<times> bool) list" where
  "fuhegz_ws v = (if v = 2 then hv_writes 1 else if v = 3 then hv_writes 2
     else if v = 4 then hv_writes 3 else if v = 5 then hv_writes 4 else [])"

definition kstdgz_ws :: "u8 \<Rightarrow> (nat \<times> bool) list" where
  "kstdgz_ws v = (if v = 1 then hv_writes 9 else if v = 2 then hv_writes 5
     else if v = 3 then hv_writes 6 else if v = 4 then hv_writes 7
     else if v = 5 then hv_writes 8 else [])"

definition ksldmn_ws :: "u8 \<Rightarrow> (nat \<times> bool) list" where
  "ksldmn_ws v = (if v = 1 then hv_writes 10 else if v = 2 then hv_writes 5
     else if v = 3 then hv_writes 6 else if v = 4 then hv_writes 7
     else if v = 5 then hv_writes 8 else if v = 7 then hv_writes 11 else [])"

definition ddlgz_ws :: "u8 \<Rightarrow> (nat \<times> bool) list" where
  "ddlgz_ws v = (if v = 2 then [(2, False), (14, False), (15, False), (16, False), (17, False)]
     else if v = 3 then [(2, False), (14, False), (15, False), (16, True), (17, False)] else [])"

lemmas routine_ws_defs = fuhegz_ws_def kstdgz_ws_def ksldmn_ws_def ddlgz_ws_def

lemma routine_ws_range:
  "\<forall>(i, b) \<in> set (fuhegz_ws v). 1 \<le> i \<and> i \<le> 17" "\<forall>(i, b) \<in> set (kstdgz_ws v). 1 \<le> i \<and> i \<le> 17"
  "\<forall>(i, b) \<in> set (ksldmn_ws v). 1 \<le> i \<and> i \<le> 17" "\<forall>(i, b) \<in> set (ddlgz_ws v). 1 \<le> i \<and> i \<le> 17"
  by (auto simp: routine_ws_defs)

lemma unat_eq_num: "unat (v :: u8) = n \<longleftrightarrow> n < 256 \<and> v = of_nat n"
  using unsigned_less[of v] by (auto simp: unat_of_nat)

text \<open>The writes energise exactly the bus relays of the plan.\<close>

lemma routine_ws_plan:
  "{i. map_of (rev (fuhegz_ws v)) i = Some True} = plan_bus 0 (unat v)"
  "{i. map_of (rev (kstdgz_ws v)) i = Some True} = plan_bus 1 (unat v)"
  "{i. map_of (rev (ksldmn_ws v)) i = Some True} = plan_bus 2 (unat v)"
  "{i. map_of (rev (ddlgz_ws v)) i = Some True} = plan_bus 3 (unat v)"
  by (auto simp: routine_ws_defs plan_bus_def plan_supply_def unat_eq_num split: if_splits)

text \<open>Each routine closes the planned relays of its channel.\<close>

abbreviation plan_relays_of :: "nat \<Rightarrow> nat \<Rightarrow> nat \<Rightarrow> nat set" where
  "plan_relays_of cmd ty c \<equiv> (\<lambda>k. 3 * c + k) ` plan_offsets cmd ty"

lemma injects_weaken:
  assumes "injects b0 buf F G R f" "F = F'" "G = G'" "\<And>c. R c = R' c"
    "\<And>c s. uFiuCom_buf s = buf \<Longrightarrow> f' c s = f c s"
  shows "injects b0 buf F' G' R' f'"
  using assms unfolding injects_def holds_def by metis

lemma injects_emit_pre:
  assumes "injects b0 buf F G R f"
  shows "injects b0 buf F G R (\<lambda>c s. bind_res (f c s) (\<lambda>s. Inr (s\<lparr>uFaultModePreStatus := 0\<rparr>)))"
proof -
  have "injects b0 buf id id (\<lambda>_. {}) (\<lambda>_ s. Inr (s\<lparr>uFaultModePreStatus := 0\<rparr>))"
    by (rule injects_total) (simp add: holds_def good_def relay_wf_def dq_coherent_def bus_levels_def
        res_levels_def board_of_def, blast)
  from injects_bind[OF assms this] show ?thesis by simp
qed

lemma injects_fuhegz:
  "injects b0 buf (bus_effect (fuhegz_ws v)) id (plan_relays_of 0 (unat v)) (\<lambda>c. fuhegz_set c v)"
proof -
  have hv: "injects b0 buf (bus_effect (hv_writes w)) id (\<lambda>c. {3 * c, 3 * c + 1})
      (\<lambda>c s. bind_res (chan_relay c 0 s) (\<lambda>s. bind_res (chan_relay c 1 s) (\<lambda>s. Inr (HV_FunRelay_Set w s))))" for w
    using injects_bind[OF injects_relay[of 0] injects_bind[OF injects_relay[of 1] injects_HV]]
    by (rule injects_weaken) auto
  have none: "injects b0 buf (bus_effect []) id (\<lambda>c. {3 * c}) (\<lambda>c s. bind_res (chan_relay c 0 s) (\<lambda>s. Inr s))"
    using injects_bind[OF injects_relay[of 0] injects_skip]
    by (rule injects_weaken) (auto simp: bus_effect_def fun_eq_iff)
  have "v = 2 \<or> v = 3 \<or> v = 4 \<or> v = 5 \<or> v \<notin> {2, 3, 4, 5}" by auto
  then show ?thesis
    by (elim disjE; intro injects_weaken[OF injects_emit_pre[OF hv[of "v - 1"]]]
        injects_weaken[OF injects_emit_pre[OF none]])
      (simp_all add: fuhegz_set_def fuhegz_ws_def plan_offsets_def bind_res_assoc unat_eq_num)
qed

lemma injects_HI:
  "v = 2 \<or> v = 3 \<Longrightarrow> injects b0 buf (bus_effect (ddlgz_ws v)) id (\<lambda>_. {}) (\<lambda>_ s. Inr (HI_FunRelay_Set (v - 1) s))"
  unfolding injects_def
  using holds_ctrlbus[OF _ routine_ws_range(4)[of v]] by (auto simp: HI_FunRelay_Set_def ddlgz_ws_def)

lemma injects_ddlgz:
  "injects b0 buf (bus_effect (ddlgz_ws v)) id (plan_relays_of 3 (unat v)) (\<lambda>c. ddlgz_set c v)"
proof (cases "v = 2 \<or> v = 3")
  case True
  show ?thesis
    by (rule injects_weaken[OF injects_bind[OF injects_relay[of 0] injects_bind[OF injects_relay[of 1]
            injects_HI[OF True]]]])
      (use True in \<open>auto simp: ddlgz_set_def plan_offsets_def\<close>)
next
  case False
  then show ?thesis
    by (intro injects_weaken[OF injects_bind[OF injects_relay[of 0] injects_skip]])
      (auto simp: ddlgz_set_def plan_offsets_def ddlgz_ws_def unat_eq_num bus_effect_def fun_eq_iff)
qed

lemma injects_kstdgz:
  "injects b0 buf (bus_effect (kstdgz_ws v)) id (plan_relays_of 1 (unat v)) (\<lambda>c. kstdgz_set c v)"
proof -
  have hv: "injects b0 buf (bus_effect (hv_writes w)) id (\<lambda>c. {3 * c, 3 * c + 1, 3 * c + 2})
      (\<lambda>c s. bind_res (chan_on_bus c s) (\<lambda>s. Inr (HV_FunRelay_Set w s)))" for w
    using injects_bind[OF injects_chan_on_bus injects_HV] by simp
  have none: "injects b0 buf (bus_effect []) id (\<lambda>c. {3 * c, 3 * c + 1, 3 * c + 2})
      (\<lambda>c s. bind_res (chan_on_bus c s) (\<lambda>s. Inr s))"
    using injects_bind[OF injects_chan_on_bus injects_skip]
    by (rule injects_weaken) (auto simp: bus_effect_def fun_eq_iff)
  have "v = 1 \<or> v = 2 \<or> v = 3 \<or> v = 4 \<or> v = 5 \<or> v \<notin> {1, 2, 3, 4, 5}" by auto
  then show ?thesis
    by (elim disjE; intro injects_weaken[OF hv[of "if v = 1 then 9 else v + 3"]] injects_weaken[OF none])
      (simp_all add: kstdgz_set_def kstdgz_ws_def plan_offsets_def)
qed

lemma injects_ksldmn:
  assumes "v \<in> {1, 2, 3, 4, 5, 7}"
  shows "injects b0 buf (bus_effect (ksldmn_ws v)) (res_effect (buf ! 13) (buf ! 14))
    (plan_relays_of 2 (unat v)) (\<lambda>c. ksldmn_set c v)"
proof -
  have hv: "injects b0 buf (bus_effect (hv_writes w)) (res_effect (buf ! 13) (buf ! 14))
      (\<lambda>c. {3 * c, 3 * c + 1, 3 * c + 2})
      (\<lambda>c s. bind_res (chan_on_bus c s) (\<lambda>s. Inr (frame_resistance (HV_FunRelay_Set w s))))" for w
    using injects_bind[OF injects_chan_on_bus injects_bind[OF injects_HV injects_resistance]] by simp
  from assms have "v = 1 \<or> v = 2 \<or> v = 3 \<or> v = 4 \<or> v = 5 \<or> v = 7" by auto
  then show ?thesis
    by (elim disjE; intro injects_weaken[OF hv[of "if v = 1 then 10 else if v = 7 then 11 else v + 3"]])
      (simp_all add: ksldmn_set_def ksldmn_ws_def plan_offsets_def)
qed

lemma injects_ksldmn_0:
  "injects b0 buf (bus_effect (ksldmn_ws 0)) id (plan_relays_of 2 0) (\<lambda>c. ksldmn_set c 0)"
  using injects_bind[OF injects_chan_on_bus injects_skip]
  by (rule injects_weaken) (auto simp: bus_effect_def fun_eq_iff ksldmn_ws_def ksldmn_set_def plan_offsets_def)

text \<open>Collecting the channels of an ECU to ECU fault: four fit, a fifth runs off the array.\<close>

lemma collect_loop:
  "for_each cs collect_channel (xs @ replicate n 0, length xs) =
     (if length cs \<le> n then Inr (xs @ cs @ replicate (n - length cs) 0, length xs + length cs)
      else Inl OutOfBounds)"
proof (induction cs arbitrary: xs n)
  case Nil
  then show ?case by simp
next
  case (Cons c cs)
  show ?case
  proof (cases n)
    case 0
    then show ?thesis by (simp add: collect_channel_def arr_set_Inl)
  next
    case (Suc m)
    then have "collect_channel c (xs @ replicate n 0, length xs) = Inr ((xs @ [c]) @ replicate m 0, length (xs @ [c]))"
      by (simp add: collect_channel_def list_update_append)
    with Cons.IH[of "xs @ [c]" m] Suc show ?thesis by simp
  qed
qed

lemma collect_channels_eq:
  "collect_channels buf = (let cs = sel_channels buf in
     if length cs \<le> 4 then Inr (cs @ replicate (4 - length cs) 0, length cs) else Inl OutOfBounds)"
  unfolding collect_channels_def for_channel_bits using collect_loop[of "sel_channels buf" "[]" 4]
  by (simp add: Let_def)

lemma ksldmn_two_set_holds:
  assumes "c1 < 72" "c2 < 72" "holds b0 buf bl rl s"
  shows "\<exists>s'. ksldmn_two_set c1 c2 0 s = Inr s' \<and> relays s' = relays s \<union> {3 * c1, 3 * c1 + 1, 3 * c2 + 2} \<and>
    holds b0 buf (bus_effect (hv_writes 10) bl) (res_effect (buf ! 13) (buf ! 14) rl) s'"
proof -
  note R = injects_relay[unfolded injects_def, rule_format, simplified]
  from R[of 0 c1] assms obtain s1 where s1: "chan_relay c1 0 s = Inr s1" "holds b0 buf bl rl s1"
    "relays s1 = relays s \<union> {3 * c1}" by fastforce
  from R[of 1 c1] assms s1(2) obtain s2 where s2: "chan_relay c1 1 s1 = Inr s2" "holds b0 buf bl rl s2"
    "relays s2 = relays s1 \<union> {3 * c1 + 1}" by fastforce
  have "(c2 * 3 + 0) mod 256 div 16 < 14" using assms(2) by simp
  from rb.refresh_reg[OF s2(2) this] obtain s3 where
    s3: "Sn74374_fun ((c2 * 3 + 0) mod 256 div 16) 0 s2 = Inr s3" "holds b0 buf bl rl s3" "relays s3 = relays s2"
    by auto
  from R[of 2 c2] assms s3(2) obtain s4 where s4: "chan_relay c2 2 s3 = Inr s4" "holds b0 buf bl rl s4"
    "relays s4 = relays s3 \<union> {3 * c2 + 2}" by fastforce
  from holds_Resistance[OF holds_HV[OF s4(2), of 10], of "buf ! 13" "buf ! 14"] s4(2)
  have "holds b0 buf (bus_effect (hv_writes 10) bl) (res_effect (buf ! 13) (buf ! 14) rl)
      (frame_resistance (HV_FunRelay_Set 10 s4))" by (simp add: frame_resistance_def holds_def)
  with s1 s2 s3 s4 show ?thesis
    by (auto simp: ksldmn_two_set_def frame_resistance_def simp del: One_nat_def)
qed

section \<open>Frames implement their plan\<close>

text \<open>What a frame is to leave on the board: relays closed, bus relay levels, resistor levels.\<close>

record fiu_view =
  v_relays :: "nat set"
  v_bus :: "bool list"
  v_res :: "bool list"

definition view :: "board \<Rightarrow> relay_st \<Rightarrow> fiu_view" where
  "view b0 s = \<lparr>v_relays = {n. n < 224 \<and> dq_out (board_of b0 s) (n div 16) (n mod 16)},
     v_bus = bus_levels b0 s, v_res = res_levels b0 s\<rparr>"

definition idle_view :: fiu_view where
  "idle_view = \<lparr>v_relays = {}, v_bus = replicate 17 False, v_res = replicate 15 False\<rparr>"

definition plan_res :: "u8 list \<Rightarrow> bool list" where
  "plan_res buf = res_effect (buf ! 13) (buf ! 14) (replicate 15 False)"

definition plan :: "u8 list \<Rightarrow> fiu_view" where
  "plan buf =
     (let cmd = unat (buf ! 2); ty = unat (buf ! 12); cs = sel_channels buf in
      if cs = [] \<or> cmd = 4 \<or> (cmd = 2 \<and> (7 < ty \<or> (ty = 6 \<and> length cs \<noteq> 2))) then idle_view
      else if cmd = 2 \<and> ty = 6
      then \<lparr>v_relays = {3 * cs ! 0, 3 * cs ! 0 + 1, 3 * cs ! 1 + 2}, v_bus = bus_of {1, 5, 6},
            v_res = plan_res buf\<rparr>
      else \<lparr>v_relays = (\<Union>c \<in> set cs. plan_relays_of cmd ty c), v_bus = bus_of (plan_bus cmd ty),
            v_res = (if cmd = 2 \<and> ty \<noteq> 0 then plan_res buf else replicate 15 False)\<rparr>)"

definition frame_ok :: "u8 list \<Rightarrow> bool" where
  "frame_ok buf \<longleftrightarrow> buf ! 0 = 0xbe \<and> buf ! 1 = 0xbe \<and> buf ! 15 = 0xed \<and> buf ! 16 = 0xed"

definition ecu_overflow :: "u8 list \<Rightarrow> bool" where
  "ecu_overflow buf \<longleftrightarrow> buf ! 2 = 2 \<and> buf ! 12 = 6 \<and> 4 < length (sel_channels buf)"

lemma holds_view:
  assumes "holds b0 buf bl rl s"
  shows "view b0 s = \<lparr>v_relays = relays s, v_bus = bl, v_res = rl\<rparr>" and "good b0 s"
  using assms by (auto simp: view_def holds_def good_def dq_coherent_def relays_def)

lemma bus_of_empty: "bus_of {} = replicate 17 False"
  by (rule nth_equalityI) (simp_all add: bus_of_def del: upt_Suc)

abbreviation meets_plan :: "board \<Rightarrow> u8 list \<Rightarrow> relay_st res \<Rightarrow> bool" where
  "meets_plan b0 buf r \<equiv> \<exists>s'. r = Inr s' \<and> good b0 s' \<and> view b0 s' = plan buf"

text \<open>The common step: a processor whose routine injects per the plan meets the plan.\<close>

lemma process_meets_plan:
  assumes "relay_wf s" "buf = uFiuCom_buf s" "unat (buf ! 2) = cmd" "cmd < 4"
    and inj: "injects b0 buf (bus_effect ws) G (plan_relays_of cmd (unat (buf ! 12))) (\<lambda>c. f c (buf ! 12))"
    and ws: "\<forall>(i, v) \<in> set ws. 1 \<le> i \<and> i \<le> 17" "{i. map_of (rev ws) i = Some True} = plan_bus cmd (unat (buf ! 12))"
    and keep: "\<And>c v s s'. f c v s = Inr s' \<Longrightarrow> uFiuCom_buf s' = uFiuCom_buf s"
    and G: "G = (if cmd = 2 \<and> buf ! 12 \<noteq> 0 then res_effect (buf ! 13) (buf ! 14) else id)"
    and leak: "cmd = 2 \<Longrightarrow> unat (buf ! 12) \<le> 7 \<and> buf ! 12 \<noteq> 6"
  shows "meets_plan b0 buf (bind_res (tdreset_process s) (\<lambda>s.
    bind_res (for_channels (\<lambda>c s. f c (uFiuCom_buf s ! 12) s) s) (\<lambda>s. Inr (clear_frame s))))"
proof -
  have inj': "injects b0 buf (bus_effect ws) G (plan_relays_of cmd (unat (buf ! 12)))
      (\<lambda>c s. f c (uFiuCom_buf s ! 12) s)"
    by (rule injects_weaken[OF inj]) auto
  have GG: "G (G (replicate 15 False)) = G (replicate 15 False)"
    by (simp add: G res_effect_def)
  have "\<exists>s'. bind_res (tdreset_process s) (\<lambda>s. bind_res (for_channels (\<lambda>c s. f c (uFiuCom_buf s ! 12) s) s)
        (\<lambda>s. Inr (clear_frame s))) = Inr s' \<and>
      relays s' = \<Union> (plan_relays_of cmd (unat (buf ! 12)) ` set (sel_channels buf)) \<and>
      holds b0 (replicate 17 0) (bus_of (if sel_channels buf = [] then {} else plan_bus cmd (unat (buf ! 12))))
      (if sel_channels buf = [] then replicate 15 False else G (replicate 15 False)) s'"
    by (rule process_plan[OF assms(1,2) inj' ws(1) GG, unfolded ws(2)]) (rule keep)
  then obtain s' where
    s': "bind_res (tdreset_process s) (\<lambda>s. bind_res (for_channels (\<lambda>c s. f c (uFiuCom_buf s ! 12) s) s)
        (\<lambda>s. Inr (clear_frame s))) = Inr s'"
    "relays s' = \<Union> (plan_relays_of cmd (unat (buf ! 12)) ` set (sel_channels buf))"
    and h: "holds b0 (replicate 17 0) (bus_of (if sel_channels buf = [] then {} else plan_bus cmd (unat (buf ! 12))))
      (if sel_channels buf = [] then replicate 15 False else G (replicate 15 False)) s'"
    by blast
  have ty: "unat (buf ! 12) = 6 \<longleftrightarrow> buf ! 12 = 6" "unat (buf ! 12) = 0 \<longleftrightarrow> buf ! 12 = 0"
    by (auto simp: unat_eq_num)
  have "view b0 s' = plan buf"
  proof (cases "sel_channels buf = []")
    case True
    with holds_view(1)[OF h] s'(2) show ?thesis
      by (simp add: plan_def idle_view_def bus_of_empty)
  next
    case False
    then have "v_relays (plan buf) = relays s'"
      "v_bus (plan buf) = bus_of (plan_bus cmd (unat (buf ! 12)))"
      "v_res (plan buf) = G (replicate 15 False)"
      using assms(3,4) leak s'(2) ty by (auto simp: plan_def Let_def G plan_res_def)
    with holds_view(1)[OF h] False show ?thesis by simp
  qed
  with holds_view(2)[OF h] s'(1) show ?thesis by blast
qed

lemma fuhegz_meets_plan:
  assumes "relay_wf s" "uFiuCom_buf s ! 2 = 0"
  shows "meets_plan b0 (uFiuCom_buf s) (fuhegz_process s)"
  unfolding fuhegz_process_def
  by (rule process_meets_plan[where f = fuhegz_set, OF assms(1) refl _ _ injects_fuhegz routine_ws_range(1)
        routine_ws_plan(1) set_keeps_buf(1)]) (use assms in simp_all)

lemma kstdgz_meets_plan:
  assumes "relay_wf s" "uFiuCom_buf s ! 2 = 1"
  shows "meets_plan b0 (uFiuCom_buf s) (kstdgz_process s)"
  unfolding kstdgz_process_def
  by (rule process_meets_plan[where f = kstdgz_set, OF assms(1) refl _ _ injects_kstdgz routine_ws_range(2)
        routine_ws_plan(2) set_keeps_buf(3)]) (use assms in simp_all)

lemma ddltdgz_meets_plan:
  assumes "relay_wf s" "uFiuCom_buf s ! 2 = 3"
  shows "meets_plan b0 (uFiuCom_buf s) (ddltdgz_process s)"
  unfolding ddltdgz_process_def
  by (rule process_meets_plan[where f = ddlgz_set, OF assms(1) refl _ _ injects_ddlgz routine_ws_range(4)
        routine_ws_plan(4) set_keeps_buf(2)]) (use assms in simp_all)

lemma for_channels_keeps_buf:
  assumes "\<And>c s s'. body c s = Inr s' \<Longrightarrow> uFiuCom_buf s' = uFiuCom_buf s" "for_channels body s = Inr s'"
  shows "uFiuCom_buf s' = uFiuCom_buf s"
proof -
  have "for_each cs body t = Inr t' \<Longrightarrow> uFiuCom_buf t' = uFiuCom_buf t" for cs t t'
    using assms(1) by (induction cs arbitrary: t) auto
  with assms(2) show ?thesis by (simp add: for_channels_eq[OF assms(1)])
qed

lemma ksldmn_simple_eq:
  assumes "relay_wf s" "uFiuCom_buf s ! 12 < 6 \<or> uFiuCom_buf s ! 12 = 7"
  shows "ksldmn_process s = bind_res (tdreset_process s) (\<lambda>s.
    bind_res (for_channels (\<lambda>c s. ksldmn_set c (uFiuCom_buf s ! 12) s) s) (\<lambda>s. Inr (clear_frame s)))"
proof -
  from tdreset_holds[OF assms(1)] obtain s1 where s1: "tdreset_process s = Inr s1" "uFiuCom_buf s1 = uFiuCom_buf s"
    unfolding holds_def by blast
  let ?loop = "for_channels (\<lambda>c s. ksldmn_set c (uFiuCom_buf s ! 12) s) s1"
  have keep: "uFiuCom_buf s2 = uFiuCom_buf s" if "?loop = Inr s2" for s2
    using for_channels_keeps_buf[OF _ that] set_keeps_buf(4) s1(2) by metis
  from assms(2) have "uFiuCom_buf s ! 12 \<noteq> 6" by auto
  then show ?thesis
    using s1 assms(2) keep by (cases ?loop) (simp_all add: ksldmn_process_def)
qed

lemma u8_less_6: "v < 6 \<longleftrightarrow> v \<in> {0, 1, 2, 3, 4, 5}" for v :: u8
  by (auto simp: word_less_nat_alt word_unat_eq_iff)

lemma ksldmn_simple_meets_plan:
  assumes "relay_wf s" "uFiuCom_buf s ! 2 = 2" "uFiuCom_buf s ! 12 < 6 \<or> uFiuCom_buf s ! 12 = 7"
  shows "meets_plan b0 (uFiuCom_buf s) (ksldmn_process s)"
proof -
  let ?v = "uFiuCom_buf s ! 12"
  have v: "unat ?v \<le> 7 \<and> ?v \<noteq> 6" using assms(3) by (auto simp: word_less_nat_alt)
  have "?v \<in> {0, 1, 2, 3, 4, 5, 7}" using assms(3) u8_less_6[of ?v] by auto
  then have "injects b0 (uFiuCom_buf s) (bus_effect (ksldmn_ws ?v))
      (if (2 :: nat) = 2 \<and> ?v \<noteq> 0 then res_effect (uFiuCom_buf s ! 13) (uFiuCom_buf s ! 14) else id)
      (plan_relays_of 2 (unat ?v)) (\<lambda>c. ksldmn_set c ?v)"
    using injects_ksldmn[of ?v] injects_ksldmn_0 by (cases "?v = 0") auto
  then show ?thesis
    unfolding ksldmn_simple_eq[OF assms(1,3)]
    by (intro process_meets_plan[where f = ksldmn_set, OF assms(1) refl _ _ _ routine_ws_range(3)
        routine_ws_plan(3) set_keeps_buf(4) refl]) (use assms v in simp_all)
qed

lemma ksldmn_two_meets_plan:
  assumes "relay_wf s" "uFiuCom_buf s ! 2 = 2" "uFiuCom_buf s ! 12 = 6" "length (sel_channels (uFiuCom_buf s)) \<le> 4"
  shows "meets_plan b0 (uFiuCom_buf s) (ksldmn_process s)"
proof -
  let ?buf = "uFiuCom_buf s" and ?cs = "sel_channels (uFiuCom_buf s)"
  from tdreset_holds[OF assms(1)] obtain s1 where s1: "tdreset_process s = Inr s1" "relays s1 = {}"
    "holds b0 ?buf (replicate 17 False) (replicate 15 False) s1" by blast
  then have buf1: "uFiuCom_buf s1 = ?buf" by (simp add: holds_def)
  show ?thesis
  proof (cases "length ?cs = 2")
    case True
    then obtain c1 c2 where cs: "?cs = [c1, c2]" by (auto simp: numeral_2_eq_2 length_Suc_conv)
    with sel_channels_range[of ?buf] have "c1 < 72" "c2 < 72" by auto
    from ksldmn_two_set_holds[OF this s1(3)] obtain s2 where
      s2: "ksldmn_two_set c1 c2 0 s1 = Inr s2" "relays s2 = {3 * c1, 3 * c1 + 1, 3 * c2 + 2}"
      "holds b0 ?buf (bus_effect (ksldmn_ws 1) (replicate 17 False)) (plan_res ?buf) s2"
      using s1(2) by (auto simp: ksldmn_ws_def plan_res_def)
    from holds_view[OF holds_clear_frame(1)[OF s2(3)]] s2(2) holds_clear_frame(2)[OF s2(3)]
    have "view b0 (clear_frame s2) = plan ?buf" "good b0 (clear_frame s2)"
      using bus_effect_from_reset[OF routine_ws_range(3), of 1, unfolded routine_ws_plan(3)]
      by (simp_all add: plan_def cs assms plan_bus_def)
    then show ?thesis
      using s1(1) s2(1) buf1 assms by (simp add: ksldmn_process_def collect_channels_eq cs)
  next
    case False
    with holds_view[OF holds_clear_frame(1)[OF s1(3)]] s1(2) holds_clear_frame(2)[OF s1(3)]
    have "view b0 (clear_frame s1) = plan ?buf" "good b0 (clear_frame s1)"
      by (auto simp: plan_def idle_view_def assms)
    then show ?thesis
      using False s1(1) buf1 assms by (simp add: ksldmn_process_def collect_channels_eq Let_def)
  qed
qed

lemma ksldmn_other_meets_plan:
  assumes "relay_wf s" "uFiuCom_buf s ! 2 = 2" "7 < uFiuCom_buf s ! 12"
  shows "meets_plan b0 (uFiuCom_buf s) (ksldmn_process s)"
proof -
  let ?buf = "uFiuCom_buf s"
  from tdreset_holds[OF assms(1)] obtain s1 where s1: "tdreset_process s = Inr s1" "relays s1 = {}"
    "holds b0 ?buf (replicate 17 False) (replicate 15 False) s1" by blast
  then have buf1: "uFiuCom_buf s1 = ?buf" by (simp add: holds_def)
  from assms(3) have v: "7 < unat (?buf ! 12)" by (simp add: word_less_nat_alt)
  have "view b0 (clear_frame s1) = plan ?buf" "good b0 (clear_frame s1)"
    using holds_view[OF holds_clear_frame(1)[OF s1(3)]] holds_clear_frame(2)[OF s1(3)] s1(2) v assms(2)
    by (simp_all add: plan_def idle_view_def)
  moreover from assms(3) have "\<not> ?buf ! 12 < 6" "?buf ! 12 \<noteq> 6" "?buf ! 12 \<noteq> 7"
    by (auto simp: word_less_nat_alt)
  ultimately show ?thesis using s1(1) buf1 by (simp add: ksldmn_process_def)
qed

lemma tdreset_meets_plan:
  assumes "relay_wf s" "uFiuCom_buf s ! 2 = 4"
  shows "meets_plan b0 (uFiuCom_buf s) (tdreset_process s)"
  using tdreset_holds[OF assms(1), of b0] holds_view assms(2)
  by (fastforce simp: plan_def idle_view_def)

lemma ksldmn_overflow:
  assumes "relay_wf s" "uFiuCom_buf s ! 12 = 6" "4 < length (sel_channels (uFiuCom_buf s))"
  shows "ksldmn_process s = Inl OutOfBounds"
proof -
  from tdreset_holds[OF assms(1)] obtain s1 where "tdreset_process s = Inr s1" "uFiuCom_buf s1 = uFiuCom_buf s"
    unfolding holds_def by blast
  with assms(2,3) show ?thesis by (simp add: ksldmn_process_def collect_channels_eq Let_def)
qed

text \<open>Copying the frame into the buffer makes the buffer the frame.\<close>

lemma load_buf:
  assumes "length b = 17" "length g = 17"
  shows "fold (\<lambda>i b. b[i := g ! i]) [0..<17] b = g"
proof -
  have nth: "length (fold (\<lambda>i b. b[i := g ! i]) [0..<n] b) = 17 \<and>
      (\<forall>k < n. fold (\<lambda>i b. b[i := g ! i]) [0..<n] b ! k = g ! k)" if "n \<le> 17" for n
    using that assms(1) by (induction n) (auto simp: nth_list_update less_Suc_eq)
  show ?thesis by (rule nth_equalityI) (use nth[of 17] assms in auto)
qed

lemma FiuCom_Process_eq:
  assumes "relay_wf s" "length g = 17" "s0 = s\<lparr>uFiuCom_buf := g\<rparr>"
  shows "FiuCom_Process g s =
     (if frame_ok g then
        (if g ! 2 = 0 then fuhegz_process s0 else if g ! 2 = 1 then kstdgz_process s0
         else if g ! 2 = 2 then ksldmn_process s0 else if g ! 2 = 3 then ddltdgz_process s0
         else if g ! 2 = 4 then tdreset_process s0 else Inr (emit [Print (''error'' @ [CHR 0x0A])] s0))
      else Inr s0)"
    and "relay_wf s0" "uFiuCom_buf s0 = g"
  using assms load_buf[of "uFiuCom_buf s" g]
  by (simp_all add: FiuCom_Process_def frame_ok_def relay_wf_def Let_def del: upt_Suc)

lemma emit_Nil [simp]: "emit [] s = s"
  by (simp add: emit_def)

text \<open>The three outcomes of the processor: the plan, an overflow, or nothing done.\<close>

lemma FiuCom_meets_plan:
  assumes "relay_wf s" "length g = 17" "frame_ok g" "g ! 2 \<le> 4" "\<not> ecu_overflow g"
  shows "meets_plan b0 g (FiuCom_Process g s)"
proof -
  define s0 where "s0 = s\<lparr>uFiuCom_buf := g\<rparr>"
  note eq = FiuCom_Process_eq[OF assms(1,2) s0_def]
  have "g ! 2 \<in> {0, 1, 2, 3, 4}" using assms(4) by (auto simp: word_le_nat_alt word_unat_eq_iff)
  moreover have "g ! 12 < 6 \<or> g ! 12 = 7 \<or> g ! 12 = 6 \<or> 7 < g ! 12"
    by (auto simp: word_less_nat_alt word_unat_eq_iff)
  ultimately show ?thesis
    using assms(3,5) eq fuhegz_meets_plan[OF eq(2)] kstdgz_meets_plan[OF eq(2)]
      ddltdgz_meets_plan[OF eq(2)] ksldmn_simple_meets_plan[OF eq(2)] ksldmn_two_meets_plan[OF eq(2)]
      ksldmn_other_meets_plan[OF eq(2)] tdreset_meets_plan[OF eq(2)]
    by (auto simp: ecu_overflow_def)
qed

lemma FiuCom_overflows:
  assumes "relay_wf s" "length g = 17" "frame_ok g" "ecu_overflow g"
  shows "FiuCom_Process g s = Inl OutOfBounds"
proof -
  define s0 where "s0 = s\<lparr>uFiuCom_buf := g\<rparr>"
  note eq = FiuCom_Process_eq[OF assms(1,2) s0_def]
  show ?thesis using assms(3,4) eq ksldmn_overflow[OF eq(2)] by (auto simp: ecu_overflow_def)
qed

lemma FiuCom_ignores:
  assumes "relay_wf s" "length g = 17" "\<not> frame_ok g \<or> 4 < g ! 2"
  shows "\<exists>es. FiuCom_Process g s = Inr (emit es (s\<lparr>uFiuCom_buf := g\<rparr>)) \<and>
    (es = [] \<or> es = [Print (''error'' @ [CHR 0x0A])])"
proof -
  note eq = FiuCom_Process_eq[OF assms(1,2) refl]
  have "4 < g ! 2 \<Longrightarrow> g ! 2 \<notin> {0, 1, 2, 3, 4}" by (auto simp: word_less_nat_alt)
  with eq(1) assms(3) show ?thesis
    by (cases "frame_ok g") (auto intro: exI[of _ "[]"])
qed

lemma view_emit_Print [simp]: "view b0 (emit [Print t] s) = view b0 s"
  by (simp add: view_def bus_levels_def res_levels_def board_step_def Let_def)

lemma view_buf [simp]: "view b0 (s\<lparr>uFiuCom_buf := g\<rparr>) = view b0 s"
  by (simp add: view_def bus_levels_def res_levels_def board_of_def)

lemma good_buf [simp]: "length g = 17 \<Longrightarrow> good b0 s \<Longrightarrow> good b0 (s\<lparr>uFiuCom_buf := g\<rparr>)"
  by (simp add: good_def relay_wf_def dq_coherent_def board_of_def)

lemma FiuCom_keeps_good:
  assumes "good b0 s" "length g = 17" "FiuCom_Process g s = Inr s'"
  shows "good b0 s'"
proof -
  have wf: "relay_wf s" using assms(1) by (simp add: good_def)
  show ?thesis
  proof (cases "frame_ok g \<and> g ! 2 \<le> 4")
    case True
    with FiuCom_overflows[OF wf assms(2)] FiuCom_meets_plan[OF wf assms(2), of b0] assms(3) show ?thesis
      by (cases "ecu_overflow g") auto
  next
    case False
    then have "\<not> frame_ok g \<or> 4 < g ! 2" by (simp add: not_le)
    from FiuCom_ignores[OF wf assms(2) this] obtain es where
      "s' = emit es (s\<lparr>uFiuCom_buf := g\<rparr>)" "es = [] \<or> es = [Print (''error'' @ [CHR 0x0A])]" using assms(3) by auto
    moreover from this(2) have "\<And>e. e \<in> set es \<Longrightarrow> clk_quiet e" by auto
    ultimately show ?thesis using assms good_quiet[of b0 "s\<lparr>uFiuCom_buf := g\<rparr>" es] by simp
  qed
qed

section \<open>Properties of the frame processor\<close>

text \<open>
  C1. Refinement: a frame with correct header and tail, a command 0 to 4 and no overflow of the
  ECU-to-ECU channel list leaves on the board, whatever its state before, exactly the relays, bus
  relay levels and resistor levels of the declarative fault plan, with shadow copy and registers
  in agreement; the processor returns.
\<close>

theorem FiuCom_Process_refines_plan:
  assumes "relay_wf s" "length g = 17" "frame_ok g" "g ! 2 \<le> 4" "\<not> ecu_overflow g"
  shows "\<exists>s'. FiuCom_Process g s = Inr s' \<and> relay_wf s' \<and> dq_coherent b0 s' \<and> view b0 s' = plan g"
  using FiuCom_meets_plan[OF assms] by (auto simp: good_def)

text \<open>A short circuit to supply (type 2) on channels 0 and 9, injected after power-up on an idle board.\<close>

definition board0 :: board where
  "board0 = \<lparr>level = \<lambda>_. False, dq_out = \<lambda>_ _. False\<rparr>"

definition demo_frame :: "u8 list" where
  "demo_frame = [0xbe, 0xbe, 0, 1, 2, 0, 0, 0, 0, 0, 0, 0, 2, 0, 0, 0xed, 0xed]"

lemma sel_demo: "sel_channels demo_frame = [0, 9]"
  by code_simp

lemma demo_frame_ok:
  "length demo_frame = 17" "frame_ok demo_frame" "demo_frame ! 2 = 0" "demo_frame ! 12 = 2"
  by (simp_all add: demo_frame_def frame_ok_def)

theorem FiuCom_Process_refines_plan_witness:
  "\<exists>s'. FiuCom_Process demo_frame relay_init = Inr s' \<and> relay_wf s' \<and> dq_coherent board0 s' \<and>
     view board0 s' = \<lparr>v_relays = {0, 1, 27, 28}, v_bus = bus_of {1, 10, 11, 13}, v_res = replicate 15 False\<rparr>"
proof -
  have "plan demo_frame = \<lparr>v_relays = {0, 1, 27, 28}, v_bus = bus_of {1, 10, 11, 13}, v_res = replicate 15 False\<rparr>"
    by (auto simp: plan_def sel_demo demo_frame_ok plan_offsets_def plan_bus_def plan_supply_def)
  with FiuCom_Process_refines_plan[of relay_init demo_frame board0] show ?thesis
    by (simp add: demo_frame_ok ecu_overflow_def)
qed

text \<open>
  C2. Absence of faults, exactly: on well-formed state the processor reads and writes outside an
  array for a 17-byte frame precisely when the frame is valid, asks for the ECU-to-ECU leakage
  fault (command 2, type 6) and selects more than the four channels that \<open>uChanSet\<close> holds.
\<close>

theorem FiuCom_Process_faults_iff:
  assumes "relay_wf s" "length g = 17"
  shows "(\<exists>e. FiuCom_Process g s = Inl e) \<longleftrightarrow> frame_ok g \<and> ecu_overflow g"
proof (cases "frame_ok g \<and> ecu_overflow g")
  case True
  with FiuCom_overflows[OF assms] show ?thesis by simp
next
  case False
  then consider "frame_ok g" "g ! 2 \<le> 4" "\<not> ecu_overflow g" | "\<not> frame_ok g \<or> 4 < g ! 2"
    by (meson not_le)
  then have "\<exists>s'. FiuCom_Process g s = Inr s'"
    by cases (use FiuCom_meets_plan[OF assms] FiuCom_ignores[OF assms] in blast)+
  with False show ?thesis by auto
qed

theorem FiuCom_Process_faults_iff_witness:
  "\<exists>e. FiuCom_Process [0xbe, 0xbe, 2, 0x1f, 0, 0, 0, 0, 0, 0, 0, 0, 6, 0, 0, 0xed, 0xed] relay_init = Inl e"
proof -
  let ?g = "[0xbe, 0xbe, 2, 0x1f, 0, 0, 0, 0, 0, 0, 0, 0, 6, 0, 0, 0xed, 0xed] :: u8 list"
  have "sel_channels ?g = [0, 1, 2, 3, 4]" by code_simp
  with FiuCom_Process_faults_iff[of relay_init ?g] show ?thesis
    by (simp add: frame_ok_def ecu_overflow_def)
qed

text \<open>
  C3. A frame with a wrong header or tail, or a command above 4, drives no pin: at most an error
  line is printed, and the relay registers and their shadow copies keep their values.
\<close>

theorem FiuCom_Process_rejects:
  assumes "relay_wf s" "length g = 17" "\<not> frame_ok g \<or> 4 < g ! 2"
  shows "\<exists>s'. FiuCom_Process g s = Inr s' \<and> view b0 s' = view b0 s \<and> uDqStatus s' = uDqStatus s \<and>
    (io s' = io s \<or> io s' = io s @ [Print (''error'' @ [CHR 0x0A])])"
proof -
  from FiuCom_ignores[OF assms] obtain es where es: "FiuCom_Process g s = Inr (emit es (s\<lparr>uFiuCom_buf := g\<rparr>))"
    "es = [] \<or> es = [Print (''error'' @ [CHR 0x0A])]" by blast
  from es(2) have "view b0 (emit es (s\<lparr>uFiuCom_buf := g\<rparr>)) = view b0 s" by auto
  with es show ?thesis by (auto simp: emit_def)
qed

theorem FiuCom_Process_rejects_witness:
  "\<exists>s'. FiuCom_Process (demo_frame[2 := 7]) relay_init = Inr s' \<and> view board0 s' = view board0 relay_init \<and>
    uDqStatus s' = uDqStatus relay_init \<and>
    (io s' = io relay_init \<or> io s' = io relay_init @ [Print (''error'' @ [CHR 0x0A])])"
  by (rule FiuCom_Process_rejects) (simp_all add: demo_frame_def frame_ok_def)

end
