(* ===== verification/HostConfig.thy ===== *)
theory HostConfig
  imports FiuFrame
begin

text \<open>
  \<^verbatim>\<open>src/HARDWARE/Fiu/FiuHostDataAnalysis.c\<close>, configuration: the globals that accumulate a
  fault configuration (\<open>P0\<close>, \<open>P1\<close>, frequency, duty, resistance), the plausibility check
  \<open>HostConfigCheck\<close> with its session flags, the decoder \<open>McuGetHostConfigInfo\<close> that
  turns an 8-byte host message into configuration bits, and \<open>DataAtPxToFiuBytes17\<close>, which
  packs the configuration into the 17-byte frame.
\<close>

section \<open>State\<close>

record host_st =
  g_FiuByte17Data :: "u8 list"
  g_DataFromHost :: "u8 list"
  P0 :: u64
  P1 :: u64
  P2 :: u64
  P3_0 :: u16
  P3_1 :: u16
  P3_2 :: u16
  P3_3 :: u16
  P4_0 :: u16
  P4_1 :: u16
  g_Ptime :: u16
  g_Pfreq :: u8
  g_Pduty :: u8
  g_CRC :: u8
  g_Cmd3Err3Cnt :: u8
  g_workStatus :: u8
  g_bLoose :: u8
  g_bFreq :: u8
  g_bDuty :: u8
  g_bTime :: u8
  g_HostConfigPass :: u8
  g_HostConfigErr :: "u8 list"
  g_SendTxcmd :: u8
  FIU_CurCmd :: u8
  FIU_Cmd0_CurErrorType :: u8
  FIU_Cmd0_CurPinFlag :: "u8 list"
  FIU_Cmd1_Flag :: u8
  FIU_Cmd2_Flag :: u8
  FIU_Cmd2_ErrorType0Flag :: u8
  FIU_Cmd2_ErrorType0FlagWithLoadFlag :: u8
  FIU_Cmd2_ErrorType0Cnt :: u8
  FIU_Cmd3_Flag :: u8
  FIU_Cmd3_ErrorType3Flag :: u8
  FIU_Cmd3_ErrorType3Cnt :: u8
  FIU_Cmd4_FreqDutyFlag :: u8
  FIU_Cmd4_ResistanceFlag :: u8
  FIU_Cmd2_Err0 :: u8
  g_WorkMode :: u8

text \<open>Zeroed globals, as the C runtime leaves them before \<open>main\<close>.\<close>

definition host_zero :: host_st where
  "host_zero = \<lparr>g_FiuByte17Data = replicate 17 0, g_DataFromHost = replicate 8 0, P0 = 0, P1 = 0, P2 = 0,
     P3_0 = 0, P3_1 = 0, P3_2 = 0, P3_3 = 0, P4_0 = 0, P4_1 = 0, g_Ptime = 0, g_Pfreq = 0, g_Pduty = 0,
     g_CRC = 0, g_Cmd3Err3Cnt = 0, g_workStatus = 0, g_bLoose = 0, g_bFreq = 0, g_bDuty = 0, g_bTime = 0,
     g_HostConfigPass = 0, g_HostConfigErr = replicate 80 0, g_SendTxcmd = 0, FIU_CurCmd = 0,
     FIU_Cmd0_CurErrorType = 0, FIU_Cmd0_CurPinFlag = replicate 80 0, FIU_Cmd1_Flag = 0,
     FIU_Cmd2_Flag = 0, FIU_Cmd2_ErrorType0Flag = 0, FIU_Cmd2_ErrorType0FlagWithLoadFlag = 0,
     FIU_Cmd2_ErrorType0Cnt = 0, FIU_Cmd3_Flag = 0, FIU_Cmd3_ErrorType3Flag = 0,
     FIU_Cmd3_ErrorType3Cnt = 0, FIU_Cmd4_FreqDutyFlag = 0, FIU_Cmd4_ResistanceFlag = 0,
     FIU_Cmd2_Err0 = 0, g_WorkMode = 0\<rparr>"

section \<open>Initialisation\<close>

definition P_init :: "host_st \<Rightarrow> host_st" where
  "P_init h = h\<lparr>P0 := 0, P1 := 0, P2 := 0, P3_0 := 0, P3_1 := 0, P3_2 := 0, P3_3 := 0, P4_0 := 0,
     P4_1 := 0, g_Ptime := 0, g_Pfreq := 0, g_Pduty := 0, g_CRC := 0, g_bFreq := 0, g_bDuty := 0,
     g_bTime := 0, g_Cmd3Err3Cnt := 0\<rparr>"

definition FIU_Cmd0_CurPinFlag_init :: "host_st \<Rightarrow> host_st" where
  "FIU_Cmd0_CurPinFlag_init h = h\<lparr>g_SendTxcmd := 0, FIU_CurCmd := 255, FIU_Cmd0_CurErrorType := - 1,
     FIU_Cmd1_Flag := 0, FIU_Cmd2_Flag := 0, FIU_Cmd2_ErrorType0Flag := 0,
     FIU_Cmd2_ErrorType0FlagWithLoadFlag := 0, FIU_Cmd2_ErrorType0Cnt := 0, FIU_Cmd3_Flag := 0,
     FIU_Cmd3_ErrorType3Flag := 0, FIU_Cmd3_ErrorType3Cnt := 0, FIU_Cmd4_FreqDutyFlag := 0,
     FIU_Cmd4_ResistanceFlag := 0,
     FIU_Cmd0_CurPinFlag := fold (\<lambda>i fl. fl[i := 0]) [0..<80] (FIU_Cmd0_CurPinFlag h),
     FIU_Cmd2_Err0 := 0\<rparr>"

definition GlobalDataInit :: "host_st \<Rightarrow> host_st" where
  "GlobalDataInit h = FIU_Cmd0_CurPinFlag_init (P_init h)"

definition ErrorNumInit :: "host_st \<Rightarrow> host_st" where
  "ErrorNumInit h = h\<lparr>g_HostConfigPass := 0,
     g_HostConfigErr := fold (\<lambda>i e. e[i := of_nat i + 0x81]) [0..<80] (g_HostConfigErr h)\<rparr>"

section \<open>Bits of the 64-bit configuration words\<close>

text \<open>
  A byte array is built with one bit set (cleared) and read back as a little-endian 64-bit
  word; the array has eight bytes and the pin number is not checked against it.
\<close>

definition McuFault64BitValuePinSet :: "u64 \<Rightarrow> u8 \<Rightarrow> u64 res" where
  "McuFault64BitValuePinSet ToSetValue PinNum =
     (let tmpArray = replicate 8 0;
          ByteIndex = unat PinNum div 8;
          BitIndex = unat PinNum mod 8 in
      bind_res (arr_get tmpArray ByteIndex) (\<lambda>b.
      bind_res (arr_set tmpArray ByteIndex (b OR push_bit BitIndex 1)) (\<lambda>tmpArray.
      let tmp = of_le_bytes tmpArray in
      Inr (tmp OR ToSetValue))))"

definition McuFault64BitValuePinClr :: "u64 \<Rightarrow> u8 \<Rightarrow> u64 res" where
  "McuFault64BitValuePinClr ToClrValue PinNum =
     (let tmpArray = replicate 8 0xFF;
          ByteIndex = unat PinNum div 8;
          BitIndex = unat PinNum mod 8 in
      bind_res (arr_get tmpArray ByteIndex) (\<lambda>b.
      bind_res (arr_set tmpArray ByteIndex (b AND NOT (push_bit BitIndex 1))) (\<lambda>tmpArray.
      let tmp = of_le_bytes tmpArray in
      Inr (tmp AND ToClrValue))))"

section \<open>The plausibility check\<close>

text \<open>Error code \<open>k\<close> of the table; every index used is a constant below 80.\<close>

definition cfg_err :: "nat \<Rightarrow> host_st \<Rightarrow> u8 \<times> host_st" where
  "cfg_err k h = (g_HostConfigErr h ! k, h)"

definition cfg_pass :: "host_st \<Rightarrow> u8 \<times> host_st" where
  "cfg_pass h = (g_HostConfigPass h, h)"

text \<open>Composite faults: each pin once per session; the error type is stored as \<open>int8_t\<close>.\<close>

definition check_cmd0 :: "u8 \<Rightarrow> u8 \<Rightarrow> host_st \<Rightarrow> (u8 \<times> host_st) res" where
  "check_cmd0 CurPinNum canByte3 h =
     (if canByte3 \<noteq> 0 then
        (if CurPinNum > 72 then Inr (cfg_err 27 h)
         else if canByte3 > 4 then Inr (cfg_err 25 h)
         else if sint (FIU_Cmd0_CurErrorType h) = -1 \<or> sint (FIU_Cmd0_CurErrorType h) = uint canByte3 then
           bind_res (arr_get (FIU_Cmd0_CurPinFlag h) (unat CurPinNum)) (\<lambda>fl.
           if fl \<noteq> 0 then Inr (cfg_err 28 h)
           else bind_res (arr_set (FIU_Cmd0_CurPinFlag h) (unat CurPinNum) 1) (\<lambda>fls.
             Inr (cfg_pass (h\<lparr>FIU_Cmd0_CurErrorType := canByte3, FIU_Cmd0_CurPinFlag := fls\<rparr>))))
         else Inr (cfg_pass h))
      else
        (if CurPinNum > 72 then Inr (cfg_err 29 h)
         else bind_res (arr_get (FIU_Cmd0_CurPinFlag h) (unat CurPinNum)) (\<lambda>fl.
           if fl = 1 then Inr (cfg_err 30 h)
           else bind_res (arr_set (FIU_Cmd0_CurPinFlag h) (unat CurPinNum) 1) (\<lambda>fls.
             Inr (cfg_pass (h\<lparr>FIU_Cmd0_CurPinFlag := fls\<rparr>))))))"

definition check_cmd1 :: "u8 \<Rightarrow> u8 \<Rightarrow> u8 \<Rightarrow> host_st \<Rightarrow> u8 \<times> host_st" where
  "check_cmd1 CurPinNum canByte3 canByte4 h =
     (if canByte3 = 0 then
        (if canByte4 \<noteq> 0 then cfg_err 26 h
         else if CurPinNum > 72 then cfg_err 31 h
         else if FIU_Cmd1_Flag h \<noteq> 0 then cfg_err 32 h
         else cfg_pass (h\<lparr>FIU_Cmd1_Flag := 1\<rparr>))
      else
        (if canByte4 > 1 then cfg_err 50 h
         else if CurPinNum > 72 then cfg_err 31 h
         else if FIU_Cmd1_Flag h \<noteq> 0 then cfg_err 32 h
         else cfg_pass (h\<lparr>FIU_Cmd1_Flag := 1\<rparr>)))"

definition check_cmd2 :: "u8 \<Rightarrow> u8 \<Rightarrow> u8 \<Rightarrow> host_st \<Rightarrow> u8 \<times> host_st" where
  "check_cmd2 CurPinNum canByte3 canByte4 h =
     (if canByte3 \<noteq> 0 \<and> canByte3 \<noteq> 6 then
        (if canByte4 > 1 then cfg_err 54 h
         else if CurPinNum > 72 then cfg_err 33 h
         else if FIU_Cmd2_Flag h \<noteq> 0 then cfg_err 34 h
         else cfg_pass (h\<lparr>FIU_Cmd2_Flag := 1\<rparr>))
      else if canByte3 = 6 then
        (if canByte4 \<noteq> 0 then cfg_err 53 h
         else if CurPinNum > 72 then cfg_err 33 h
         else if FIU_Cmd2_Flag h \<noteq> 0 then cfg_err 34 h
         else cfg_pass (h\<lparr>FIU_Cmd2_Flag := 1\<rparr>))
      else
        (if canByte4 > 1 then cfg_err 51 h
         else if CurPinNum > 72 then cfg_err 35 h
         else if FIU_Cmd2_ErrorType0Flag h = 0 then
           (let h = h\<lparr>FIU_Cmd2_Flag := 1, FIU_Cmd2_ErrorType0Cnt := FIU_Cmd2_ErrorType0Cnt h + 1\<rparr>;
                h = (if FIU_Cmd2_ErrorType0Cnt h \<ge> 2 then h\<lparr>FIU_Cmd2_ErrorType0Flag := 1\<rparr> else h) in
            cfg_pass h)
         else cfg_err 36 h))"

definition check_cmd3 :: "u8 \<Rightarrow> u8 \<Rightarrow> u8 \<Rightarrow> host_st \<Rightarrow> u8 \<times> host_st" where
  "check_cmd3 CurPinNum canByte3 canByte4 h =
     (if canByte3 \<noteq> 3 \<and> canByte3 \<noteq> 0 then
        (if canByte4 > 1 then cfg_err 57 h
         else if CurPinNum > 72 then cfg_err 37 h
         else if FIU_Cmd3_Flag h \<noteq> 0 then cfg_err 38 h
         else cfg_pass (h\<lparr>FIU_Cmd3_Flag := 1\<rparr>))
      else if canByte3 = 0 then
        (if canByte4 \<noteq> 0 then cfg_err 56 h
         else if CurPinNum > 72 then cfg_err 37 h
         else if FIU_Cmd3_Flag h \<noteq> 0 then cfg_err 38 h
         else cfg_pass (h\<lparr>FIU_Cmd3_Flag := 1\<rparr>))
      else
        (if canByte4 > 1 then cfg_err 55 h
         else if FIU_Cmd3_ErrorType3Flag h = 0 then
           (let h = h\<lparr>FIU_Cmd3_Flag := 1, FIU_Cmd3_ErrorType3Cnt := FIU_Cmd3_ErrorType3Cnt h + 1\<rparr>;
                h = (if FIU_Cmd3_ErrorType3Cnt h \<ge> 2 then h\<lparr>FIU_Cmd3_ErrorType3Flag := 1\<rparr> else h) in
            cfg_pass h)
         else cfg_err 39 h))"

text \<open>Loose contact and leakage resistance: frequency and duty are checked for byte 2 = 1 only.\<close>

definition check_cmd4 :: "u8 \<Rightarrow> u8 \<Rightarrow> u8 \<Rightarrow> u8 \<Rightarrow> u8 \<Rightarrow> u8 \<Rightarrow> host_st \<Rightarrow> u8 \<times> host_st" where
  "check_cmd4 canByte2 canByte3 canByte4 canByte5 canByte6 canByte7 h =
     (let h = (if canByte2 = 1 then h\<lparr>FIU_Cmd4_FreqDutyFlag := 1\<rparr> else h) in
      if canByte2 = 1 \<and> (canByte3 < 2 \<or> canByte3 > 99) then cfg_err 40 h
      else if canByte2 = 1 \<and> canByte3 = 2 \<and> (canByte4 < 30 \<or> canByte4 > 50) then cfg_err 42 h
      else if canByte2 = 1 \<and> canByte3 \<noteq> 2 \<and> (canByte4 < 1 \<or> canByte4 > 99) then cfg_err 43 h
      else if canByte5 = 1 then
        (if FIU_Cmd4_ResistanceFlag h = 0 then
           (let resistance = push_bit 8 (ucast canByte7) OR ucast canByte6 :: u16 in
            if resistance > 32000 then cfg_err 44 h else cfg_pass h)
         else cfg_err 45 h)
      else cfg_pass h)"

definition HostConfigCheck ::
  "u8 \<Rightarrow> u8 \<Rightarrow> u8 \<Rightarrow> u8 \<Rightarrow> u8 \<Rightarrow> u8 \<Rightarrow> u8 \<Rightarrow> u8 \<Rightarrow> host_st \<Rightarrow> (u8 \<times> host_st) res" where
  "HostConfigCheck canByte0 canByte1 canByte2 canByte3 canByte4 canByte5 canByte6 canByte7 h =
     (if canByte1 > 16 then Inr (cfg_err 23 h)
      else if canByte0 \<noteq> 4 \<and> FIU_CurCmd h \<noteq> 255 \<and> FIU_CurCmd h \<noteq> canByte0 then Inr (cfg_err 24 h)
      else
        (let h = (if canByte0 \<noteq> 4 then h\<lparr>FIU_CurCmd := canByte0\<rparr> else h) in
         if canByte0 = 0 then check_cmd0 canByte2 canByte3 h
         else if canByte0 = 1 then Inr (check_cmd1 canByte2 canByte3 canByte4 h)
         else if canByte0 = 2 then Inr (check_cmd2 canByte2 canByte3 canByte4 h)
         else if canByte0 = 3 then Inr (check_cmd3 canByte2 canByte3 canByte4 h)
         else if canByte0 = 4 then
           Inr (check_cmd4 canByte2 canByte3 canByte4 canByte5 canByte6 canByte7 h)
         else Inr (cfg_pass h)))"

section \<open>Decoding a host message\<close>

text \<open>
  The statements that recur in every branch: mark the pin in \<open>P0\<close> below the limit and in
  \<open>P1\<close> otherwise (the pin argument \<open>nCurPinNum - 64\<close> is an 8-bit value), then set bits of
  \<open>P1\<close>; and the load bit, which ends the branch.
\<close>

definition cfg_set_P1 :: "u8 \<Rightarrow> host_st \<Rightarrow> host_st res" where
  "cfg_set_P1 b h = bind_res (McuFault64BitValuePinSet (P1 h) b) (\<lambda>v. Inr (h\<lparr>P1 := v\<rparr>))"

definition cfg_clr_P1 :: "u8 \<Rightarrow> host_st \<Rightarrow> host_st res" where
  "cfg_clr_P1 b h = bind_res (McuFault64BitValuePinClr (P1 h) b) (\<lambda>v. Inr (h\<lparr>P1 := v\<rparr>))"

definition cfg_pin :: "u8 \<Rightarrow> u8 \<Rightarrow> host_st \<Rightarrow> host_st res" where
  "cfg_pin limit nCurPinNum h =
     (if nCurPinNum < limit
      then bind_res (McuFault64BitValuePinSet (P0 h) nCurPinNum) (\<lambda>v. Inr (h\<lparr>P0 := v\<rparr>))
      else cfg_set_P1 (nCurPinNum - 64) h)"

definition cfg_bits :: "u8 \<Rightarrow> u8 \<Rightarrow> u8 list \<Rightarrow> host_st \<Rightarrow> host_st res" where
  "cfg_bits limit nCurPinNum bs h = bind_res (cfg_pin limit nCurPinNum h) (for_each bs cfg_set_P1)"

definition cfg_load :: "u8 \<Rightarrow> nat \<Rightarrow> host_st \<Rightarrow> (u8 \<times> host_st) res" where
  "cfg_load nCurWithLoad k h =
     (if nCurWithLoad = 1 then bind_res (cfg_set_P1 12 h) (\<lambda>h. Inr (cfg_pass h))
      else if nCurWithLoad = 0 then bind_res (cfg_clr_P1 12 h) (\<lambda>h. Inr (cfg_pass h))
      else Inr (cfg_err k (P_init h)))"

definition config_cmd0 :: "u8 \<Rightarrow> u8 \<Rightarrow> u8 \<Rightarrow> host_st \<Rightarrow> (u8 \<times> host_st) res" where
  "config_cmd0 nCurPinNum nCurErrorType nCurWithLoad h =
     (if nCurErrorType = 0 then bind_res (cfg_bits 72 nCurPinNum [8] h) (\<lambda>h. Inr (cfg_pass h))
      else if nCurErrorType = 1 then bind_res (cfg_bits 72 nCurPinNum [9] h) (cfg_load nCurWithLoad 2)
      else if nCurErrorType = 2 then bind_res (cfg_bits 72 nCurPinNum [9, 8] h) (cfg_load nCurWithLoad 3)
      else if nCurErrorType = 3 then bind_res (cfg_bits 72 nCurPinNum [10] h) (cfg_load nCurWithLoad 4)
      else if nCurErrorType = 4 then bind_res (cfg_bits 72 nCurPinNum [10, 8] h) (cfg_load nCurWithLoad 5)
      else Inr (cfg_err 6 (P_init h)))"

definition config_cmd1 :: "u8 \<Rightarrow> u8 \<Rightarrow> u8 \<Rightarrow> host_st \<Rightarrow> (u8 \<times> host_st) res" where
  "config_cmd1 nCurPinNum nCurErrorType nCurWithLoad h =
     (if nCurErrorType = 0 then bind_res (cfg_bits 72 nCurPinNum [8] h) (\<lambda>h. Inr (cfg_pass h))
      else if nCurErrorType = 1 then bind_res (cfg_bits 72 nCurPinNum [9] h) (cfg_load nCurWithLoad 7)
      else if nCurErrorType = 2 then bind_res (cfg_bits 72 nCurPinNum [9, 8] h) (cfg_load nCurWithLoad 8)
      else if nCurErrorType = 3 then bind_res (cfg_bits 72 nCurPinNum [10] h) (cfg_load nCurWithLoad 9)
      else if nCurErrorType = 4 then bind_res (cfg_bits 72 nCurPinNum [10, 8] h) (cfg_load nCurWithLoad 10)
      else Inr (cfg_err 11 (P_init h)))"

definition config_cmd2 :: "u8 \<Rightarrow> u8 \<Rightarrow> u8 \<Rightarrow> host_st \<Rightarrow> (u8 \<times> host_st) res" where
  "config_cmd2 nCurPinNum nCurErrorType nCurWithLoad h =
     (if nCurErrorType = 0 then
        (if nCurWithLoad = 1 then bind_res (cfg_bits 72 nCurPinNum [8, 12] h) (\<lambda>h. Inr (cfg_pass h))
         else if nCurWithLoad = 0 then
           bind_res (cfg_bits 72 nCurPinNum [8] h) (\<lambda>h. bind_res (cfg_clr_P1 12 h) (\<lambda>h. Inr (cfg_pass h)))
         else Inr (cfg_err 12 h))
      else if nCurErrorType = 1 then bind_res (cfg_bits 72 nCurPinNum [9, 12] h) (\<lambda>h. Inr (cfg_pass h))
      else if nCurErrorType = 2 then bind_res (cfg_bits 72 nCurPinNum [8, 9] h) (cfg_load nCurWithLoad 13)
      else if nCurErrorType = 3 then bind_res (cfg_bits 72 nCurPinNum [10] h) (cfg_load nCurWithLoad 14)
      else if nCurErrorType = 4 then bind_res (cfg_bits 72 nCurPinNum [10, 8] h) (cfg_load nCurWithLoad 15)
      else if nCurErrorType = 5 then bind_res (cfg_bits 72 nCurPinNum [10, 9] h) (cfg_load nCurWithLoad 16)
      else if nCurErrorType = 6 then bind_res (cfg_bits 72 nCurPinNum [10, 9, 8] h) (cfg_load nCurWithLoad 14)
      else Inr (cfg_err 17 (P_init h)))"

definition config_cmd3 :: "u8 \<Rightarrow> u8 \<Rightarrow> u8 \<Rightarrow> host_st \<Rightarrow> (u8 \<times> host_st) res" where
  "config_cmd3 nCurPinNum nCurErrorType nCurWithLoad h =
     (if nCurErrorType = 0 then bind_res (cfg_bits 18 nCurPinNum [8] h) (\<lambda>h. Inr (cfg_pass h))
      else if nCurErrorType = 1 then bind_res (cfg_bits 18 nCurPinNum [9] h) (cfg_load nCurWithLoad 17)
      else if nCurErrorType = 2 then bind_res (cfg_bits 18 nCurPinNum [8, 9] h) (cfg_load nCurWithLoad 18)
      else if nCurErrorType = 3 then Inr (cfg_err 2 (P_init h))
      else Inr (cfg_err 19 (P_init h)))"

definition config_cmd4 :: "host_st \<Rightarrow> u8 \<times> host_st" where
  "config_cmd4 h =
     (let d = g_DataFromHost h;
          h = (if d ! 2 \<noteq> 0
               then h\<lparr>g_bLoose := 1, g_bFreq := 1, g_bDuty := 1, g_Pfreq := d ! 3, g_Pduty := d ! 4\<rparr>
               else h\<lparr>g_Ptime := 0, g_Pfreq := 0, g_Pduty := 0\<rparr>);
          h = (if d ! 5 \<noteq> 0
               then h\<lparr>P4_0 := push_bit 8 (ucast (d ! 7)) OR ucast (d ! 6)\<rparr> else h) in
      cfg_pass h)"

definition McuGetHostConfigInfo :: "host_st \<Rightarrow> (u8 \<times> host_st) res" where
  "McuGetHostConfigInfo h =
     (let d = g_DataFromHost h;
          nCurCommandVal = d ! 0; nCurPinNum = d ! 2; nCurPinNum1 = d ! 5; nCurErrorType = d ! 3;
          nCurWithLoad = d ! 4; nCurCanDataByte6 = d ! 6; nCurCanDataByte7 = d ! 7 in
      bind_res (HostConfigCheck nCurCommandVal (d ! 1) nCurPinNum nCurErrorType nCurWithLoad nCurPinNum1
                  nCurCanDataByte6 nCurCanDataByte7 h) (\<lambda>(result, h).
      if result \<noteq> g_HostConfigPass h then Inr (result, GlobalDataInit h)
      else if nCurCommandVal = 0 then config_cmd0 nCurPinNum nCurErrorType nCurWithLoad h
      else if nCurCommandVal = 1 then config_cmd1 nCurPinNum nCurErrorType nCurWithLoad h
      else if nCurCommandVal = 2 then config_cmd2 nCurPinNum nCurErrorType nCurWithLoad h
      else if nCurCommandVal = 3 then config_cmd3 nCurPinNum nCurErrorType nCurWithLoad h
      else if nCurCommandVal = 4 then Inr (config_cmd4 h)
      else Inr (cfg_pass h)))"

section \<open>Packing the frame\<close>

definition DataAtPxToFiuBytes17 :: "host_st \<Rightarrow> u8 \<times> host_st" where
  "DataAtPxToFiuBytes17 h =
     (let f = g_FiuByte17Data h;
          f = f[0 := 0xbe, 1 := 0xbe, 2 := FIU_CurCmd h];
          f = fold (\<lambda>i f. f[3 + i := le_bytes 8 (P0 h) ! i]) [0..<8] f;
          f = fold (\<lambda>i f. f[11 + i := le_bytes 2 (P1 h) ! i]) [0..<2] f;
          f = f[13 := ucast (drop_bit 8 (P4_0 h)), 14 := ucast (P4_0 h AND 0xff), 15 := 0xed, 16 := 0xed] in
      (0, h\<lparr>g_FiuByte17Data := f\<rparr>))"

section \<open>The bit routines\<close>

lemma PinSet_eq:
  "McuFault64BitValuePinSet v p = (if p < 64 then Inr (v OR push_bit (unat p) 1) else Inl OutOfBounds)"
proof (cases "p < 64")
  case True
  then have p: "unat p div 8 < 8" "unat p < 64" by (simp_all add: word_less_nat_alt)
  have "bit (of_le_bytes ((replicate 8 0)[unat p div 8 := push_bit (unat p mod 8) 1]) :: u64) n
      \<longleftrightarrow> bit (push_bit (unat p) 1 :: u64) n" if n: "n < 64" for n
  proof -
    have "n div 8 < 8" using n by simp
    moreover have "n div 8 = unat p div 8 \<Longrightarrow> n mod 8 = unat p mod 8 \<longleftrightarrow> n = unat p"
      by (metis div_mult_mod_eq)
    ultimately show ?thesis using n p
      by (auto simp: bit_of_le_bytes nth_list_update bit_push_bit_iff bit_exp_iff split: if_splits)
  qed
  then have "of_le_bytes ((replicate 8 0)[unat p div 8 := push_bit (unat p mod 8) 1]) = (push_bit (unat p) 1 :: u64)"
    by (intro bit_word_eqI) simp
  with True p show ?thesis
    by (simp add: McuFault64BitValuePinSet_def Let_def or.commute)
next
  case False
  then have "64 \<le> unat p" by (simp add: word_less_nat_alt)
  then have "8 \<le> unat p div 8" by simp
  with False show ?thesis by (simp add: McuFault64BitValuePinSet_def arr_get_Inl)
qed

lemma PinClr_eq:
  "McuFault64BitValuePinClr v p = (if p < 64 then Inr (v AND NOT (push_bit (unat p) 1)) else Inl OutOfBounds)"
proof (cases "p < 64")
  case True
  then have p: "unat p div 8 < 8" "unat p < 64" by (simp_all add: word_less_nat_alt)
  have "(0xFF :: u8) = - 1" by simp
  then have ff: "bit (0xFF :: u8) (k mod 8)" for k by (simp only: bit_minus_1_iff) simp
  have "bit (of_le_bytes ((replicate 8 0xFF)[unat p div 8 := 0xFF AND NOT (push_bit (unat p mod 8) 1)]) :: u64) n
      \<longleftrightarrow> bit (NOT (push_bit (unat p) 1) :: u64) n" if n: "n < 64" for n
  proof -
    have "n div 8 < 8" using n by simp
    moreover have "n div 8 = unat p div 8 \<Longrightarrow> n mod 8 = unat p mod 8 \<longleftrightarrow> n = unat p"
      by (metis div_mult_mod_eq)
    ultimately show ?thesis using n p ff[of n]
      by (auto simp: bit_of_le_bytes nth_list_update bit_and_iff bit_not_iff bit_push_bit_iff bit_exp_iff
          split: if_splits)
  qed
  then have "of_le_bytes ((replicate 8 0xFF)[unat p div 8 := 0xFF AND NOT (push_bit (unat p mod 8) 1)])
      = (NOT (push_bit (unat p) 1) :: u64)"
    by (intro bit_word_eqI) simp
  with True p show ?thesis
    by (simp add: McuFault64BitValuePinClr_def Let_def and.commute)
next
  case False
  then have "64 \<le> unat p" by (simp add: word_less_nat_alt)
  then have "8 \<le> unat p div 8" by simp
  with False show ?thesis by (simp add: McuFault64BitValuePinClr_def arr_get_Inl)
qed

section \<open>Well-formed configuration state\<close>

text \<open>Arrays of their declared lengths, and the error table as \<open>ErrorNumInit\<close> leaves it.\<close>

definition host_wf :: "host_st \<Rightarrow> bool" where
  "host_wf h \<longleftrightarrow> length (g_FiuByte17Data h) = 17 \<and> length (g_DataFromHost h) = 8 \<and>
     length (FIU_Cmd0_CurPinFlag h) = 80 \<and> set (FIU_Cmd0_CurPinFlag h) \<subseteq> {0, 1} \<and>
     g_HostConfigPass h = 0 \<and>
     length (g_HostConfigErr h) = 80 \<and> (\<forall>k < 80. g_HostConfigErr h ! k = of_nat k + 0x81)"

text \<open>An empty configuration: what \<open>GlobalDataInit\<close> leaves, up to fields that no operation reads.\<close>

definition cfg_empty :: "host_st \<Rightarrow> bool" where
  "cfg_empty h \<longleftrightarrow> P0 h = 0 \<and> P1 h = 0 \<and> P4_0 h = 0 \<and> g_Ptime h = 0 \<and> g_Pfreq h = 0 \<and> g_Pduty h = 0"

definition session_fresh :: "host_st \<Rightarrow> bool" where
  "session_fresh h \<longleftrightarrow> FIU_CurCmd h = 255 \<and> FIU_Cmd0_CurErrorType h = - 1 \<and>
     FIU_Cmd0_CurPinFlag h = replicate 80 0 \<and> FIU_Cmd1_Flag h = 0 \<and> FIU_Cmd2_Flag h = 0 \<and>
     FIU_Cmd2_ErrorType0Flag h = 0 \<and> FIU_Cmd2_ErrorType0Cnt h = 0 \<and> FIU_Cmd3_Flag h = 0 \<and>
     FIU_Cmd3_ErrorType3Flag h = 0 \<and> FIU_Cmd3_ErrorType3Cnt h = 0 \<and> FIU_Cmd4_ResistanceFlag h = 0"

lemma fold_fill:
  "n \<le> length xs \<Longrightarrow> fold (\<lambda>i xs. xs[i := f i]) [0..<n] xs = map f [0..<n] @ drop n xs"
proof (induction n)
  case 0
  then show ?case by simp
next
  case (Suc n)
  then have "drop n xs = xs ! n # drop (Suc n) xs" by (simp add: Cons_nth_drop_Suc)
  with Suc show ?case by (simp add: list_update_append)
qed

lemma map_const_upt: "map (\<lambda>_. v) [0..<n] = replicate n v"
  by (simp add: map_replicate_const)

lemma host_wf_inits [simp]:
  "host_wf h \<Longrightarrow> host_wf (P_init h)"
  "host_wf h \<Longrightarrow> host_wf (FIU_Cmd0_CurPinFlag_init h)"
  "host_wf h \<Longrightarrow> host_wf (GlobalDataInit h)"
  by (simp_all add: host_wf_def P_init_def FIU_Cmd0_CurPinFlag_init_def GlobalDataInit_def fold_fill
      image_subset_iff)

lemma P_init_empty [simp]: "cfg_empty (P_init h)"
  by (simp add: cfg_empty_def P_init_def)

lemma CurPinFlag_init_fresh [simp]:
  "host_wf h \<Longrightarrow> session_fresh (FIU_Cmd0_CurPinFlag_init h)"
  "cfg_empty (FIU_Cmd0_CurPinFlag_init h) = cfg_empty h"
  by (simp_all add: session_fresh_def FIU_Cmd0_CurPinFlag_init_def host_wf_def fold_fill map_const_upt
      cfg_empty_def del: upt_Suc)

lemma ErrorNumInit_wf:
  "host_wf (ErrorNumInit host_zero)"
  by (simp add: host_wf_def ErrorNumInit_def host_zero_def fold_fill del: upt_Suc)

text \<open>The state the firmware configures in: error table set up, configuration cleared.\<close>

definition host_init :: host_st where
  "host_init = GlobalDataInit (ErrorNumInit host_zero)"

lemma host_init_ok: "host_wf host_init" "session_fresh host_init" "cfg_empty host_init"
  using ErrorNumInit_wf by (simp_all add: host_init_def GlobalDataInit_def)

lemma err_code_nonzero: "k < 80 \<Longrightarrow> of_nat k + 0x81 \<noteq> (0 :: u8) \<and> 0x81 \<le> of_nat k + (0x81 :: u8)"
  by (auto simp: word_le_nat_alt unat_word_ariths unat_of_nat word_unat_eq_iff)

section \<open>What the check accepts\<close>

text \<open>The acceptance condition of a message, stated per command.\<close>

definition accept_cmd0 :: "u8 \<Rightarrow> u8 \<Rightarrow> host_st \<Rightarrow> bool" where
  "accept_cmd0 pin ty h \<longleftrightarrow> pin \<le> 72 \<and> ty \<le> 4 \<and>
     (FIU_Cmd0_CurPinFlag h ! unat pin = 0 \<or>
      ty \<noteq> 0 \<and> FIU_Cmd0_CurErrorType h \<noteq> - 1 \<and> FIU_Cmd0_CurErrorType h \<noteq> ty)"

definition accept_cmd1 :: "u8 \<Rightarrow> u8 \<Rightarrow> u8 \<Rightarrow> host_st \<Rightarrow> bool" where
  "accept_cmd1 pin ty ld h \<longleftrightarrow> pin \<le> 72 \<and> ld \<le> (if ty = 0 then 0 else 1) \<and> FIU_Cmd1_Flag h = 0"

definition accept_cmd2 :: "u8 \<Rightarrow> u8 \<Rightarrow> u8 \<Rightarrow> host_st \<Rightarrow> bool" where
  "accept_cmd2 pin ty ld h \<longleftrightarrow> pin \<le> 72 \<and> ld \<le> (if ty = 6 then 0 else 1) \<and>
     (if ty = 0 then FIU_Cmd2_ErrorType0Flag h = 0 else FIU_Cmd2_Flag h = 0)"

definition accept_cmd3 :: "u8 \<Rightarrow> u8 \<Rightarrow> u8 \<Rightarrow> host_st \<Rightarrow> bool" where
  "accept_cmd3 pin ty ld h \<longleftrightarrow> ld \<le> (if ty = 0 then 0 else 1) \<and>
     (if ty = 3 then FIU_Cmd3_ErrorType3Flag h = 0 else pin \<le> 72 \<and> FIU_Cmd3_Flag h = 0)"

definition accept_cmd4 :: "u8 list \<Rightarrow> host_st \<Rightarrow> bool" where
  "accept_cmd4 d h \<longleftrightarrow>
     (d ! 2 = 1 \<longrightarrow> 2 \<le> d ! 3 \<and> d ! 3 \<le> 99 \<and>
        (if d ! 3 = 2 then 30 \<le> d ! 4 \<and> d ! 4 \<le> 50 else 0 < d ! 4 \<and> d ! 4 \<le> 99)) \<and>
     (d ! 5 = 1 \<longrightarrow> FIU_Cmd4_ResistanceFlag h = 0 \<and>
        (push_bit 8 (ucast (d ! 7)) OR ucast (d ! 6) :: u16) \<le> 32000)"

definition accepts :: "u8 list \<Rightarrow> host_st \<Rightarrow> bool" where
  "accepts d h \<longleftrightarrow> d ! 1 \<le> 16 \<and> (d ! 0 = 4 \<or> FIU_CurCmd h = 255 \<or> FIU_CurCmd h = d ! 0) \<and>
     (d ! 0 = 0 \<longrightarrow> accept_cmd0 (d ! 2) (d ! 3) h) \<and>
     (d ! 0 = 1 \<longrightarrow> accept_cmd1 (d ! 2) (d ! 3) (d ! 4) h) \<and>
     (d ! 0 = 2 \<longrightarrow> accept_cmd2 (d ! 2) (d ! 3) (d ! 4) h) \<and>
     (d ! 0 = 3 \<longrightarrow> accept_cmd3 (d ! 2) (d ! 3) (d ! 4) h) \<and>
     (d ! 0 = 4 \<longrightarrow> accept_cmd4 d h)"

text \<open>The part of the state that the check never changes.\<close>

definition cfg_data :: "host_st \<Rightarrow> (u64 \<times> u64 \<times> u16) \<times> (u16 \<times> u8 \<times> u8 \<times> u8) \<times> u8 list \<times> u8 list \<times> u8" where
  "cfg_data h = ((P0 h, P1 h, P4_0 h), (g_Ptime h, g_Pfreq h, g_Pduty h, g_bLoose h), g_DataFromHost h,
     g_FiuByte17Data h, g_WorkMode h)"

text \<open>\<open>check_ok h acc r\<close>: a check result is pass exactly under \<open>acc\<close>, an error code
  otherwise, and keeps state and configuration.\<close>

definition check_ok :: "host_st \<Rightarrow> bool \<Rightarrow> u8 \<times> host_st \<Rightarrow> bool" where
  "check_ok h acc r \<longleftrightarrow> (if acc then fst r = 0 else 0x81 \<le> fst r) \<and> host_wf (snd r) \<and> cfg_data (snd r) = cfg_data h"

lemma check_ok_err [simp]: "host_wf h \<Longrightarrow> k < 80 \<Longrightarrow> check_ok h acc (cfg_err k h) \<longleftrightarrow> \<not> acc"
  by (auto simp: check_ok_def cfg_err_def host_wf_def err_code_nonzero)

lemma check_ok_pass:
  "host_wf h' \<Longrightarrow> cfg_data h' = cfg_data h \<Longrightarrow> check_ok h acc (cfg_pass h') \<longleftrightarrow> acc"
  by (auto simp: check_ok_def cfg_pass_def host_wf_def)

lemma sint_u8_eq: "sint (w :: u8) = - 1 \<longleftrightarrow> w = - 1" "ty \<le> 4 \<Longrightarrow> sint w = uint (ty :: u8) \<longleftrightarrow> w = ty"
proof -
  show "sint w = - 1 \<longleftrightarrow> w = - 1" by (metis sint_n1 signed_word_eqI)
  assume "ty \<le> 4"
  then have "ty \<in> {0, 1, 2, 3, 4}" by (auto simp: word_le_nat_alt word_unat_eq_iff)
  then have "sint ty = uint ty" by auto
  then show "sint w = uint ty \<longleftrightarrow> w = ty" by (metis signed_word_eqI)
qed

lemma flag_cases:
  assumes "host_wf h" "pin \<le> (72 :: u8)"
  shows "unat pin < length (FIU_Cmd0_CurPinFlag h)"
    "FIU_Cmd0_CurPinFlag h ! unat pin = 0 \<or> FIU_Cmd0_CurPinFlag h ! unat pin = 1"
    "host_wf (h\<lparr>FIU_Cmd0_CurPinFlag := (FIU_Cmd0_CurPinFlag h)[unat pin := 1]\<rparr>)"
    "host_wf (h\<lparr>FIU_Cmd0_CurErrorType := ty, FIU_Cmd0_CurPinFlag := (FIU_Cmd0_CurPinFlag h)[unat pin := 1]\<rparr>)"
proof -
  from assms have len: "length (FIU_Cmd0_CurPinFlag h) = 80" "unat pin \<le> 72" "set (FIU_Cmd0_CurPinFlag h) \<subseteq> {0, 1}"
    by (simp_all add: host_wf_def word_le_nat_alt)
  then show lt: "unat pin < length (FIU_Cmd0_CurPinFlag h)" by simp
  then show "FIU_Cmd0_CurPinFlag h ! unat pin = 0 \<or> FIU_Cmd0_CurPinFlag h ! unat pin = 1"
    using len(3) nth_mem by blast
  have "set ((FIU_Cmd0_CurPinFlag h)[unat pin := 1]) \<subseteq> {0, 1}"
    using len(3) by (intro order_trans[OF set_update_subset_insert]) auto
  then show "host_wf (h\<lparr>FIU_Cmd0_CurPinFlag := (FIU_Cmd0_CurPinFlag h)[unat pin := 1]\<rparr>)"
    "host_wf (h\<lparr>FIU_Cmd0_CurErrorType := ty, FIU_Cmd0_CurPinFlag := (FIU_Cmd0_CurPinFlag h)[unat pin := 1]\<rparr>)"
    using assms(1) by (simp_all add: host_wf_def)
qed

lemma host_wf_flags [simp]:
  "host_wf (h\<lparr>FIU_CurCmd := v\<rparr>) = host_wf h" "host_wf (h\<lparr>FIU_Cmd1_Flag := v\<rparr>) = host_wf h"
  "host_wf (h\<lparr>FIU_Cmd2_Flag := v\<rparr>) = host_wf h" "host_wf (h\<lparr>FIU_Cmd3_Flag := v\<rparr>) = host_wf h"
  "host_wf (h\<lparr>FIU_Cmd2_ErrorType0Cnt := v\<rparr>) = host_wf h" "host_wf (h\<lparr>FIU_Cmd2_ErrorType0Flag := v\<rparr>) = host_wf h"
  "host_wf (h\<lparr>FIU_Cmd3_ErrorType3Cnt := v\<rparr>) = host_wf h" "host_wf (h\<lparr>FIU_Cmd3_ErrorType3Flag := v\<rparr>) = host_wf h"
  "host_wf (h\<lparr>FIU_Cmd4_FreqDutyFlag := v\<rparr>) = host_wf h" "host_wf (h\<lparr>P0 := w\<rparr>) = host_wf h"
  "host_wf (h\<lparr>P1 := w\<rparr>) = host_wf h"
  by (simp_all add: host_wf_def)

lemma cfg_data_flags [simp]:
  "cfg_data (h\<lparr>FIU_CurCmd := v\<rparr>) = cfg_data h" "cfg_data (h\<lparr>FIU_Cmd1_Flag := v\<rparr>) = cfg_data h"
  "cfg_data (h\<lparr>FIU_Cmd2_Flag := v\<rparr>) = cfg_data h" "cfg_data (h\<lparr>FIU_Cmd3_Flag := v\<rparr>) = cfg_data h"
  "cfg_data (h\<lparr>FIU_Cmd2_ErrorType0Cnt := v\<rparr>) = cfg_data h" "cfg_data (h\<lparr>FIU_Cmd2_ErrorType0Flag := v\<rparr>) = cfg_data h"
  "cfg_data (h\<lparr>FIU_Cmd3_ErrorType3Cnt := v\<rparr>) = cfg_data h" "cfg_data (h\<lparr>FIU_Cmd3_ErrorType3Flag := v\<rparr>) = cfg_data h"
  "cfg_data (h\<lparr>FIU_Cmd4_FreqDutyFlag := v\<rparr>) = cfg_data h" "cfg_data (h\<lparr>FIU_Cmd0_CurErrorType := v\<rparr>) = cfg_data h"
  "cfg_data (h\<lparr>FIU_Cmd0_CurPinFlag := fs\<rparr>) = cfg_data h"
  by (simp_all add: cfg_data_def)

lemma check_cmd0_ok:
  assumes "host_wf h"
  shows "\<exists>r. check_cmd0 pin ty h = Inr r \<and> check_ok h (accept_cmd0 pin ty h) r"
proof (cases "pin > 72 \<or> ty > 4")
  case True
  with assms show ?thesis
    by (auto simp: check_cmd0_def accept_cmd0_def not_le simp del: split_paired_Ex)
next
  case False
  then have p: "pin \<le> 72" "ty \<le> 4" by auto
  from p(2) have "ty \<noteq> - 1" by (auto simp: word_le_nat_alt unsigned_minus_1_eq_mask mask_eq_exp_minus_1)
  note fl = flag_cases[OF assms p(1)]
  show ?thesis
    using assms p \<open>ty \<noteq> - 1\<close> fl sint_u8_eq(1)[of "FIU_Cmd0_CurErrorType h"] sint_u8_eq(2)[OF p(2), of "FIU_Cmd0_CurErrorType h"]
    by (auto simp: check_cmd0_def accept_cmd0_def check_ok_pass not_less simp del: split_paired_Ex)
qed

lemma check_cmd123_ok:
  assumes "host_wf h"
  shows "check_ok h (accept_cmd1 pin ty ld h) (check_cmd1 pin ty ld h)"
    "check_ok h (accept_cmd2 pin ty ld h) (check_cmd2 pin ty ld h)"
    "check_ok h (accept_cmd3 pin ty ld h) (check_cmd3 pin ty ld h)"
  using assms
  by (auto simp: check_cmd1_def accept_cmd1_def check_cmd2_def accept_cmd2_def check_cmd3_def accept_cmd3_def
      check_ok_pass not_less not_le Let_def)

lemma check_cmd4_ok:
  assumes "host_wf h"
  shows "check_ok h (accept_cmd4 d h) (check_cmd4 (d ! 2) (d ! 3) (d ! 4) (d ! 5) (d ! 6) (d ! 7) h)"
proof -
  define h1 where "h1 = (if d ! 2 = 1 then h\<lparr>FIU_Cmd4_FreqDutyFlag := 1\<rparr> else h)"
  have h1: "host_wf h1" "cfg_data h1 = cfg_data h" "FIU_Cmd4_ResistanceFlag h1 = FIU_Cmd4_ResistanceFlag h"
    using assms by (simp_all add: h1_def)
  have ce: "check_ok h acc (cfg_err k h1) \<longleftrightarrow> \<not> acc" if "k < 80" for acc k
    using check_ok_err[OF h1(1) that, of acc] h1(2) by (simp add: check_ok_def)
  have cp: "check_ok h acc (cfg_pass h1) \<longleftrightarrow> acc" for acc
    using check_ok_pass[OF h1(1,2)] by simp
  show ?thesis
    unfolding check_cmd4_def h1_def[symmetric] Let_def
    by (auto simp: ce cp h1(3) accept_cmd4_def not_less not_le word_gt_0)
qed

text \<open>The check as a whole decides the acceptance condition and leaves the configuration alone.\<close>

lemma HostConfigCheck_ok:
  assumes "host_wf h" "d = g_DataFromHost h"
  shows "\<exists>r. HostConfigCheck (d ! 0) (d ! 1) (d ! 2) (d ! 3) (d ! 4) (d ! 5) (d ! 6) (d ! 7) h = Inr r \<and>
    check_ok h (accepts d h) r"
proof -
  define h1 where "h1 = (if d ! 0 \<noteq> 4 then h\<lparr>FIU_CurCmd := d ! 0\<rparr> else h)"
  have wf: "host_wf h1" and cd: "cfg_data h1 = cfg_data h" using assms(1) by (simp_all add: h1_def)
  have lift: "check_ok h1 acc r = check_ok h acc r" for acc r by (simp add: check_ok_def cd)
  have acc: "accept_cmd0 p t (h\<lparr>FIU_CurCmd := v\<rparr>) = accept_cmd0 p t h"
    "accept_cmd1 p t l (h\<lparr>FIU_CurCmd := v\<rparr>) = accept_cmd1 p t l h"
    "accept_cmd2 p t l (h\<lparr>FIU_CurCmd := v\<rparr>) = accept_cmd2 p t l h"
    "accept_cmd3 p t l (h\<lparr>FIU_CurCmd := v\<rparr>) = accept_cmd3 p t l h" for p t l v
    by (simp_all add: accept_cmd0_def accept_cmd1_def accept_cmd2_def accept_cmd3_def)
  note parts = check_cmd0_ok[OF wf, unfolded lift] check_cmd123_ok[OF wf, unfolded lift]
    check_cmd4_ok[OF wf, unfolded lift, of d]
  consider "d ! 1 > 16 \<or> (d ! 0 \<noteq> 4 \<and> FIU_CurCmd h \<noteq> 255 \<and> FIU_CurCmd h \<noteq> d ! 0)"
    | "d ! 1 \<le> 16" "d ! 0 = 4 \<or> FIU_CurCmd h = 255 \<or> FIU_CurCmd h = d ! 0" by fastforce
  then show ?thesis
  proof cases
    case 1
    with assms(1) show ?thesis
      by (auto simp: HostConfigCheck_def accepts_def not_le simp del: split_paired_Ex)
  next
    case 2
    then have eq: "HostConfigCheck (d ! 0) (d ! 1) (d ! 2) (d ! 3) (d ! 4) (d ! 5) (d ! 6) (d ! 7) h =
       (if d ! 0 = 0 then check_cmd0 (d ! 2) (d ! 3) h1
        else if d ! 0 = 1 then Inr (check_cmd1 (d ! 2) (d ! 3) (d ! 4) h1)
        else if d ! 0 = 2 then Inr (check_cmd2 (d ! 2) (d ! 3) (d ! 4) h1)
        else if d ! 0 = 3 then Inr (check_cmd3 (d ! 2) (d ! 3) (d ! 4) h1)
        else if d ! 0 = 4 then Inr (check_cmd4 (d ! 2) (d ! 3) (d ! 4) (d ! 5) (d ! 6) (d ! 7) h1)
        else Inr (cfg_pass h1))"
      by (simp only: HostConfigCheck_def Let_def h1_def not_less[symmetric]) presburger
    have "accepts d h \<longleftrightarrow> (d ! 0 = 0 \<longrightarrow> accept_cmd0 (d ! 2) (d ! 3) h1) \<and>
        (d ! 0 = 1 \<longrightarrow> accept_cmd1 (d ! 2) (d ! 3) (d ! 4) h1) \<and>
        (d ! 0 = 2 \<longrightarrow> accept_cmd2 (d ! 2) (d ! 3) (d ! 4) h1) \<and>
        (d ! 0 = 3 \<longrightarrow> accept_cmd3 (d ! 2) (d ! 3) (d ! 4) h1) \<and> (d ! 0 = 4 \<longrightarrow> accept_cmd4 d h1)"
      using 2 by (simp add: accepts_def acc h1_def)
    then show ?thesis
      unfolding eq using parts check_ok_pass[OF wf cd, of True] by (simp del: split_paired_Ex)
  qed
qed

section \<open>What a message adds to the configuration\<close>

lemma cfg_set_P1_eq [simp]: "b < 64 \<Longrightarrow> cfg_set_P1 b h = Inr (h\<lparr>P1 := P1 h OR push_bit (unat b) 1\<rparr>)"
  by (simp add: cfg_set_P1_def PinSet_eq)

lemma cfg_clr_P1_eq [simp]: "b < 64 \<Longrightarrow> cfg_clr_P1 b h = Inr (h\<lparr>P1 := P1 h AND NOT (push_bit (unat b) 1)\<rparr>)"
  by (simp add: cfg_clr_P1_def PinClr_eq)

text \<open>Where the pin bit goes: \<open>P0\<close>, \<open>P1\<close>, or past the end of the byte array.\<close>

definition mark_pin :: "u8 \<Rightarrow> u8 \<Rightarrow> host_st \<Rightarrow> host_st" where
  "mark_pin limit pin h =
     (if pin < limit then h\<lparr>P0 := P0 h OR push_bit (unat pin) 1\<rparr>
      else h\<lparr>P1 := P1 h OR push_bit (unat (pin - 64)) 1\<rparr>)"

definition pin_off_array :: "u8 \<Rightarrow> u8 \<Rightarrow> bool" where
  "pin_off_array limit pin \<longleftrightarrow> (if pin < limit then 64 \<le> pin else 64 \<le> pin - 64)"

lemma cfg_pin_eq:
  "cfg_pin limit pin h = (if pin_off_array limit pin then Inl OutOfBounds else Inr (mark_pin limit pin h))"
  by (auto simp: cfg_pin_def cfg_set_P1_def PinSet_eq pin_off_array_def mark_pin_def not_less)

text \<open>The fault type is stored as \<open>type + 1\<close> in bits 8 to 11 of \<open>P1\<close>, the load flag in bit 12.\<close>

definition mark_type :: "u8 \<Rightarrow> host_st \<Rightarrow> host_st" where
  "mark_type ty h = h\<lparr>P1 := P1 h OR push_bit 8 (ucast (ty + 1))\<rparr>"

definition mark_load :: "bool \<Rightarrow> host_st \<Rightarrow> host_st" where
  "mark_load ld h = h\<lparr>P1 := (if ld then P1 h OR push_bit 12 1 else P1 h AND NOT (push_bit 12 1))\<rparr>"

lemma cfg_bits_type:
  "cfg_bits limit pin [8] h = bind_res (cfg_pin limit pin h) (\<lambda>h. Inr (mark_type 0 h))"
  "cfg_bits limit pin [9] h = bind_res (cfg_pin limit pin h) (\<lambda>h. Inr (mark_type 1 h))"
  "cfg_bits limit pin [9, 8] h = bind_res (cfg_pin limit pin h) (\<lambda>h. Inr (mark_type 2 h))"
  "cfg_bits limit pin [8, 9] h = bind_res (cfg_pin limit pin h) (\<lambda>h. Inr (mark_type 2 h))"
  "cfg_bits limit pin [10] h = bind_res (cfg_pin limit pin h) (\<lambda>h. Inr (mark_type 3 h))"
  "cfg_bits limit pin [10, 8] h = bind_res (cfg_pin limit pin h) (\<lambda>h. Inr (mark_type 4 h))"
  "cfg_bits limit pin [10, 9] h = bind_res (cfg_pin limit pin h) (\<lambda>h. Inr (mark_type 5 h))"
  "cfg_bits limit pin [10, 9, 8] h = bind_res (cfg_pin limit pin h) (\<lambda>h. Inr (mark_type 6 h))"
  "cfg_bits limit pin [8, 12] h = bind_res (cfg_pin limit pin h) (\<lambda>h. Inr (mark_load True (mark_type 0 h)))"
  "cfg_bits limit pin [9, 12] h = bind_res (cfg_pin limit pin h) (\<lambda>h. Inr (mark_load True (mark_type 1 h)))"
  by (cases "cfg_pin limit pin h"; simp add: cfg_bits_def mark_type_def mark_load_def or.assoc)+

lemma cfg_load_eq:
  "cfg_load ld k h = Inr (if ld \<le> 1 then cfg_pass (mark_load (ld = 1) h) else cfg_err k (P_init h))"
proof -
  have "ld \<le> 1 \<longleftrightarrow> ld = 0 \<or> ld = 1" by (auto simp: word_le_nat_alt word_unat_eq_iff)
  then show ?thesis by (auto simp: cfg_load_def mark_load_def)
qed

text \<open>The configuration step of commands 0 to 3 after a successful check.\<close>

definition type_limit :: "u8 \<Rightarrow> u8" where
  "type_limit cmd = (if cmd = 2 then 6 else if cmd = 3 then 2 else 4)"

definition pin_limit :: "u8 \<Rightarrow> u8" where
  "pin_limit cmd = (if cmd = 3 then 18 else 72)"

definition config_step :: "u8 \<Rightarrow> u8 \<Rightarrow> u8 \<Rightarrow> u8 \<Rightarrow> host_st \<Rightarrow> host_st" where
  "config_step cmd pin ty ld h =
     (let h = mark_type ty (mark_pin (pin_limit cmd) pin h) in
      if ty = 0 \<and> cmd \<noteq> 2 then h else mark_load (ld = 1 \<or> cmd = 2 \<and> ty = 1) h)"

lemma P_init_marks [simp]:
  "P_init (mark_pin l p h) = P_init h" "P_init (mark_type ty h) = P_init h"
  by (simp_all add: P_init_def mark_pin_def mark_type_def)

lemma u8_le_4: "ty \<le> 4 \<longleftrightarrow> ty \<in> {0, 1, 2, 3, 4}" for ty :: u8
  by (auto simp: word_le_nat_alt word_unat_eq_iff)

lemma u8_le_6: "ty \<le> 6 \<longleftrightarrow> ty \<in> {0, 1, 2, 3, 4, 5, 6}" for ty :: u8
  by (auto simp: word_le_nat_alt word_unat_eq_iff)

lemma u8_le_2: "ty \<le> 2 \<longleftrightarrow> ty \<in> {0, 1, 2}" for ty :: u8
  by (auto simp: word_le_nat_alt word_unat_eq_iff)

lemma u8_le_1: "ty \<le> 1 \<longleftrightarrow> ty \<in> {0, 1}" for ty :: u8
  by (auto simp: word_le_nat_alt word_unat_eq_iff)

lemma config_cmd0_eq:
  "config_cmd0 pin ty ld h =
     (if \<not> ty \<le> 4 then Inr (cfg_err 6 (P_init h))
      else if pin_off_array 72 pin then Inl OutOfBounds
      else if ty = 0 \<or> ld \<le> 1 then Inr (cfg_pass (config_step 0 pin ty ld h))
      else Inr (cfg_err (unat ty + 1) (P_init h)))"
proof (cases "ty \<le> 4")
  case True
  then have "ty \<in> {0, 1, 2, 3, 4}" by (simp add: u8_le_4)
  then show ?thesis
    by (auto simp: config_cmd0_def cfg_bits_type cfg_pin_eq cfg_load_eq config_step_def pin_limit_def
        simp del: One_nat_def)
next
  case False
  then have "ty \<notin> {0, 1, 2, 3, 4}" by (simp add: u8_le_4)
  with False show ?thesis by (simp add: config_cmd0_def)
qed

lemma config_cmd1_eq:
  assumes "ld \<le> 1"
  shows "config_cmd1 pin ty ld h =
     (if \<not> ty \<le> 4 then Inr (cfg_err 11 (P_init h))
      else if pin_off_array 72 pin then Inl OutOfBounds
      else Inr (cfg_pass (config_step 1 pin ty ld h)))"
proof (cases "ty \<le> 4")
  case True
  then have "ty \<in> {0, 1, 2, 3, 4}" by (simp add: u8_le_4)
  then show ?thesis
    using assms by (auto simp: config_cmd1_def cfg_bits_type cfg_pin_eq cfg_load_eq config_step_def pin_limit_def)
next
  case False
  then have "ty \<notin> {0, 1, 2, 3, 4}" by (simp add: u8_le_4)
  with False show ?thesis by (simp add: config_cmd1_def)
qed

lemma config_cmd2_eq:
  assumes "ld \<le> 1"
  shows "config_cmd2 pin ty ld h =
     (if \<not> ty \<le> 6 then Inr (cfg_err 17 (P_init h))
      else if pin_off_array 72 pin then Inl OutOfBounds
      else Inr (cfg_pass (config_step 2 pin ty ld h)))"
proof (cases "ty \<le> 6")
  case True
  then have "ty \<in> {0, 1, 2, 3, 4, 5, 6}" by (simp add: u8_le_6)
  moreover have "ld = 0 \<or> ld = 1" using assms by (simp add: u8_le_1)
  moreover have "cfg_clr_P1 12 h = Inr (mark_load False h)" for h by (simp add: mark_load_def)
  ultimately show ?thesis
    by (auto simp: config_cmd2_def cfg_bits_type cfg_pin_eq cfg_load_eq config_step_def pin_limit_def
        simp del: cfg_clr_P1_eq)
next
  case False
  then have "ty \<notin> {0, 1, 2, 3, 4, 5, 6}" by (simp add: u8_le_6)
  with False show ?thesis by (simp add: config_cmd2_def)
qed

lemma config_cmd3_eq:
  assumes "ld \<le> 1"
  shows "config_cmd3 pin ty ld h =
     (if \<not> ty \<le> 2 then Inr (cfg_err (if ty = 3 then 2 else 19) (P_init h))
      else if pin_off_array 18 pin then Inl OutOfBounds
      else Inr (cfg_pass (config_step 3 pin ty ld h)))"
proof (cases "ty \<le> 2")
  case True
  then have "ty \<in> {0, 1, 2}" by (simp add: u8_le_2)
  then show ?thesis
    using assms by (auto simp: config_cmd3_def cfg_bits_type cfg_pin_eq cfg_load_eq config_step_def pin_limit_def)
next
  case False
  then have "ty \<notin> {0, 1, 2}" by (simp add: u8_le_2)
  with False show ?thesis by (simp add: config_cmd3_def)
qed

text \<open>The decoder, case by case.\<close>

definition load_ok :: "u8 list \<Rightarrow> bool" where
  "load_ok d \<longleftrightarrow> (d ! 0 = 0 \<longrightarrow> d ! 3 = 0 \<or> d ! 4 \<le> 1)"

lemma accepts_load: "accepts d h \<Longrightarrow> d ! 0 \<in> {1, 2, 3} \<Longrightarrow> d ! 4 \<le> 1"
  by (auto simp: accepts_def accept_cmd1_def accept_cmd2_def accept_cmd3_def u8_le_1 split: if_splits)

lemma McuGet_rejected:
  assumes "host_wf h" "\<not> accepts (g_DataFromHost h) h"
  shows "\<exists>r h1. McuGetHostConfigInfo h = Inr (r, GlobalDataInit h1) \<and> 0x81 \<le> r \<and> host_wf h1 \<and>
    cfg_data h1 = cfg_data h"
proof -
  from HostConfigCheck_ok[OF assms(1) refl] assms(2) obtain r h1 where
    "HostConfigCheck (g_DataFromHost h ! 0) (g_DataFromHost h ! 1) (g_DataFromHost h ! 2)
       (g_DataFromHost h ! 3) (g_DataFromHost h ! 4) (g_DataFromHost h ! 5) (g_DataFromHost h ! 6)
       (g_DataFromHost h ! 7) h = Inr (r, h1)" "0x81 \<le> r" "host_wf h1" "cfg_data h1 = cfg_data h"
    by (auto simp: check_ok_def)
  moreover from this have "r \<noteq> g_HostConfigPass h1" by (auto simp: host_wf_def)
  ultimately show ?thesis by (auto simp: McuGetHostConfigInfo_def Let_def)
qed

lemma McuGet_accepted:
  assumes "host_wf h" "accepts (g_DataFromHost h) h" and d: "d = g_DataFromHost h"
  shows "\<exists>h1. host_wf h1 \<and> cfg_data h1 = cfg_data h \<and>
    HostConfigCheck (d ! 0) (d ! 1) (d ! 2) (d ! 3) (d ! 4) (d ! 5) (d ! 6) (d ! 7) h = Inr (0, h1) \<and>
    McuGetHostConfigInfo h =
      (if d ! 0 \<le> 3 then
         (if \<not> d ! 3 \<le> type_limit (d ! 0)
          then Inr (cfg_err (if d ! 0 = 0 then 6 else if d ! 0 = 1 then 11 else if d ! 0 = 2 then 17
                             else if d ! 3 = 3 then 2 else 19) (P_init h1))
          else if pin_off_array (pin_limit (d ! 0)) (d ! 2) then Inl OutOfBounds
          else if load_ok d then Inr (cfg_pass (config_step (d ! 0) (d ! 2) (d ! 3) (d ! 4) h1))
          else Inr (cfg_err (unat (d ! 3) + 1) (P_init h1)))
       else if d ! 0 = 4 then Inr (config_cmd4 h1) else Inr (cfg_pass h1))"
proof -
  from HostConfigCheck_ok[OF assms(1) d] assms(2) obtain h1 where
    h1: "HostConfigCheck (d ! 0) (d ! 1) (d ! 2) (d ! 3) (d ! 4) (d ! 5) (d ! 6) (d ! 7) h = Inr (0, h1)"
    "host_wf h1" "cfg_data h1 = cfg_data h"
    by (auto simp: check_ok_def d)
  then have pass: "g_HostConfigPass h1 = 0" by (simp add: host_wf_def)
  have ld: "d ! 0 \<in> {1, 2, 3} \<Longrightarrow> d ! 4 \<le> 1" using accepts_load assms(2) d by blast
  have "d ! 0 \<le> 3 \<longleftrightarrow> d ! 0 \<in> {0, 1, 2, 3}" by (auto simp: word_le_nat_alt word_unat_eq_iff)
  then consider "d ! 0 = 0" | "d ! 0 = 1" | "d ! 0 = 2" | "d ! 0 = 3" | "d ! 0 \<notin> {0, 1, 2, 3}" "\<not> d ! 0 \<le> 3" by auto
  then have "McuGetHostConfigInfo h =
      (if d ! 0 \<le> 3 then
         (if \<not> d ! 3 \<le> type_limit (d ! 0)
          then Inr (cfg_err (if d ! 0 = 0 then 6 else if d ! 0 = 1 then 11 else if d ! 0 = 2 then 17
                             else if d ! 3 = 3 then 2 else 19) (P_init h1))
          else if pin_off_array (pin_limit (d ! 0)) (d ! 2) then Inl OutOfBounds
          else if load_ok d then Inr (cfg_pass (config_step (d ! 0) (d ! 2) (d ! 3) (d ! 4) h1))
          else Inr (cfg_err (unat (d ! 3) + 1) (P_init h1)))
       else if d ! 0 = 4 then Inr (config_cmd4 h1) else Inr (cfg_pass h1))"
    by cases (use h1(1) pass ld in \<open>simp_all add: McuGetHostConfigInfo_def Let_def flip: d,
        simp_all add: config_cmd0_eq config_cmd1_eq config_cmd2_eq config_cmd3_eq type_limit_def pin_limit_def load_ok_def\<close>)
  with h1 show ?thesis by blast
qed

text \<open>The outcomes of decoding an accepted message, without the conditions.\<close>

lemma McuGet_outcome:
  assumes "host_wf h" "accepts (g_DataFromHost h) h"
  obtains (fault) "McuGetHostConfigInfo h = Inl OutOfBounds"
  | (add) h1 a b c e where "host_wf h1" "cfg_data h1 = cfg_data h"
      "McuGetHostConfigInfo h = Inr (cfg_pass (config_step a b c e h1))"
  | (err) h1 k where "host_wf h1" "cfg_data h1 = cfg_data h" "k < 80"
      "McuGetHostConfigInfo h = Inr (cfg_err k (P_init h1))"
  | (loose) h1 where "host_wf h1" "cfg_data h1 = cfg_data h" "McuGetHostConfigInfo h = Inr (config_cmd4 h1)"
  | (other) h1 where "host_wf h1" "cfg_data h1 = cfg_data h" "McuGetHostConfigInfo h = Inr (cfg_pass h1)"
proof -
  let ?d = "g_DataFromHost h"
  define k where "k = (if ?d ! 0 = 0 then 6 else if ?d ! 0 = 1 then 11 else if ?d ! 0 = 2 then 17
                       else if ?d ! 3 = 3 then 2 else (19 :: nat))"
  have k: "k < 80" by (simp add: k_def)
  from McuGet_accepted[OF assms refl, folded k_def] obtain h1 where h1: "host_wf h1" "cfg_data h1 = cfg_data h" and
    r: "McuGetHostConfigInfo h =
      (if ?d ! 0 \<le> 3 then
         (if \<not> ?d ! 3 \<le> type_limit (?d ! 0) then Inr (cfg_err k (P_init h1))
          else if pin_off_array (pin_limit (?d ! 0)) (?d ! 2) then Inl OutOfBounds
          else if load_ok ?d then Inr (cfg_pass (config_step (?d ! 0) (?d ! 2) (?d ! 3) (?d ! 4) h1))
          else Inr (cfg_err (unat (?d ! 3) + 1) (P_init h1)))
       else if ?d ! 0 = 4 then Inr (config_cmd4 h1) else Inr (cfg_pass h1))"
    by blast
  have ty: "unat (?d ! 3) + 1 < 80" if "?d ! 3 \<le> type_limit (?d ! 0)"
    using that by (auto simp: type_limit_def word_le_nat_alt split: if_splits)
  show thesis
    by (cases "?d ! 0 \<le> 3"; cases "?d ! 3 \<le> type_limit (?d ! 0)"; cases "pin_off_array (pin_limit (?d ! 0)) (?d ! 2)";
        cases "load_ok ?d"; cases "?d ! 0 = 4")
      (use r k ty fault add[OF h1] err[OF h1] err[OF h1, of "unat (?d ! 3) + 1"] loose[OF h1] other[OF h1] in simp_all)
qed

lemma config_cmd4_keeps [simp]:
  "fst (config_cmd4 h) = g_HostConfigPass h" "host_wf (snd (config_cmd4 h)) = host_wf h"
  "g_DataFromHost (snd (config_cmd4 h)) = g_DataFromHost h" "g_WorkMode (snd (config_cmd4 h)) = g_WorkMode h"
  "g_FiuByte17Data (snd (config_cmd4 h)) = g_FiuByte17Data h"
  by (simp_all add: config_cmd4_def Let_def cfg_pass_def host_wf_def)

section \<open>The frame of a configuration\<close>

definition packed_frame :: "host_st \<Rightarrow> u8 list" where
  "packed_frame h = [0xbe, 0xbe, FIU_CurCmd h] @ le_bytes 8 (P0 h) @ le_bytes 2 (P1 h) @
     [ucast (drop_bit 8 (P4_0 h)), ucast (P4_0 h AND 0xff), 0xed, 0xed]"

lemma DataAtPx_eq:
  assumes "host_wf h"
  shows "DataAtPxToFiuBytes17 h = (0, h\<lparr>g_FiuByte17Data := packed_frame h\<rparr>)"
proof -
  define f0 where "f0 = (g_FiuByte17Data h)[0 := 0xbe, 1 := 0xbe, 2 := FIU_CurCmd h]"
  define f1 where "f1 = fold (\<lambda>i f. f[3 + i := le_bytes 8 (P0 h) ! i]) [0..<8] f0"
  define f2 where "f2 = fold (\<lambda>i f. f[11 + i := le_bytes 2 (P1 h) ! i]) [0..<2] f1"
  have len: "length f0 = 17" "length f1 = 17" "length f2 = 17"
    using assms by (simp_all only: f0_def f1_def f2_def fold_store(1) length_list_update host_wf_def)
  have nth: "f1 ! j = (if 3 \<le> j \<and> j < 11 then le_bytes 8 (P0 h) ! (j - 3) else f0 ! j)"
    "f2 ! j = (if 11 \<le> j \<and> j < 13 then le_bytes 2 (P1 h) ! (j - 11) else f1 ! j)" if "j < 17" for j
    using that len unfolding f1_def f2_def by (simp_all add: fold_store(2) del: upt_Suc)
  have "f2[13 := ucast (drop_bit 8 (P4_0 h)), 14 := ucast (P4_0 h AND 0xff), 15 := 0xed, 16 := 0xed] = packed_frame h"
  proof (rule nth_equalityI)
    fix j assume "j < length (f2[13 := ucast (drop_bit 8 (P4_0 h)), 14 := ucast (P4_0 h AND 0xff), 15 := 0xed, 16 := 0xed])"
    then have j: "j < 17" by (simp add: len)
    have f0: "j < 3 \<Longrightarrow> f0 ! j = [0xbe, 0xbe, FIU_CurCmd h] ! j"
      using len(1) by (auto simp: f0_def nth_list_update less_Suc_eq numeral_eq_Suc)
    from j consider "j < 3" | "3 \<le> j" "j < 11" | "11 \<le> j" "j < 13" | "j = 13" | "j = 14" | "j = 15" | "j = 16"
      by linarith
    then show "f2[13 := ucast (drop_bit 8 (P4_0 h)), 14 := ucast (P4_0 h AND 0xff), 15 := 0xed, 16 := 0xed] ! j
        = packed_frame h ! j"
      by cases (simp_all add: nth[OF j] len nth_list_update packed_frame_def nth_append f0
          less_diff_conv2 flip: numeral_3_eq_3 del: nth_le_bytes append_Cons append_Nil)
  qed (simp add: len packed_frame_def)
  then show ?thesis
    unfolding DataAtPxToFiuBytes17_def Let_def f0_def[symmetric] f1_def[symmetric] f2_def[symmetric] by simp
qed

lemma packed_frame_shape:
  "length (packed_frame h) = 17" "frame_ok (packed_frame h)" "packed_frame h ! 2 = FIU_CurCmd h"
  "packed_frame h ! 12 = ucast (drop_bit 8 (P1 h))"
  "packed_frame h ! 13 = ucast (drop_bit 8 (P4_0 h))" "packed_frame h ! 14 = ucast (P4_0 h)"
  by (simp_all add: packed_frame_def frame_ok_def le_bytes_def upt_rec ucast_low_byte)

text \<open>The frame selects the channels whose configuration bit is set.\<close>

lemma sel_packed_frame:
  "sel_channels (packed_frame h) =
     filter (\<lambda>c. if c < 64 then bit (P0 h) c else bit (P1 h) (c - 64)) [0..<72]"
  unfolding sel_channels_def
proof (rule filter_cong[OF refl])
  fix c assume "c \<in> set [0..<72]"
  then have c: "c < 72" by simp
  have P: "packed_frame h ! (c div 8 + 3) = (if c < 64 then le_bytes 8 (P0 h) ! (c div 8) else le_bytes 2 (P1 h) ! 0)"
    using c by (auto simp: packed_frame_def nth_append nth_Cons' div_less_iff_less_mult)
  show "bit (packed_frame h ! (c div 8 + 3)) (c mod 8) = (if c < 64 then bit (P0 h) c else bit (P1 h) (c - 64))"
  proof (cases "c < 64")
    case True
    then have "c div 8 < 8" by simp
    with True P bit_le_bytes[of "c div 8" 8 "c mod 8" "P0 h"] show ?thesis by simp
  next
    case False
    with c have "c mod 8 = c - 64" by presburger
    with False P c bit_le_bytes[of 0 2 "c mod 8" "P1 h"] show ?thesis by simp
  qed
qed

section \<open>Properties of the configuration\<close>

text \<open>A composite short to supply on channel 5 without load: command 0, work mode 0, pin 5, type 1.\<close>

definition demo_msg :: "u8 list" where
  "demo_msg = [0, 0, 5, 1, 0, 0, 0, 0]"

definition demo_host :: host_st where
  "demo_host = host_init\<lparr>g_DataFromHost := demo_msg\<rparr>"

lemma demo_host_ok:
  "host_wf demo_host" "accepts demo_msg demo_host" "cfg_empty demo_host" "g_DataFromHost demo_host = demo_msg"
  "FIU_Cmd0_CurPinFlag demo_host = replicate 80 0"
  using host_init_ok
  by (simp_all add: demo_host_def demo_msg_def host_wf_def accepts_def accept_cmd0_def session_fresh_def
      cfg_empty_def)

text \<open>
  C4. The plausibility check decides the declarative acceptance condition: it returns 0 exactly
  for the messages that meet it and an error code of at least 0x81 for the others, it never
  faults, and it changes neither the configuration nor the frame.
\<close>

theorem HostConfigCheck_decides:
  assumes "host_wf h" "d = g_DataFromHost h"
  shows "\<exists>r h'. HostConfigCheck (d ! 0) (d ! 1) (d ! 2) (d ! 3) (d ! 4) (d ! 5) (d ! 6) (d ! 7) h = Inr (r, h') \<and>
    (if accepts d h then r = 0 else 0x81 \<le> r) \<and> host_wf h' \<and> cfg_data h' = cfg_data h"
  using HostConfigCheck_ok[OF assms] by (auto simp: check_ok_def)

theorem HostConfigCheck_decides_witness:
  "\<exists>r h'. HostConfigCheck 0 0 5 1 0 0 0 0 demo_host = Inr (r, h') \<and> r = 0 \<and> host_wf h' \<and>
     cfg_data h' = cfg_data demo_host"
  using HostConfigCheck_decides[of demo_host demo_msg] demo_host_ok by (simp add: demo_msg_def)

text \<open>
  C5. When decoding a message leaves the arrays: exactly for an accepted message of a known fault
  type whose pin is 64 to 71 (commands 0 to 2; the pin is below the limit 72, so it goes to the
  8-byte array of \<open>P0\<close>) or 18 to 63 (command 3; the pin is not below 18, so \<open>pin - 64\<close>
  wraps around).
\<close>

theorem McuGetHostConfigInfo_faults_iff:
  assumes "host_wf h" "d = g_DataFromHost h"
  shows "(\<exists>e. McuGetHostConfigInfo h = Inl e) \<longleftrightarrow>
    accepts d h \<and> d ! 0 \<le> 3 \<and> d ! 3 \<le> type_limit (d ! 0) \<and>
    (if d ! 0 = 3 then 18 \<le> d ! 2 \<and> d ! 2 < 64 else 64 \<le> d ! 2 \<and> d ! 2 < 72)"
proof (cases "accepts d h")
  case True
  have pin: "d ! 2 \<le> 72" if "d ! 0 \<le> 3" "d ! 3 \<le> type_limit (d ! 0)"
  proof -
    have "d ! 0 = 0 \<or> d ! 0 = 1 \<or> d ! 0 = 2 \<or> d ! 0 = 3"
      using that(1) by (auto simp: word_le_nat_alt word_unat_eq_iff)
    then show ?thesis using True that(2)
      by (auto simp: accepts_def accept_cmd0_def accept_cmd1_def accept_cmd2_def accept_cmd3_def
          type_limit_def u8_le_2)
  qed
  have off: "pin_off_array (pin_limit (d ! 0)) (d ! 2) \<longleftrightarrow>
      (if d ! 0 = 3 then 18 \<le> d ! 2 \<and> d ! 2 < 64 else 64 \<le> d ! 2 \<and> d ! 2 < 72)" if "d ! 2 \<le> 72"
    using that unfolding pin_off_array_def pin_limit_def
    by (cases "64 \<le> d ! 2") (auto simp: word_le_nat_alt word_less_nat_alt unat_sub_if')
  from McuGet_accepted[OF assms(1) _ assms(2)] True assms(2) show ?thesis
    using pin off by (auto split: if_splits)
next
  case False
  with McuGet_rejected[OF assms(1)] assms(2) show ?thesis by auto
qed

theorem McuGetHostConfigInfo_faults_iff_witness:
  "\<exists>e. McuGetHostConfigInfo (demo_host\<lparr>g_DataFromHost := [0, 0, 64, 1, 0, 0, 0, 0]\<rparr>) = Inl e"
proof -
  let ?h = "demo_host\<lparr>g_DataFromHost := [0, 0, 64, 1, 0, 0, 0, 0]\<rparr>"
  have "host_wf ?h" using demo_host_ok(1) by (simp add: host_wf_def)
  moreover have "accepts (g_DataFromHost ?h) ?h"
    using demo_host_ok(2,5) by (simp add: accepts_def accept_cmd0_def demo_msg_def)
  ultimately show ?thesis using McuGetHostConfigInfo_faults_iff[of ?h "g_DataFromHost ?h"]
    by (simp add: type_limit_def)
qed

text \<open>
  C6. What an accepted message of commands 0 to 3 adds: with a pin below 64 (18 for command 3), a
  known type and a proper load byte the decoder returns 0 and exactly sets the pin's bit of
  \<open>P0\<close>, or-s \<open>type + 1\<close> into bits 8 to 11 of \<open>P1\<close> and writes its load bit 12;
  resistance, time, frequency, duty and frame keep their values.
\<close>

theorem McuGetHostConfigInfo_adds:
  assumes "host_wf h" "d = g_DataFromHost h" "accepts d h" "d ! 0 \<le> 3" "d ! 3 \<le> type_limit (d ! 0)"
    "d ! 2 < (if d ! 0 = 3 then 18 else 64)" "d ! 0 = 0 \<longrightarrow> d ! 4 \<le> 1"
  shows "\<exists>h'. McuGetHostConfigInfo h = Inr (0, h') \<and> host_wf h' \<and>
    P0 h' = P0 h OR push_bit (unat (d ! 2)) 1 \<and>
    P1 h' = (let v = P1 h OR push_bit 8 (ucast (d ! 3 + 1)) in
       if d ! 3 = 0 \<and> d ! 0 \<noteq> 2 then v
       else if d ! 4 = 1 \<or> d ! 0 = 2 \<and> d ! 3 = 1 then v OR push_bit 12 1 else v AND NOT (push_bit 12 1)) \<and>
    snd (cfg_data h') = snd (cfg_data h) \<and> P4_0 h' = P4_0 h"
proof -
  from McuGet_accepted[OF assms(1) _ assms(2)] assms(2,3) obtain h1 where h1: "host_wf h1" "cfg_data h1 = cfg_data h"
    and r: "McuGetHostConfigInfo h = (if pin_off_array (pin_limit (d ! 0)) (d ! 2) then Inl OutOfBounds
          else if load_ok d then Inr (cfg_pass (config_step (d ! 0) (d ! 2) (d ! 3) (d ! 4) h1))
          else Inr (cfg_err (unat (d ! 3) + 1) (P_init h1)))"
    using assms(4,5) by auto
  have pin: "d ! 2 < pin_limit (d ! 0)" "\<not> pin_off_array (pin_limit (d ! 0)) (d ! 2)"
    using assms(6) by (auto simp: pin_off_array_def pin_limit_def word_less_nat_alt word_le_nat_alt split: if_splits)
  have load: "load_ok d" using assms(7) by (simp add: load_ok_def)
  have pass: "g_HostConfigPass h1 = 0" using h1(1) by (simp add: host_wf_def)
  let ?h' = "config_step (d ! 0) (d ! 2) (d ! 3) (d ! 4) h1"
  have "McuGetHostConfigInfo h = Inr (0, ?h')"
    using r pin load pass
    by (simp add: cfg_pass_def config_step_def Let_def mark_type_def mark_pin_def mark_load_def)
  moreover have "host_wf ?h'"
    using h1(1) by (simp add: config_step_def Let_def mark_type_def mark_pin_def mark_load_def)
  moreover have "P0 ?h' = P0 h1 OR push_bit (unat (d ! 2)) 1"
    "P1 ?h' = (let v = P1 h1 OR push_bit 8 (ucast (d ! 3 + 1)) in
       if d ! 3 = 0 \<and> d ! 0 \<noteq> 2 then v
       else if d ! 4 = 1 \<or> d ! 0 = 2 \<and> d ! 3 = 1 then v OR push_bit 12 1 else v AND NOT (push_bit 12 1))"
    "snd (cfg_data ?h') = snd (cfg_data h1)" "P4_0 ?h' = P4_0 h1"
    using pin(1) by (simp_all add: config_step_def Let_def mark_type_def mark_pin_def mark_load_def cfg_data_def)
  moreover have "P0 h1 = P0 h" "P1 h1 = P1 h" "P4_0 h1 = P4_0 h"
    using h1(2) by (simp_all add: cfg_data_def)
  ultimately show ?thesis using h1(2) by metis
qed

theorem McuGetHostConfigInfo_adds_witness:
  "\<exists>h'. McuGetHostConfigInfo demo_host = Inr (0, h') \<and> host_wf h' \<and> P0 h' = 0x20 \<and> P1 h' = 0x200"
  using McuGetHostConfigInfo_adds[of demo_host demo_msg] demo_host_ok
  by (auto simp: demo_msg_def type_limit_def cfg_empty_def)

text \<open>
  C7. No partial configuration survives an error: whenever decoding returns an error code, the
  pins, the fault type, the resistance, time, frequency and duty are all zero, and the state is
  well formed.
\<close>

theorem McuGetHostConfigInfo_error_clears:
  assumes "host_wf h" "McuGetHostConfigInfo h = Inr (r, h')" "r \<noteq> 0"
  shows "0x81 \<le> r \<and> cfg_empty h' \<and> host_wf h'"
proof (cases "accepts (g_DataFromHost h) h")
  case True
  from assms(1) this show ?thesis
  proof (cases rule: McuGet_outcome)
    case (add h1 a b c e)
    then have "g_HostConfigPass (config_step a b c e h1) = 0"
      by (simp add: host_wf_def config_step_def Let_def mark_type_def mark_pin_def mark_load_def)
    with add assms show ?thesis by (simp add: cfg_pass_def)
  next
    case (err h1 k)
    with assms(2) host_wf_inits(1)[OF err(1)] show ?thesis
      by (auto simp: host_wf_def cfg_err_def err_code_nonzero)
  next
    case (loose h1)
    with assms config_cmd4_keeps(1)[of h1] show ?thesis by (simp add: host_wf_def)
  qed (use assms in \<open>auto simp: host_wf_def cfg_pass_def\<close>)
next
  case False
  with McuGet_rejected[OF assms(1)] assms(2) show ?thesis
    by (auto simp: GlobalDataInit_def)
qed

theorem McuGetHostConfigInfo_error_clears_witness:
  "\<exists>r h'. McuGetHostConfigInfo (demo_host\<lparr>g_DataFromHost := [0, 0, 73, 1, 0, 0, 0, 0]\<rparr>) = Inr (r, h') \<and>
     0x81 \<le> r \<and> cfg_empty h' \<and> host_wf h'"
proof -
  let ?h = "demo_host\<lparr>g_DataFromHost := [0, 0, 73, 1, 0, 0, 0, 0]\<rparr>"
  have wf: "host_wf ?h" using demo_host_ok(1) by (simp add: host_wf_def)
  have "\<not> accepts (g_DataFromHost ?h) ?h" by (simp add: accepts_def accept_cmd0_def)
  from McuGet_rejected[OF wf this] obtain r h1 where
    "McuGetHostConfigInfo ?h = Inr (r, GlobalDataInit h1)" "0x81 \<le> r" by auto
  moreover from this(2) have "r \<noteq> 0" by auto
  ultimately show ?thesis using McuGetHostConfigInfo_error_clears[OF wf] by auto
qed

text \<open>
  C8. Packing a configuration loses nothing: the frame has header, tail and command in place, its
  bytes read back as the two configuration words and the resistance, and the frame processor
  selects from it exactly the channels whose bit is set.
\<close>

theorem DataAtPxToFiuBytes17_roundtrip:
  assumes "host_wf h" "DataAtPxToFiuBytes17 h = (r, h')" "f = g_FiuByte17Data h'"
  shows "r = 0 \<and> length f = 17 \<and> frame_ok f \<and> f ! 2 = FIU_CurCmd h \<and>
    of_le_bytes (take 8 (drop 3 f)) = P0 h \<and> of_le_bytes (take 2 (drop 11 f)) = (ucast (P1 h) :: u16) \<and>
    of_le_bytes [f ! 14, f ! 13] = P4_0 h \<and>
    set (sel_channels f) = {c. c < 64 \<and> bit (P0 h) c} \<union> {c. 64 \<le> c \<and> c < 72 \<and> bit (P1 h) (c - 64)}"
proof -
  from assms have f: "f = packed_frame h" "r = 0" by (auto simp: DataAtPx_eq)
  have "take 8 (drop 3 f) = le_bytes 8 (P0 h)" "take 2 (drop 11 f) = le_bytes 2 (P1 h)"
    by (simp_all add: f packed_frame_def)
  moreover have "le_bytes 2 (P1 h) = le_bytes 2 (ucast (P1 h) :: u16)"
    by (rule nth_equalityI) (auto simp: less_Suc_eq numeral_2_eq_2 intro!: bit_word_eqI
        simp: bit_simps)
  moreover have "[f ! 14, f ! 13] = le_bytes 2 (P4_0 h)"
    by (simp add: f packed_frame_shape le_bytes_def upt_rec)
  moreover have "set (sel_channels f) = {c. c < 64 \<and> bit (P0 h) c} \<union> {c. 64 \<le> c \<and> c < 72 \<and> bit (P1 h) (c - 64)}"
    unfolding f sel_packed_frame by (auto split: if_splits)
  ultimately show ?thesis
    using f packed_frame_shape[of h] by (simp add: of_le_bytes_le_bytes)
qed

theorem DataAtPxToFiuBytes17_roundtrip_witness:
  "\<exists>r h'. DataAtPxToFiuBytes17 (demo_host\<lparr>P0 := 0x20\<rparr>) = (r, h') \<and> r = 0 \<and>
     5 \<in> set (sel_channels (g_FiuByte17Data h'))"
proof -
  have wf: "host_wf (demo_host\<lparr>P0 := 0x20\<rparr>)" using demo_host_ok(1) by simp
  obtain r h' where "DataAtPxToFiuBytes17 (demo_host\<lparr>P0 := 0x20\<rparr>) = (r, h')" by fastforce
  with DataAtPxToFiuBytes17_roundtrip[OF wf this refl] show ?thesis by simp
qed

end
