(* ===== verification/Flash.thy ===== *)
theory Flash
  imports HostConfig
begin

text \<open>
  \<^verbatim>\<open>src/HARDWARE/STMFLASH/stmflash.c\<close> and its clients: the sector table, the
  erase-then-program routine \<open>STMFLASH_Write\<close>, \<open>STMFLASH_Read\<close>, the record writer
  \<open>InfModify\<close> of \<^verbatim>\<open>src/HARDWARE/Fiu/FiuHostDataAnalysis.c\<close> and the two start-up readers
  \<open>IpModifiedCheck\<close> and \<open>CanModifiedCheck\<close> of \<^verbatim>\<open>src/USER/main.c\<close>. The flash
  controller behind the HAL calls is hardware: it is an argument of the model, its behaviour
  the laws of the locale \<open>flash_device\<close>, which a NOR flash meets.
\<close>

section \<open>The controller interface\<close>

text \<open>Word read, sector erase, word program and the final status; \<open>True\<close> is \<open>HAL_OK\<close>.\<close>

record 'f flash_dev =
  fd_read :: "'f \<Rightarrow> u32 \<Rightarrow> u32"
  fd_erase :: "nat \<Rightarrow> 'f \<Rightarrow> bool \<times> 'f"
  fd_program :: "u32 \<Rightarrow> u32 \<Rightarrow> 'f \<Rightarrow> bool \<times> 'f"
  fd_wait :: "'f \<Rightarrow> bool"

section \<open>Sectors, erase, program, read\<close>

definition STM32_FLASH_BASE :: u32 where
  "STM32_FLASH_BASE = 0x08000000"

definition ADDR_FLASH_SECTOR :: "u32 list" where
  "ADDR_FLASH_SECTOR =
     [0x08000000, 0x08004000, 0x08008000, 0x0800C000, 0x08010000, 0x08020000, 0x08040000, 0x08060000,
      0x08080000, 0x080A0000, 0x080C0000, 0x080E0000,
      0x08100000, 0x08104000, 0x08108000, 0x0810C000, 0x08110000, 0x08120000, 0x08140000, 0x08160000,
      0x08180000, 0x081A0000, 0x081C0000, 0x081E0000]"

text \<open>The chain of comparisons with the start of the next sector.\<close>

fun sector_chain :: "nat \<Rightarrow> u32 list \<Rightarrow> u32 \<Rightarrow> nat" where
  "sector_chain k [] addr = k"
| "sector_chain k (a # as) addr = (if addr < a then k else sector_chain (Suc k) as addr)"

definition STMFLASH_GetFlashSector :: "u32 \<Rightarrow> nat" where
  "STMFLASH_GetFlashSector addr = sector_chain 0 (tl ADDR_FLASH_SECTOR) addr"

text \<open>
  The erase loop does not advance after an erase, so it ends only if the erase makes the word
  read back as erased; the model follows it for a number of rounds.
\<close>

primrec erase_loop :: "nat \<Rightarrow> 'f flash_dev \<Rightarrow> u32 \<Rightarrow> u32 \<Rightarrow> 'f \<Rightarrow> 'f res" where
  "erase_loop 0 dev addrx endaddr f = (if addrx < endaddr then Inl NoFuel else Inr f)"
| "erase_loop (Suc n) dev addrx endaddr f =
     (if addrx < endaddr then
        (if fd_read dev f addrx \<noteq> 0xFFFFFFFF then
           (case fd_erase dev (STMFLASH_GetFlashSector addrx) f of
              (ok, f) \<Rightarrow> if ok then erase_loop n dev addrx endaddr f else Inr f)
         else erase_loop n dev (addrx + 4) endaddr f)
      else Inr f)"

fun program_loop :: "'f flash_dev \<Rightarrow> u32 \<Rightarrow> u32 \<Rightarrow> u32 list \<Rightarrow> 'f \<Rightarrow> 'f res" where
  "program_loop dev WriteAddr endaddr [] f = (if WriteAddr < endaddr then Inl OutOfBounds else Inr f)"
| "program_loop dev WriteAddr endaddr (w # ws) f =
     (if WriteAddr < endaddr then
        (case fd_program dev WriteAddr w f of
           (ok, f) \<Rightarrow> if ok then program_loop dev (WriteAddr + 4) endaddr ws f else Inr f)
      else Inr f)"

definition STMFLASH_Write :: "'f flash_dev \<Rightarrow> u32 \<Rightarrow> u32 list \<Rightarrow> u32 \<Rightarrow> 'f \<Rightarrow> 'f res" where
  "STMFLASH_Write dev WriteAddr pBuffer NumToWrite f =
     (if WriteAddr < STM32_FLASH_BASE \<or> WriteAddr mod 4 \<noteq> 0 then Inr f
      else
        (let addrx = WriteAddr;
             endaddr = WriteAddr + NumToWrite * 4 in
         bind_res (if addrx < 0x1FFF0000 then erase_loop (2 * unat NumToWrite) dev addrx endaddr f else Inr f)
           (\<lambda>f. if fd_wait dev f then program_loop dev WriteAddr endaddr pBuffer f else Inr f)))"

primrec STMFLASH_Read :: "'f flash_dev \<Rightarrow> 'f \<Rightarrow> u32 \<Rightarrow> nat \<Rightarrow> u32 list" where
  "STMFLASH_Read dev f ReadAddr 0 = []"
| "STMFLASH_Read dev f ReadAddr (Suc n) = fd_read dev f ReadAddr # STMFLASH_Read dev f (ReadAddr + 4) n"

section \<open>Records\<close>

definition FLASH_PROCHEAD :: u32 where "FLASH_PROCHEAD = 0x080F0000"
definition FLASH_IP_PORT :: u32 where "FLASH_IP_PORT = FLASH_PROCHEAD + 0x30"
definition FLASH_PROCHEAD_CAN :: u32 where "FLASH_PROCHEAD_CAN = FLASH_PROCHEAD + 0x40"
definition FLASH_PROCHEAD_CAN_r :: u32 where "FLASH_PROCHEAD_CAN_r = FLASH_PROCHEAD + 0x80"
definition FLASH_PROCHEAD_WM :: u32 where "FLASH_PROCHEAD_WM = FLASH_PROCHEAD + 0xC0"

text \<open>Byte buffers seen as word buffers and back, as the pointer casts do.\<close>

fun words_of_bytes :: "u8 list \<Rightarrow> u32 list" where
  "words_of_bytes (a # b # c # d # bs) = of_le_bytes [a, b, c, d] # words_of_bytes bs"
| "words_of_bytes _ = []"

definition bytes_of_words :: "u32 list \<Rightarrow> u8 list" where
  "bytes_of_words ws = concat (map (le_bytes 4) ws)"

definition head_mark :: "u8 list \<Rightarrow> u8 list" where
  "head_mark tmp = fold (\<lambda>i t. t[2 * i := 0xaa, 2 * i + 1 := 0x55]) [0..<24] tmp"

definition InfModify :: "'f flash_dev \<Rightarrow> u32 \<Rightarrow> u8 list \<Rightarrow> 'f \<Rightarrow> 'f res" where
  "InfModify dev addr d f =
     (let tmp_flash = replicate 64 0;
          rd = bytes_of_words (STMFLASH_Read dev f addr 12);
          tmp_flash = fold (\<lambda>i t. t[i := rd ! i]) [0..<48] tmp_flash;
          tmp_flash = head_mark tmp_flash;
          tmp_flash = (if addr \<noteq> FLASH_PROCHEAD_WM
                       then tmp_flash[48 := d ! 2, 49 := d ! 3, 50 := d ! 4, 51 := d ! 5]
                       else tmp_flash[48 := d ! 1, 49 := d ! 2, 50 := d ! 3, 51 := d ! 4]) in
      STMFLASH_Write dev addr (words_of_bytes tmp_flash) 16 f)"

text \<open>A header is valid when all 24 byte pairs are the mark.\<close>

definition head_ok :: "u8 list \<Rightarrow> u8 \<Rightarrow> u8" where
  "head_ok tmp fl = fold (\<lambda>i fl. if tmp ! (2 * i) = 0xaa \<and> tmp ! (2 * i + 1) = 0x55 then fl else 0) [0..<24] fl"

record net_st =
  g_IpAllModified :: u8
  g_LocalUdpPort :: u16
  g_IP_ADDR :: "u8 list"
  g_NETMASK_ADDR :: "u8 list"
  g_GW_ADDR :: "u8 list"
  g_CanAllModified :: u8
  g_RemoteCanId :: u32
  g_LocalCanId_r :: u32

definition IpModifiedCheck :: "'f flash_dev \<Rightarrow> 'f \<Rightarrow> net_st \<Rightarrow> net_st" where
  "IpModifiedCheck dev f n =
     (let tmp = bytes_of_words (STMFLASH_Read dev f FLASH_PROCHEAD 12);
          n = n\<lparr>g_IpAllModified := head_ok tmp (g_IpAllModified n)\<rparr> in
      if g_IpAllModified n = 1 then
        (let tmp = bytes_of_words (STMFLASH_Read dev f FLASH_IP_PORT 2) in
         n\<lparr>g_IP_ADDR := [tmp ! 0, tmp ! 1, tmp ! 2, tmp ! 3], g_LocalUdpPort := 50099,
           g_NETMASK_ADDR := [255, 255, 255, 0], g_GW_ADDR := [tmp ! 0, tmp ! 1, tmp ! 2, 1]\<rparr>)
      else n)"

text \<open>\<open>(tmp[51]<<24) | (tmp[50]<<16) | (tmp[49]<<8) | tmp[48]\<close>\<close>

definition can_id_of :: "u8 list \<Rightarrow> u32" where
  "can_id_of tmp = push_bit 24 (ucast (tmp ! 51)) OR push_bit 16 (ucast (tmp ! 50)) OR
     push_bit 8 (ucast (tmp ! 49)) OR ucast (tmp ! 48)"

definition CanModifiedCheck :: "'f flash_dev \<Rightarrow> 'f \<Rightarrow> net_st \<Rightarrow> net_st" where
  "CanModifiedCheck dev f n =
     (let tmp = bytes_of_words (STMFLASH_Read dev f FLASH_PROCHEAD_CAN 16);
          n = n\<lparr>g_CanAllModified := head_ok tmp (g_CanAllModified n)\<rparr>;
          n = (if g_CanAllModified n = 1 then n\<lparr>g_RemoteCanId := can_id_of tmp\<rparr> else n);
          n = n\<lparr>g_CanAllModified := 1\<rparr>;
          tmp = bytes_of_words (STMFLASH_Read dev f FLASH_PROCHEAD_CAN_r 16);
          n = n\<lparr>g_CanAllModified := head_ok tmp (g_CanAllModified n)\<rparr> in
      if g_CanAllModified n = 1 then n\<lparr>g_LocalCanId_r := can_id_of tmp\<rparr> else n)"

section \<open>Sectors\<close>

text \<open>The end of the flash bank, and the addresses of a sector.\<close>

definition flash_end :: u32 where
  "flash_end = 0x08200000"

definition in_flash :: "u32 \<Rightarrow> bool" where
  "in_flash a \<longleftrightarrow> STM32_FLASH_BASE \<le> a \<and> a < flash_end"

lemma sector_chain_bounds:
  "k \<le> sector_chain k as addr \<and> sector_chain k as addr \<le> k + length as"
  by (induction as arbitrary: k) (auto, metis Suc_leD, metis add_Suc)

lemma sector_chain_spec:
  assumes "sorted (map unat as)" "n = sector_chain k as addr - k"
  shows "(\<forall>i < n. as ! i \<le> addr) \<and> (n < length as \<longrightarrow> addr < as ! n)"
  using assms
proof (induction as arbitrary: k n)
  case Nil
  then show ?case by simp
next
  case (Cons a as)
  show ?case
  proof (cases "addr < a")
    case True
    with Cons.prems show ?thesis by simp
  next
    case False
    define m where "m = sector_chain (Suc k) as addr - Suc k"
    have "Suc k \<le> sector_chain (Suc k) as addr" using sector_chain_bounds by blast
    then have n: "n = Suc m" using Cons.prems(2) False by (simp add: m_def)
    have "sorted (map unat as)" using Cons.prems(1) by simp
    from Cons.IH[OF this m_def] False show ?thesis
      unfolding n by (auto simp: less_Suc_eq_0_disj not_less)
  qed
qed

lemma sector_le_23: "STMFLASH_GetFlashSector a \<le> 23"
  using sector_chain_bounds[of 0 "tl ADDR_FLASH_SECTOR" a]
  by (simp add: STMFLASH_GetFlashSector_def ADDR_FLASH_SECTOR_def)

section \<open>A flash device\<close>

text \<open>
  What the reference manual promises: a sector erase makes every word of that sector read as
  \<open>FFFFFFFF\<close> and keeps the others; programming an erased word stores the value and keeps the
  other words; both succeed, and the controller ends without error.
\<close>

locale flash_device =
  fixes dev :: "'f flash_dev"
  assumes erase_ok: "k \<le> 23 \<Longrightarrow> fst (fd_erase dev k f)"
    and read_erase: "k \<le> 23 \<Longrightarrow> in_flash a \<Longrightarrow>
      fd_read dev (snd (fd_erase dev k f)) a =
        (if STMFLASH_GetFlashSector a = k then 0xFFFFFFFF else fd_read dev f a)"
    and program_ok: "in_flash a \<Longrightarrow> a mod 4 = 0 \<Longrightarrow> fst (fd_program dev a w f)"
    and read_program: "in_flash a \<Longrightarrow> a mod 4 = 0 \<Longrightarrow> fd_read dev f a = 0xFFFFFFFF \<Longrightarrow>
      in_flash b \<Longrightarrow> b mod 4 = 0 \<Longrightarrow>
      fd_read dev (snd (fd_program dev a w f)) b = (if b = a then w else fd_read dev f b)"
    and wait_ok: "fd_wait dev f"
begin

text \<open>A sector is dirty for a range of words if one of them lies in it and is not erased.\<close>

definition dirty :: "'f \<Rightarrow> u32 \<Rightarrow> nat \<Rightarrow> u32 \<Rightarrow> bool" where
  "dirty f a n b \<longleftrightarrow> (\<exists>i < n. STMFLASH_GetFlashSector (a + of_nat (4 * i)) = STMFLASH_GetFlashSector b \<and>
     fd_read dev f (a + of_nat (4 * i)) \<noteq> 0xFFFFFFFF)"

lemma dirty_Suc:
  "dirty f a (Suc n) b \<longleftrightarrow>
     (STMFLASH_GetFlashSector a = STMFLASH_GetFlashSector b \<and> fd_read dev f a \<noteq> 0xFFFFFFFF) \<or> dirty f (a + 4) n b"
  unfolding dirty_def by (simp add: Ex_less_Suc2 ac_simps)

lemma range_step:
  assumes "STM32_FLASH_BASE \<le> a" "unat a + 4 * Suc n = unat e" "e \<le> flash_end"
  shows "a < e" "in_flash a" "STM32_FLASH_BASE \<le> a + 4" "unat (a + 4) + 4 * n = unat e"
proof -
  have e: "unat e \<le> 0x08200000" "unat a \<ge> 0x08000000" using assms by (simp_all add: word_le_nat_alt flash_end_def STM32_FLASH_BASE_def)
  show "a < e" using assms(2) by (simp add: word_less_nat_alt)
  with assms(1,3) show "in_flash a" by (simp add: in_flash_def)
  have "unat (a + 4) = unat a + 4" using e assms(2) by (simp add: unat_word_ariths)
  then show "STM32_FLASH_BASE \<le> a + 4" "unat (a + 4) + 4 * n = unat e"
    using assms by (simp_all add: word_le_nat_alt)
qed

lemma range_in_flash:
  assumes "STM32_FLASH_BASE \<le> a" "unat a + 4 * n = unat e" "e \<le> flash_end" "i < n"
  shows "in_flash (a + of_nat (4 * i))" "unat (a + of_nat (4 * i)) = unat a + 4 * i"
proof -
  have e: "unat e \<le> 0x08200000" "unat a \<ge> 0x08000000" using assms by (simp_all add: word_le_nat_alt flash_end_def STM32_FLASH_BASE_def)
  show u: "unat (a + of_nat (4 * i)) = unat a + 4 * i"
    using e assms(2,4) by (simp add: unat_word_ariths unat_of_nat)
  show "in_flash (a + of_nat (4 * i))"
    using u e assms(2,4) by (simp add: in_flash_def word_le_nat_alt word_less_nat_alt STM32_FLASH_BASE_def flash_end_def)
qed

text \<open>An erase leaves the dirtiness of other sectors as it was.\<close>

lemma dirty_erase:
  assumes "STM32_FLASH_BASE \<le> a" "unat a + 4 * n = unat e" "e \<le> flash_end" "k \<le> 23"
    "STMFLASH_GetFlashSector b \<noteq> k"
  shows "dirty (snd (fd_erase dev k f)) a n b = dirty f a n b"
  unfolding dirty_def using range_in_flash(1)[OF assms(1-3)] assms(4,5) by (metis read_erase)

text \<open>One erase clears the words of its sector for good, so each address needs at most two rounds.\<close>

lemma erase_loop_ends:
  assumes "STM32_FLASH_BASE \<le> a" "unat a + 4 * n = unat e" "e \<le> flash_end" "2 * n \<le> fuel"
  shows "\<exists>f'. erase_loop fuel dev a e f = Inr f' \<and>
    (\<forall>b. in_flash b \<longrightarrow> fd_read dev f' b = (if dirty f a n b then 0xFFFFFFFF else fd_read dev f b))"
  using assms
proof (induction n arbitrary: a f fuel)
  case 0
  then have "\<not> a < e" by (simp add: word_less_nat_alt)
  then show ?case by (cases fuel) (simp_all add: dirty_def)
next
  case (Suc n)
  note step = range_step[OF Suc.prems(1-3)]
  obtain m where fuel: "fuel = Suc (Suc m)" "2 * n \<le> m" using Suc.prems(4)
    by (metis Suc_le_D Suc_le_mono mult_Suc_right add_2_eq_Suc)
  show ?case
  proof (cases "fd_read dev f a = 0xFFFFFFFF")
    case True
    have "2 * n \<le> Suc m" using fuel by simp
    from Suc.IH[OF step(3,4) Suc.prems(3) this, of f] True step(1) fuel(1) show ?thesis
      by (simp add: dirty_Suc)
  next
    case False
    let ?k = "STMFLASH_GetFlashSector a"
    obtain f1 where f1: "fd_erase dev ?k f = (True, f1)"
      using erase_ok[OF sector_le_23, of a f] by (metis prod.collapse)
    have rd1: "in_flash b \<Longrightarrow> fd_read dev f1 b = (if STMFLASH_GetFlashSector b = ?k then 0xFFFFFFFF else fd_read dev f b)" for b
      using read_erase[OF sector_le_23, of b a f] f1 by simp
    have d1: "STMFLASH_GetFlashSector b \<noteq> ?k \<Longrightarrow> dirty f1 (a + 4) n b = dirty f (a + 4) n b" for b
      using dirty_erase[OF step(3,4) Suc.prems(3) sector_le_23] f1 by (metis snd_conv)
    from Suc.IH[OF step(3,4) Suc.prems(3) fuel(2), of f1] obtain f' where
      f': "erase_loop m dev (a + 4) e f1 = Inr f'"
      "\<forall>b. in_flash b \<longrightarrow> fd_read dev f' b = (if dirty f1 (a + 4) n b then 0xFFFFFFFF else fd_read dev f1 b)" by blast
    have "erase_loop fuel dev a e f = Inr f'"
      using False step f1 f'(1) rd1[of a] by (simp add: fuel)
    moreover have "fd_read dev f' b = (if dirty f a (Suc n) b then 0xFFFFFFFF else fd_read dev f b)" if "in_flash b" for b
      using f'(2) that rd1[OF that] d1[of b] False by (auto simp: dirty_Suc)
    ultimately show ?thesis by blast
  qed
qed

lemma aligned_add4: "a mod 4 = 0 \<Longrightarrow> unat (a + 4) = unat a + 4 \<Longrightarrow> (a + 4) mod 4 = (0 :: u32)"
  by (simp add: word_unat_eq_iff unat_mod)

text \<open>Programming an erased range stores the buffer and nothing else.\<close>

lemma program_loop_ends:
  assumes "STM32_FLASH_BASE \<le> a" "unat a + 4 * length ws = unat e" "e \<le> flash_end" "a mod 4 = 0"
    "\<forall>i < length ws. fd_read dev f (a + of_nat (4 * i)) = 0xFFFFFFFF"
  shows "\<exists>f'. program_loop dev a e ws f = Inr f' \<and>
    (\<forall>b. in_flash b \<longrightarrow> b mod 4 = 0 \<longrightarrow>
      fd_read dev f' b = (if a \<le> b \<and> b < e then ws ! ((unat b - unat a) div 4) else fd_read dev f b))"
  using assms
proof (induction ws arbitrary: a f)
  case Nil
  then have "a = e" by (simp add: word_unat_eq_iff)
  then show ?case by auto
next
  case (Cons w ws)
  have "unat a + 4 * Suc (length ws) = unat e" using Cons.prems(2) by simp
  note step = range_step[OF Cons.prems(1) this Cons.prems(3)]
  have u4: "unat (a + 4) = unat a + 4" using step(4) Cons.prems(2) by simp
  obtain f1 where f1: "fd_program dev a w f = (True, f1)"
    using program_ok[OF step(2) Cons.prems(4), of w f] by (metis prod.collapse)
  have ff: "fd_read dev f a = 0xFFFFFFFF" using Cons.prems(5)[rule_format, of 0] by simp
  have rd1: "fd_read dev f1 b = (if b = a then w else fd_read dev f b)" if "in_flash b" "b mod 4 = 0" for b
    using read_program[OF step(2) Cons.prems(4) ff that, of w] f1 by simp
  have al: "(a + 4) mod 4 = 0" using aligned_add4[OF Cons.prems(4) u4] .
  have "\<forall>i < length ws. fd_read dev f1 (a + 4 + of_nat (4 * i)) = 0xFFFFFFFF"
  proof (intro allI impI)
    fix i assume i: "i < length ws"
    note r = range_in_flash[OF step(3,4) Cons.prems(3) i]
    have "(a + 4 + of_nat (4 * i)) mod 4 = 0"
      using r(2) al by (simp add: word_unat_eq_iff unat_mod)
    moreover have "a + 4 + of_nat (4 * i) \<noteq> a" using r(2) u4 by (auto simp: word_unat_eq_iff)
    ultimately show "fd_read dev f1 (a + 4 + of_nat (4 * i)) = 0xFFFFFFFF"
      using rd1[OF r(1)] Cons.prems(5)[rule_format, of "Suc i"] i by (simp add: ac_simps)
  qed
  from Cons.IH[OF step(3,4) Cons.prems(3) al this] obtain f' where
    f': "program_loop dev (a + 4) e ws f1 = Inr f'" "\<forall>b. in_flash b \<longrightarrow> b mod 4 = 0 \<longrightarrow>
      fd_read dev f' b = (if a + 4 \<le> b \<and> b < e then ws ! ((unat b - unat (a + 4)) div 4) else fd_read dev f1 b)"
    by blast
  have "fd_read dev f' b = (if a \<le> b \<and> b < e then (w # ws) ! ((unat b - unat a) div 4) else fd_read dev f b)"
    if b: "in_flash b" "b mod 4 = 0" for b
  proof -
    have "unat b mod 4 = 0" "unat a mod 4 = 0" using b(2) Cons.prems(4) by (simp_all add: word_unat_eq_iff unat_mod)
    then have "unat b < unat a \<or> unat b = unat a \<or> unat a + 4 \<le> unat b" by presburger
    then consider "unat b < unat a" | "b = a" | "unat a + 4 \<le> unat b" by (auto simp: word_unat_eq_iff)
    then show ?thesis
    proof cases
      case 3
      then have "(unat b - unat a) div 4 = Suc ((unat b - unat (a + 4)) div 4)" by (simp add: u4 le_div_geq)
      with 3 f'(2) b rd1[OF b] u4 show ?thesis by (auto simp: word_le_nat_alt)
    qed (use f'(2) b rd1[OF b] u4 step(1) in \<open>auto simp: word_le_nat_alt\<close>)
  qed
  with f1 f'(1) step(1) show ?case by auto
qed

lemma write_ends:
  assumes "STM32_FLASH_BASE \<le> a" "a mod 4 = 0" "unat a + 4 * length ws \<le> unat flash_end"
    "n = of_nat (length ws)"
  shows "\<exists>f'. STMFLASH_Write dev a ws n f = Inr f' \<and>
    (\<forall>b. in_flash b \<longrightarrow> b mod 4 = 0 \<longrightarrow> fd_read dev f' b =
      (if unat a \<le> unat b \<and> unat b < unat a + 4 * length ws then ws ! ((unat b - unat a) div 4)
       else if dirty f a (length ws) b then 0xFFFFFFFF else fd_read dev f b))"
proof -
  define e where "e = a + n * 4"
  have base: "unat a \<ge> 0x08000000" "unat flash_end = 0x08200000"
    using assms(1) by (simp_all add: word_le_nat_alt STM32_FLASH_BASE_def flash_end_def)
  have un: "unat n = length ws" using assms(3,4) base by (simp add: unat_of_nat)
  have e: "unat a + 4 * length ws = unat e" using base assms(3) un
    by (simp add: e_def unat_word_ariths)
  then have fe: "e \<le> flash_end" using assms(3) by (simp add: word_le_nat_alt)
  have lt: "a < 0x1FFF0000" using base assms(3) by (simp add: word_less_nat_alt)
  from erase_loop_ends[OF assms(1) e fe order_refl, of f] obtain f1 where
    f1: "erase_loop (2 * length ws) dev a e f = Inr f1"
    "\<forall>b. in_flash b \<longrightarrow> fd_read dev f1 b = (if dirty f a (length ws) b then 0xFFFFFFFF else fd_read dev f b)" by blast
  have "\<forall>i < length ws. fd_read dev f1 (a + of_nat (4 * i)) = 0xFFFFFFFF"
    using f1(2) range_in_flash(1)[OF assms(1) e fe] unfolding dirty_def by metis
  from program_loop_ends[OF assms(1) e fe assms(2) this] obtain f2 where
    f2: "program_loop dev a e ws f1 = Inr f2" "\<forall>b. in_flash b \<longrightarrow> b mod 4 = 0 \<longrightarrow>
      fd_read dev f2 b = (if a \<le> b \<and> b < e then ws ! ((unat b - unat a) div 4) else fd_read dev f1 b)" by blast
  have "STMFLASH_Write dev a ws n f = Inr f2"
    using assms(2) leD[OF assms(1)] lt f1(1) f2(1) wait_ok un
    by (simp add: STMFLASH_Write_def Let_def flip: e_def)
  with f1(2) f2(2) e show ?thesis by (auto simp: word_le_nat_alt word_less_nat_alt)
qed

text \<open>Reading a range word by word.\<close>

lemma read_nth:
  "length (STMFLASH_Read dev f a n) = n"
  "i < n \<Longrightarrow> STMFLASH_Read dev f a n ! i = fd_read dev f (a + of_nat (4 * i))"
proof -
  show "length (STMFLASH_Read dev f a n) = n" by (induction n arbitrary: a) auto
  show "STMFLASH_Read dev f a n ! i = fd_read dev f (a + of_nat (4 * i))" if "i < n"
    using that by (induction n arbitrary: a i) (auto simp: nth_Cons' ac_simps algebra_simps split: nat.splits)
qed

end

section \<open>NOR flash\<close>

text \<open>Programming can only clear bits; an erase sets a sector to ones.\<close>

definition nor_dev :: "(u32 \<Rightarrow> u32) flash_dev" where
  "nor_dev = \<lparr>fd_read = \<lambda>f a. f a,
     fd_erase = \<lambda>k f. (True, \<lambda>a. if in_flash a \<and> STMFLASH_GetFlashSector a = k then 0xFFFFFFFF else f a),
     fd_program = \<lambda>a w f. (True, f(a := f a AND w)),
     fd_wait = \<lambda>f. True\<rparr>"

lemma and_ones: "0xFFFFFFFF AND w = (w :: u32)"
proof -
  have "(0xFFFFFFFF :: u32) = - 1" by simp
  then show ?thesis by (simp only: and.left_neutral)
qed

interpretation nor: flash_device nor_dev
  by unfold_locales (simp_all add: nor_dev_def and_ones)

lemma nor_read [simp]: "fd_read nor_dev f a = f a"
  by (simp add: nor_dev_def)

section \<open>Records in memory\<close>

definition record_bytes :: "u8 list \<Rightarrow> u8 list" where
  "record_bytes v = map (\<lambda>j. if j < 48 then if even j then 0xaa else 0x55
     else if j < 52 then v ! (j - 48) else 0) [0..<64]"

lemma length_bytes_of_words [simp]: "length (bytes_of_words ws) = 4 * length ws"
  by (induction ws) (simp_all add: bytes_of_words_def)

lemma bytes_words_inverse:
  "length bs mod 4 = 0 \<Longrightarrow> bytes_of_words (words_of_bytes bs) = bs"
proof (induction bs rule: words_of_bytes.induct)
  case (1 a b c d bs)
  have le: "le_bytes 4 (of_le_bytes [a, b, c, d] :: u32) = [a, b, c, d]"
  proof (rule nth_equalityI)
    fix i assume "i < length (le_bytes 4 (of_le_bytes [a, b, c, d] :: u32))"
    then have i: "i < 4" by simp
    show "le_bytes 4 (of_le_bytes [a, b, c, d] :: u32) ! i = [a, b, c, d] ! i"
    proof (rule bit_word_eqI)
      fix k assume "k < LENGTH(8)"
      then have k: "k < 8" by simp
      have "(8 * i + k) div 8 = i" "(8 * i + k) mod 8 = k" using k by simp_all
      then show "bit (le_bytes 4 (of_le_bytes [a, b, c, d] :: u32) ! i) k = bit ([a, b, c, d] ! i) k"
        using i k by (simp only: bit_le_bytes bit_of_le_bytes) simp
    qed
  qed simp
  have "length bs mod 4 = 0" using 1(2) by simp
  with 1(1) le show ?case by (simp add: bytes_of_words_def del: of_le_bytes.simps)
qed (auto simp: bytes_of_words_def)

lemma length_words_of_bytes: "length bs mod 4 = 0 \<Longrightarrow> 4 * length (words_of_bytes bs) = length bs"
  using bytes_words_inverse length_bytes_of_words by metis

text \<open>The image that \<open>InfModify\<close> writes does not depend on what was in flash.\<close>

definition host_fields :: "u32 \<Rightarrow> u8 list \<Rightarrow> u8 list" where
  "host_fields addr d = (if addr \<noteq> FLASH_PROCHEAD_WM then [d ! 2, d ! 3, d ! 4, d ! 5] else [d ! 1, d ! 2, d ! 3, d ! 4])"

lemma head_mark_nth:
  assumes "length t = 64"
  shows "length (head_mark t) = 64"
    "j < 64 \<Longrightarrow> head_mark t ! j = (if j < 48 then if even j then 0xaa else 0x55 else t ! j)"
proof -
  have *: "length (fold (\<lambda>i t. t[2 * i := 0xaa, 2 * i + 1 := 0x55]) [0..<n] t) = 64 \<and>
      (\<forall>j < 64. fold (\<lambda>i t. t[2 * i := 0xaa, 2 * i + 1 := 0x55]) [0..<n] t ! j =
        (if j < 2 * n then if even j then 0xaa else 0x55 else t ! j))" if "n \<le> 24" for n
    using that
  proof (induction n)
    case 0
    with assms show ?case by simp
  next
    case (Suc n)
    then show ?case by (auto simp: nth_list_update elim!: evenE oddE)
  qed
  from *[of 24] show "length (head_mark t) = 64"
    "j < 64 \<Longrightarrow> head_mark t ! j = (if j < 48 then if even j then 0xaa else 0x55 else t ! j)"
    by (simp_all add: head_mark_def del: upt_Suc)
qed

lemma InfModify_eq:
  "InfModify dev addr d f = STMFLASH_Write dev addr (words_of_bytes (record_bytes (host_fields addr d))) 16 f"
proof -
  define t0 where "t0 = fold (\<lambda>i t. t[i := bytes_of_words (STMFLASH_Read dev f addr 12) ! i]) [0..<48] (replicate 64 0)"
  have t0: "length t0 = 64" "\<And>j. 48 \<le> j \<Longrightarrow> j < 64 \<Longrightarrow> t0 ! j = 0"
    using fold_store(1)[of 0 48 "replicate 64 0" "\<lambda>i. bytes_of_words (STMFLASH_Read dev f addr 12) ! i"]
      fold_store(2)[of 0 48 "replicate 64 0" _ "\<lambda>i. bytes_of_words (STMFLASH_Read dev f addr 12) ! i"]
    by (simp_all add: t0_def del: upt_Suc)
  note hm = head_mark_nth[OF t0(1)]
  have "(head_mark t0)[48 := a, 49 := b, 50 := c, 51 := e] = record_bytes [a, b, c, e]" for a b c e
  proof (rule nth_equalityI)
    fix j assume "j < length ((head_mark t0)[48 := a, 49 := b, 50 := c, 51 := e])"
    then have j: "j < 64" by (simp add: hm(1))
    then consider "j < 48" | "j = 48" | "j = 49" | "j = 50" | "j = 51" | "52 \<le> j" by linarith
    then show "(head_mark t0)[48 := a, 49 := b, 50 := c, 51 := e] ! j = record_bytes [a, b, c, e] ! j"
      by cases (use j in \<open>simp_all add: hm t0(2) nth_list_update record_bytes_def del: upt_Suc\<close>)
  qed (simp add: hm(1) record_bytes_def)
  then show ?thesis
    unfolding InfModify_def Let_def host_fields_def t0_def[symmetric] by simp
qed

lemma head_ok_all:
  "head_ok tmp fl = (if \<forall>i < 24. tmp ! (2 * i) = 0xaa \<and> tmp ! (2 * i + 1) = 0x55 then fl else 0)"
proof -
  have "fold (\<lambda>i fl. if P i then fl else 0) xs fl = (if \<forall>i \<in> set xs. P i then fl else 0)" for P and xs :: "nat list" and fl :: u8
    by (induction xs arbitrary: fl) auto
  then show ?thesis by (simp add: head_ok_def atLeast0LessThan Ball_def del: upt_Suc)
qed

lemma head_ok_record: "head_ok (record_bytes v) fl = fl"
  by (simp add: head_ok_all record_bytes_def del: upt_Suc)

lemma record_words: "length (words_of_bytes (record_bytes v)) = 16"
  "bytes_of_words (words_of_bytes (record_bytes v)) = record_bytes v"
  using length_words_of_bytes[of "record_bytes v"] bytes_words_inverse[of "record_bytes v"]
  by (simp_all add: record_bytes_def del: upt_Suc)

text \<open>The four records lie in sector 11, aligned and apart.\<close>

definition record_addrs :: "u32 set" where
  "record_addrs = {FLASH_PROCHEAD, FLASH_PROCHEAD_CAN, FLASH_PROCHEAD_CAN_r, FLASH_PROCHEAD_WM}"

lemmas record_addr_defs = FLASH_PROCHEAD_def FLASH_PROCHEAD_CAN_def FLASH_PROCHEAD_CAN_r_def FLASH_PROCHEAD_WM_def

lemma sector_11:
  assumes "0x080E0000 \<le> a" "a < 0x08100000"
  shows "STMFLASH_GetFlashSector a = 11"
proof -
  have "unat a \<ge> 0x080E0000" "unat a < 0x08100000"
    using assms by (simp_all add: word_le_nat_alt word_less_nat_alt)
  then show ?thesis
    by (simp add: STMFLASH_GetFlashSector_def ADDR_FLASH_SECTOR_def word_less_nat_alt)
qed

lemma record_addr_range:
  assumes "addr \<in> record_addrs"
  shows "STM32_FLASH_BASE \<le> addr" "addr mod 4 = 0" "unat addr + 64 \<le> 0x080F0100" "unat addr \<ge> 0x080F0000"
  using assms by (auto simp: record_addrs_def record_addr_defs STM32_FLASH_BASE_def)

lemma record_word:
  assumes "addr \<in> record_addrs" "i < 16"
  shows "unat (addr + of_nat (4 * i)) = unat addr + 4 * i" "in_flash (addr + of_nat (4 * i))"
    "(addr + of_nat (4 * i)) mod 4 = 0" "STMFLASH_GetFlashSector (addr + of_nat (4 * i)) = 11"
proof -
  note r = record_addr_range[OF assms(1)]
  show u: "unat (addr + of_nat (4 * i)) = unat addr + 4 * i"
    using r(3) assms(2) by (simp add: unat_word_ariths unat_of_nat)
  then show "in_flash (addr + of_nat (4 * i))" "STMFLASH_GetFlashSector (addr + of_nat (4 * i)) = 11"
    using r assms(2)
    by (auto simp: in_flash_def word_le_nat_alt word_less_nat_alt STM32_FLASH_BASE_def flash_end_def intro!: sector_11)
  show "(addr + of_nat (4 * i)) mod 4 = 0"
    using u r(2) by (simp add: word_unat_eq_iff unat_mod)
qed

text \<open>Writing a record on a device: its words read back, and the other words of its sector are
  kept or, if the record held anything, lost.\<close>

lemma InfModify_nor:
  assumes "addr \<in> record_addrs"
  shows "\<exists>f'. InfModify nor_dev addr d f = Inr f' \<and>
    STMFLASH_Read nor_dev f' addr 16 = words_of_bytes (record_bytes (host_fields addr d)) \<and>
    (\<forall>addr' \<in> record_addrs. addr' \<noteq> addr \<longrightarrow> (\<forall>i < 16. f' (addr' + of_nat (4 * i)) =
       (if \<exists>j < 16. f (addr + of_nat (4 * j)) \<noteq> 0xFFFFFFFF then 0xFFFFFFFF else f (addr' + of_nat (4 * i)))))"
proof -
  let ?ws = "words_of_bytes (record_bytes (host_fields addr d))"
  note r = record_addr_range[OF assms] and len = record_words(1)[of "host_fields addr d"]
  have "unat addr + 4 * length ?ws \<le> unat flash_end" using r(3) by (simp add: len flash_end_def)
  from nor.write_ends[OF r(1,2) this refl, of f] obtain f' where
    w: "STMFLASH_Write nor_dev addr ?ws 16 f = Inr f'" and
    rd: "\<And>b. in_flash b \<Longrightarrow> b mod 4 = 0 \<Longrightarrow> f' b =
      (if unat addr \<le> unat b \<and> unat b < unat addr + 64 then ?ws ! ((unat b - unat addr) div 4)
       else if nor.dirty f addr 16 b then 0xFFFFFFFF else f b)"
    by (auto simp: len)
  have "STMFLASH_Read nor_dev f' addr 16 = ?ws"
  proof (rule nth_equalityI)
    fix i assume "i < length (STMFLASH_Read nor_dev f' addr 16)"
    then have i: "i < 16" by (simp add: nor.read_nth(1))
    then show "STMFLASH_Read nor_dev f' addr 16 ! i = ?ws ! i"
      using rd[OF record_word(2,3)[OF assms i]] record_word(1)[OF assms i] by (simp add: nor.read_nth(2))
  qed (simp add: nor.read_nth(1) len)
  moreover have "f' (addr' + of_nat (4 * i)) =
       (if \<exists>j < 16. f (addr + of_nat (4 * j)) \<noteq> 0xFFFFFFFF then 0xFFFFFFFF else f (addr' + of_nat (4 * i)))"
    if "addr' \<in> record_addrs" "addr' \<noteq> addr" "i < 16" for addr' i
  proof -
    have apart: "\<not> (unat addr \<le> unat addr' + 4 * i \<and> unat addr' + 4 * i < unat addr + 64)"
      using that assms by (auto simp: record_addrs_def record_addr_defs)
    have d: "nor.dirty f addr 16 (addr' + of_nat (4 * i)) \<longleftrightarrow> (\<exists>j < 16. f (addr + of_nat (4 * j)) \<noteq> 0xFFFFFFFF)"
      unfolding nor.dirty_def using record_word(4)[OF assms] record_word(4)[OF that(1,3)]
      by (metis nor_read)
    show ?thesis
      unfolding rd[OF record_word(2,3)[OF that(1,3)], unfolded record_word(1)[OF that(1,3)]] if_not_P[OF apart] d
      by (rule refl)
  qed
  ultimately show ?thesis using w by (auto simp: InfModify_eq)
qed

section \<open>Properties of the flash records\<close>

text \<open>Blank flash, and a message that sets the remote CAN id to \<open>0x12345678\<close>.\<close>

definition blank :: "u32 \<Rightarrow> u32" where
  "blank = (\<lambda>_. 0xFFFFFFFF)"

definition can_id_msg :: "u8 list" where
  "can_id_msg = [0x19, 0, 0x78, 0x56, 0x34, 0x12, 0, 0]"

text \<open>
  C9. \<open>STMFLASH_Write\<close> ends and stores its buffer: on a NOR flash, for an aligned range inside
  the bank, the erase loop terminates within two rounds per word, the words read back as
  written, and every word outside the range keeps its value unless its sector held a word of
  the range that was not erased, in which case it is lost.
\<close>

theorem STMFLASH_Write_correct:
  assumes "STM32_FLASH_BASE \<le> a" "a mod 4 = 0" "unat a + 4 * length ws \<le> unat flash_end"
  shows "\<exists>f'. STMFLASH_Write nor_dev a ws (of_nat (length ws)) f = Inr f' \<and>
    STMFLASH_Read nor_dev f' a (length ws) = ws \<and>
    (\<forall>b. in_flash b \<and> b mod 4 = 0 \<and> \<not> (unat a \<le> unat b \<and> unat b < unat a + 4 * length ws) \<longrightarrow>
      f' b = (if \<exists>i < length ws. STMFLASH_GetFlashSector (a + of_nat (4 * i)) = STMFLASH_GetFlashSector b \<and>
                 f (a + of_nat (4 * i)) \<noteq> 0xFFFFFFFF then 0xFFFFFFFF else f b))"
proof -
  from nor.write_ends[OF assms refl, of f] obtain f' where
    w: "STMFLASH_Write nor_dev a ws (of_nat (length ws)) f = Inr f'" and
    rd: "\<And>b. in_flash b \<Longrightarrow> b mod 4 = 0 \<Longrightarrow> f' b =
      (if unat a \<le> unat b \<and> unat b < unat a + 4 * length ws then ws ! ((unat b - unat a) div 4)
       else if nor.dirty f a (length ws) b then 0xFFFFFFFF else f b)"
    by auto
  define e :: u32 where "e = of_nat (unat a + 4 * length ws)"
  have "unat a + 4 * length ws < 2 ^ 32" using assms(3) by (simp add: flash_end_def)
  then have e: "unat a + 4 * length ws = unat e" unfolding e_def unat_of_nat by simp
  have fe: "e \<le> flash_end" using e assms(3) by (simp add: word_le_nat_alt)
  have "STMFLASH_Read nor_dev f' a (length ws) = ws"
  proof (rule nth_equalityI)
    fix i assume "i < length (STMFLASH_Read nor_dev f' a (length ws))"
    then have i: "i < length ws" by (simp add: nor.read_nth(1))
    note r = nor.range_in_flash[OF assms(1) e fe i]
    have "(a + of_nat (4 * i)) mod 4 = 0" using r(2) assms(2) by (simp add: word_unat_eq_iff unat_mod)
    from rd[OF r(1) this] i r(2) show "STMFLASH_Read nor_dev f' a (length ws) ! i = ws ! i"
      by (simp add: nor.read_nth(2))
  qed (simp add: nor.read_nth(1))
  with w rd show ?thesis by (auto simp: nor.dirty_def)
qed

theorem STMFLASH_Write_correct_witness:
  "\<exists>f'. STMFLASH_Write nor_dev FLASH_PROCHEAD [1, 2] (of_nat (length [1 :: u32, 2])) blank = Inr f' \<and>
     STMFLASH_Read nor_dev f' FLASH_PROCHEAD (length [1 :: u32, 2]) = [1, 2]"
proof -
  have "STM32_FLASH_BASE \<le> FLASH_PROCHEAD" "FLASH_PROCHEAD mod 4 = 0"
    "unat FLASH_PROCHEAD + 4 * length [1 :: u32, 2] \<le> unat flash_end"
    by (simp_all add: FLASH_PROCHEAD_def STM32_FLASH_BASE_def flash_end_def)
  from STMFLASH_Write_correct[OF this, of blank] show ?thesis by blast
qed

lemma can_id_record: "can_id_of (record_bytes [a, b, c, e]) = of_le_bytes [a, b, c, e]"
proof -
  have "can_id_of (record_bytes [a, b, c, e]) =
      push_bit 24 (ucast e) OR push_bit 16 (ucast c) OR push_bit 8 (ucast b) OR (ucast a :: u32)"
    by (simp add: can_id_of_def record_bytes_def del: upt_Suc)
  also have "\<dots> = of_le_bytes [a, b, c, e]"
    by (simp add: push_bit_or ac_simps)
  finally show ?thesis .
qed

lemma CanModifiedCheck_remote:
  assumes "bytes_of_words (STMFLASH_Read dev f FLASH_PROCHEAD_CAN 16) = record_bytes v" "g_CanAllModified n = 1"
  shows "g_RemoteCanId (CanModifiedCheck dev f n) = can_id_of (record_bytes v)"
  using assms by (simp add: CanModifiedCheck_def Let_def head_ok_record)

lemma CanModifiedCheck_local:
  assumes "bytes_of_words (STMFLASH_Read dev f FLASH_PROCHEAD_CAN_r 16) = record_bytes v"
  shows "g_LocalCanId_r (CanModifiedCheck dev f n) = can_id_of (record_bytes v)"
  using assms by (simp add: CanModifiedCheck_def Let_def head_ok_record)

text \<open>
  C10. Round trip of the CAN identifiers: after \<open>InfModify\<close> on the remote (local) record,
  \<open>CanModifiedCheck\<close> at the next start sets \<open>g_RemoteCanId\<close> (\<open>g_LocalCanId_r\<close>) to bytes 2 to
  5 of the host message, least significant first.
\<close>

theorem InfModify_CanModifiedCheck:
  assumes "addr = FLASH_PROCHEAD_CAN \<or> addr = FLASH_PROCHEAD_CAN_r" "g_CanAllModified n = 1"
  shows "\<exists>f'. InfModify nor_dev addr d f = Inr f' \<and>
    (if addr = FLASH_PROCHEAD_CAN then g_RemoteCanId else g_LocalCanId_r) (CanModifiedCheck nor_dev f' n)
      = of_le_bytes [d ! 2, d ! 3, d ! 4, d ! 5]"
proof -
  have "addr \<in> record_addrs" "addr \<noteq> FLASH_PROCHEAD_WM"
    using assms(1) by (auto simp: record_addrs_def record_addr_defs)
  with InfModify_nor[of addr d f] obtain f' where
    "InfModify nor_dev addr d f = Inr f'"
    "STMFLASH_Read nor_dev f' addr 16 = words_of_bytes (record_bytes [d ! 2, d ! 3, d ! 4, d ! 5])"
    by (auto simp: host_fields_def)
  with assms show ?thesis
    using CanModifiedCheck_remote[of nor_dev f' "[d ! 2, d ! 3, d ! 4, d ! 5]" n]
      CanModifiedCheck_local[of nor_dev f' "[d ! 2, d ! 3, d ! 4, d ! 5]" n]
    by (auto simp: record_words(2) can_id_record simp del: of_le_bytes.simps)
qed

text \<open>Both CAN identifiers start with all 29 bits set.\<close>

definition default_CanId :: u32 where
  "default_CanId = 0x1FFFFFFF"

definition net0 :: net_st where
  "net0 = \<lparr>g_IpAllModified = 1, g_LocalUdpPort = 50099, g_IP_ADDR = [192, 168, 1, 100],
     g_NETMASK_ADDR = [255, 255, 255, 0], g_GW_ADDR = [192, 168, 1, 1], g_CanAllModified = 1,
     g_RemoteCanId = default_CanId, g_LocalCanId_r = default_CanId\<rparr>"

theorem InfModify_CanModifiedCheck_witness:
  "\<exists>f'. InfModify nor_dev FLASH_PROCHEAD_CAN can_id_msg blank = Inr f' \<and>
     g_RemoteCanId (CanModifiedCheck nor_dev f' net0) = 0x12345678"
  using InfModify_CanModifiedCheck[of FLASH_PROCHEAD_CAN net0 can_id_msg blank]
  by (simp add: net0_def can_id_msg_def)

text \<open>
  C11. Rewriting one record loses the other three: all four records share flash sector 11, so when
  the record at \<open>addr\<close> is not blank, \<open>InfModify\<close> on it leaves every word of the other
  records erased, and the next start falls back to the built-in addresses and identifiers.
\<close>

theorem InfModify_erases_other_records:
  assumes "addr \<in> record_addrs" "addr' \<in> record_addrs" "addr' \<noteq> addr"
    "j < 16" "f (addr + of_nat (4 * j)) \<noteq> 0xFFFFFFFF"
  shows "\<exists>f'. InfModify nor_dev addr d f = Inr f' \<and> STMFLASH_Read nor_dev f' addr' 16 = replicate 16 0xFFFFFFFF"
proof -
  have dirty: "\<exists>j < 16. f (addr + of_nat (4 * j)) \<noteq> 0xFFFFFFFF" using assms(4,5) by blast
  from InfModify_nor[OF assms(1), of d f] obtain f' where "InfModify nor_dev addr d f = Inr f'"
    and "\<forall>addr' \<in> record_addrs. addr' \<noteq> addr \<longrightarrow> (\<forall>i < 16. f' (addr' + of_nat (4 * i)) =
       (if \<exists>j < 16. f (addr + of_nat (4 * j)) \<noteq> 0xFFFFFFFF then 0xFFFFFFFF else f (addr' + of_nat (4 * i))))"
    by blast
  then have rd: "\<And>i. i < 16 \<Longrightarrow> f' (addr' + of_nat (4 * i)) = 0xFFFFFFFF"
    unfolding if_P[OF dirty] using assms(2,3) by blast
  note \<open>InfModify nor_dev addr d f = Inr f'\<close>
  moreover have "STMFLASH_Read nor_dev f' addr' 16 = replicate 16 0xFFFFFFFF"
  proof (rule nth_equalityI)
    fix i assume "i < length (STMFLASH_Read nor_dev f' addr' 16)"
    then have "i < 16" by (simp add: nor.read_nth(1))
    with rd[OF this] show "STMFLASH_Read nor_dev f' addr' 16 ! i = replicate 16 0xFFFFFFFF ! i"
      by (simp add: nor.read_nth(2) del: of_nat_mult)
  qed (simp add: nor.read_nth(1))
  ultimately show ?thesis by blast
qed

theorem InfModify_erases_other_records_witness:
  "\<exists>f'. InfModify nor_dev FLASH_PROCHEAD_CAN can_id_msg (blank(FLASH_PROCHEAD_CAN := 0x55aa55aa)) = Inr f' \<and>
     STMFLASH_Read nor_dev f' FLASH_PROCHEAD 16 = replicate 16 0xFFFFFFFF"
  by (rule InfModify_erases_other_records[of _ _ 0]) (simp_all add: record_addrs_def record_addr_defs)

end
