(* ===== verification/CanRing.thy ===== *)
theory CanRing
  imports Flash
begin

text \<open>
  \<^verbatim>\<open>src/HARDWARE/CAN/can.c\<close>: the receive interrupt \<open>HAL_CAN_RxCpltCallback\<close>, which puts
  8-byte messages into the ring \<open>g_HOSTCANDATABUF\<close>, the reading side of the ring in
  \<open>HostCanDataAnalysis\<close>, and \<open>CAN1_Send_Msg\<close>. The ring is shown to implement a FIFO
  queue of at most 24 messages, also when interrupts arrive between reading a message and
  releasing its slot.
\<close>

section \<open>State and operations\<close>

text \<open>
  \<open>g_DealDataCur\<close> and \<open>g_IntrDataCur\<close> are defined as \<open>uint16_t\<close> but declared
  \<open>uint32_t\<close> in \<^verbatim>\<open>can.c\<close>, so the interrupt sees in the upper half of each the halfword that
  follows it in memory: \<open>intr_pad\<close> follows \<open>g_IntrDataCur\<close>, and what follows
  \<open>g_DealDataCur\<close> is up to the linker and an argument \<open>hi\<close> of the model.
\<close>

record can_st =
  g_HOSTCANDATABUF :: "u8 list"
  g_DealDataCur :: u16
  g_IntrDataCur :: u16
  intr_pad :: u16

definition can_zero :: can_st where
  "can_zero = \<lparr>g_HOSTCANDATABUF = replicate 200 0, g_DealDataCur = 0, g_IntrDataCur = 0, intr_pad = 0\<rparr>"

definition word32 :: "u16 \<Rightarrow> u16 \<Rightarrow> u32" where
  "word32 lo hi = ucast lo OR push_bit 16 (ucast hi)"

text \<open>\<open>memcpy(&buf[k], data, 8)\<close>; the write faults if it leaves the buffer.\<close>

definition ring_store :: "u8 list \<Rightarrow> nat \<Rightarrow> u8 list \<Rightarrow> u8 list res" where
  "ring_store buf k msg = for_each [0..<8] (\<lambda>i b. arr_set b (k + i) (msg ! i)) buf"

definition HAL_CAN_RxCpltCallback ::
  "(can_st \<Rightarrow> u16) \<Rightarrow> u32 \<Rightarrow> u32 \<Rightarrow> u8 list \<Rightarrow> can_st \<Rightarrow> can_st res" where
  "HAL_CAN_RxCpltCallback hi localId ExtId Data c =
     (if ExtId = localId then
        (let intr = word32 (g_IntrDataCur c) (intr_pad c);
             deal = word32 (g_DealDataCur c) (hi c) in
         if (intr + 8) mod 200 \<noteq> deal then
           bind_res (ring_store (g_HOSTCANDATABUF c) (unat intr) Data) (\<lambda>b.
           let intr = (intr + 8) mod 200 in
           Inr (c\<lparr>g_HOSTCANDATABUF := b, g_IntrDataCur := ucast intr, intr_pad := ucast (drop_bit 16 intr)\<rparr>))
         else Inr c)
      else Inr c)"

text \<open>The reading side: is there a message, copy it, release its slot.\<close>

definition ring_pending :: "can_st \<Rightarrow> bool" where
  "ring_pending c \<longleftrightarrow> g_IntrDataCur c \<noteq> g_DealDataCur c"

definition ring_peek :: "can_st \<Rightarrow> u8 list" where
  "ring_peek c = map (\<lambda>i. g_HOSTCANDATABUF c ! (unat (g_DealDataCur c) + i)) [0..<8]"

definition ring_release :: "can_st \<Rightarrow> can_st" where
  "ring_release c = c\<lparr>g_DealDataCur := (g_DealDataCur c + 8) mod 200\<rparr>"

text \<open>The transmit mailbox gets the remote identifier and the bytes of the message.\<close>

definition CAN1_Send_Msg :: "u32 \<Rightarrow> u8 list \<Rightarrow> nat \<Rightarrow> io_event list" where
  "CAN1_Send_Msg remoteId msg len = [CanTransmit remoteId (map (\<lambda>i. msg ! i) [0..<len])]"

section \<open>Message queues\<close>

text \<open>
  What the message handler relies on: a queue with a writing side that appends while there is
  room, and a reading side that looks at the first message and later drops it.
\<close>

locale message_queue =
  fixes push :: "'m \<Rightarrow> 's \<Rightarrow> 's res"
    and pending :: "'s \<Rightarrow> bool"
    and peek :: "'s \<Rightarrow> 'm"
    and release :: "'s \<Rightarrow> 's"
    and content :: "'s \<Rightarrow> 'm list"
    and ok :: "'s \<Rightarrow> bool"
    and msg_ok :: "'m \<Rightarrow> bool"
    and cap :: nat
  assumes push_law: "ok s \<Longrightarrow> msg_ok m \<Longrightarrow> length (content s) < cap \<Longrightarrow>
      \<exists>s'. push m s = Inr s' \<and> ok s' \<and> content s' = content s @ [m]"
    and pending_law: "ok s \<Longrightarrow> pending s \<longleftrightarrow> content s \<noteq> []"
    and peek_law: "ok s \<Longrightarrow> content s \<noteq> [] \<Longrightarrow> peek s = hd (content s)"
    and release_law: "ok s \<Longrightarrow> content s \<noteq> [] \<Longrightarrow> ok (release s) \<and> content (release s) = tl (content s)"
begin

text \<open>Messages that fit are all accepted, in order.\<close>

lemma push_all:
  assumes "ok s" "\<forall>m \<in> set ms. msg_ok m" "length (content s) + length ms \<le> cap"
  shows "\<exists>s'. for_each ms push s = Inr s' \<and> ok s' \<and> content s' = content s @ ms"
  using assms
proof (induction ms arbitrary: s)
  case Nil
  then show ?case by simp
next
  case (Cons m ms)
  then obtain s1 where s1: "push m s = Inr s1" "ok s1" "content s1 = content s @ [m]"
    using push_law[of s m] by auto
  with Cons.IH[OF s1(2)] Cons.prems show ?case by simp
qed

text \<open>Interrupts between looking at a message and dropping it neither change it nor get lost.\<close>

lemma interleaved:
  assumes "ok s" "content s = m # rest" "\<forall>m \<in> set ms. msg_ok m" "length (content s) + length ms \<le> cap"
  shows "peek s = m \<and> (\<exists>s'. for_each ms push s = Inr s' \<and> peek s' = m \<and> ok (release s') \<and>
    content (release s') = rest @ ms)"
proof -
  from push_all[OF assms(1,3,4)] obtain s' where
    s': "for_each ms push s = Inr s'" "ok s'" "content s' = m # rest @ ms" using assms(2) by auto
  with peek_law[of s] peek_law[OF s'(2)] release_law[OF s'(2)] assms(1,2) show ?thesis by simp
qed

primrec drain :: "nat \<Rightarrow> 's \<Rightarrow> 'm list \<times> 's" where
  "drain 0 s = ([], s)"
| "drain (Suc n) s =
     (if pending s then (let (ms, s') = drain n (release s) in (peek s # ms, s')) else ([], s))"

text \<open>FIFO: draining returns the messages in the order they came.\<close>

lemma drain_all:
  assumes "ok s" "length (content s) \<le> n"
  shows "fst (drain n s) = content s \<and> ok (snd (drain n s)) \<and> content (snd (drain n s)) = []"
  using assms
proof (induction n arbitrary: s)
  case 0
  then show ?case by simp
next
  case (Suc n)
  show ?case
  proof (cases "content s")
    case Nil
    with Suc.prems pending_law show ?thesis by simp
  next
    case (Cons m rest)
    with Suc.prems release_law[of s] peek_law[of s] pending_law[of s] Suc.IH[of "release s"]
    show ?thesis by (simp add: case_prod_beta)
  qed
qed

end

section \<open>The ring as a queue\<close>

definition ring_wf :: "can_st \<Rightarrow> bool" where
  "ring_wf c \<longleftrightarrow> length (g_HOSTCANDATABUF c) = 200 \<and> unat (g_DealDataCur c) < 200 \<and> unat (g_DealDataCur c) mod 8 = 0 \<and>
     unat (g_IntrDataCur c) < 200 \<and> unat (g_IntrDataCur c) mod 8 = 0 \<and> intr_pad c = 0"

definition slot :: "u8 list \<Rightarrow> nat \<Rightarrow> u8 list" where
  "slot buf s = map (\<lambda>j. buf ! (8 * s + j)) [0..<8]"

definition ring_count :: "can_st \<Rightarrow> nat" where
  "ring_count c = (unat (g_IntrDataCur c) div 8 + 25 - unat (g_DealDataCur c) div 8) mod 25"

definition ring_content :: "can_st \<Rightarrow> u8 list list" where
  "ring_content c = map (\<lambda>k. slot (g_HOSTCANDATABUF c) ((unat (g_DealDataCur c) div 8 + k) mod 25)) [0..<ring_count c]"

lemma length_ring_content [simp]: "length (ring_content c) = ring_count c"
  by (simp add: ring_content_def)

lemma ring_store_eq:
  assumes "length buf = 200" "k + 8 \<le> 200"
  shows "\<exists>b. ring_store buf k msg = Inr b \<and> length b = 200 \<and>
    (\<forall>j < 200. b ! j = (if k \<le> j \<and> j < k + 8 then msg ! (j - k) else buf ! j))"
proof -
  have "for_each [0..<8] (\<lambda>i b. arr_set b (k + i) (msg ! i)) buf = Inr (fold (\<lambda>i b. b[k + i := msg ! i]) [0..<8] buf)"
    using for_each_fold[of "\<lambda>b. length b = 200" buf "[0..<8]" "\<lambda>i b. arr_set b (k + i) (msg ! i)" "\<lambda>i b. b[k + i := msg ! i]"]
      assms by (simp del: upt_Suc)
  with fold_store(1)[of k 8 buf "\<lambda>i. msg ! i"] fold_store(2)[of k 8 buf _ "\<lambda>i. msg ! i"] assms show ?thesis
    by (simp add: ring_store_def del: upt_Suc)
qed

lemma slot_store:
  assumes "\<forall>j < 200. b ! j = (if 8 * i \<le> j \<and> j < 8 * i + 8 then msg ! (j - 8 * i) else buf ! j)"
    "s < 25" "length msg = 8"
  shows "slot b s = (if s = i then msg else slot buf s)"
proof (rule nth_equalityI)
  show "length (slot b s) = length (if s = i then msg else slot buf s)" using assms(3) by (simp add: slot_def)
  fix j assume "j < length (slot b s)"
  then have j: "j < 8" by (simp add: slot_def)
  then have "8 * s + j < 200" using assms(2) by simp
  with assms(1) j show "slot b s ! j = (if s = i then msg else slot buf s) ! j"
    by (auto simp: slot_def simp del: upt_Suc)
qed

lemma word32_0 [simp]: "word32 lo 0 = ucast lo"
  by (simp add: word32_def)

lemma ucast_word32 [simp]: "ucast (word32 lo hi) = lo"
  unfolding word32_def by (rule bit_word_eqI) (auto simp: bit_simps)

lemma unat_ucast_up: "unat (ucast (w :: u16) :: u32) = unat w"
proof -
  have "unat w < 2 ^ 32" by (rule order_less_le_trans[OF unsigned_less]) simp
  then show ?thesis by (simp add: unsigned_ucast_eq take_bit_nat_eq_self)
qed

text \<open>Arithmetic on the 25 slots.\<close>

lemma mod25:
  fixes i d k :: nat
  shows "i < 25 \<Longrightarrow> d < 25 \<Longrightarrow> (i + 25 - d) mod 25 = (if d \<le> i then i - d else i + 25 - d)"
    "i < 25 \<Longrightarrow> Suc i mod 25 = (if i = 24 then 0 else Suc i)"
    "d < 25 \<Longrightarrow> k < 25 \<Longrightarrow> (d + k) mod 25 = (if d + k < 25 then d + k else d + k - 25)"
  by (auto simp: le_mod_geq)

text \<open>The interrupt's arithmetic on the cursor.\<close>

lemma intr_step:
  assumes "unat (w :: u16) < 200" "unat w mod 8 = 0"
  defines "v \<equiv> (ucast w + 8) mod 200 :: u32"
  shows "unat v = (unat w + 8) mod 200" "unat (ucast v :: u16) = (unat w + 8) mod 200" "ucast (drop_bit 16 v) = (0 :: u16)"
    "(unat w + 8) mod 200 div 8 = (unat w div 8 + 1) mod 25" "(unat w + 8) mod 200 mod 8 = 0" "unat w + 8 \<le> 200"
proof -
  have "unat (ucast w :: u32) = unat w" by (simp add: unat_ucast_up)
  then show v: "unat v = (unat w + 8) mod 200"
    using assms(1) by (simp add: v_def unat_mod unat_word_ariths)
  have lt: "(unat w + 8) mod 200 < 200" by simp
  then show "unat (ucast v :: u16) = (unat w + 8) mod 200" using v by (simp add: unsigned_ucast_eq take_bit_nat_eq_self)
  have "unat (ucast (drop_bit 16 v) :: u16) = 0" using v lt by (simp add: unsigned_ucast_eq unsigned_drop_bit_eq drop_bit_eq_div unat_div)
  then show "ucast (drop_bit 16 v) = (0 :: u16)" by (simp add: unat_eq_0)
  obtain i where i: "unat w = 8 * i" using assms(2) by (metis mod_0_imp_dvd dvdE)
  then have "(unat w + 8) mod 200 = 8 * ((i + 1) mod 25)" by (simp add: mult_mod_right algebra_simps)
  then show "(unat w + 8) mod 200 div 8 = (unat w div 8 + 1) mod 25" "(unat w + 8) mod 200 mod 8 = 0" "unat w + 8 \<le> 200"
    using i assms(1) by simp_all
qed

lemma ring_slots:
  assumes "ring_wf c"
  shows "unat (g_IntrDataCur c) div 8 < 25" "unat (g_DealDataCur c) div 8 < 25"
    "unat (g_IntrDataCur c) = 8 * (unat (g_IntrDataCur c) div 8)"
    "unat (g_DealDataCur c) = 8 * (unat (g_DealDataCur c) div 8)"
proof -
  have "unat (g_DealDataCur c) < 200" "unat (g_DealDataCur c) mod 8 = 0"
    "unat (g_IntrDataCur c) < 200" "unat (g_IntrDataCur c) mod 8 = 0"
    using assms by (simp_all add: ring_wf_def)
  then show "unat (g_IntrDataCur c) div 8 < 25" "unat (g_DealDataCur c) div 8 < 25"
    "unat (g_IntrDataCur c) = 8 * (unat (g_IntrDataCur c) div 8)"
    "unat (g_DealDataCur c) = 8 * (unat (g_DealDataCur c) div 8)"
    by presburger+
qed

lemma ring_push:
  assumes "ring_wf c" "length m = 8" "ring_count c < 24"
  shows "\<exists>c'. HAL_CAN_RxCpltCallback hi lid lid m c = Inr c' \<and> ring_wf c' \<and>
    ring_content c' = ring_content c @ [m]"
proof -
  let ?I = "unat (g_IntrDataCur c)" and ?D = "unat (g_DealDataCur c)"
  define i where "i = ?I div 8" define d where "d = ?D div 8"
  have wf: "length (g_HOSTCANDATABUF c) = 200" "?D < 200" "?D mod 8 = 0" "?I < 200" "?I mod 8 = 0" "intr_pad c = 0"
    using assms(1) by (simp_all add: ring_wf_def)
  note st = intr_step[OF wf(4,5)]
  have id: "i < 25" "d < 25" "?I = 8 * i" "?D = 8 * d" using ring_slots[OF assms(1)] unfolding i_def d_def by blast+
  have cnt: "(i + 25 - d) mod 25 < 24" using assms(3) by (simp add: ring_count_def i_def d_def)
  then have "(i + 1) mod 25 \<noteq> d" using id(1,2) by (auto simp: mod25 split: if_splits)
  have guard: "(ucast (g_IntrDataCur c) + 8) mod 200 \<noteq> word32 (g_DealDataCur c) (hi c)"
  proof
    assume "(ucast (g_IntrDataCur c) + 8) mod 200 = word32 (g_DealDataCur c) (hi c)"
    then have "unat (ucast ((ucast (g_IntrDataCur c) + 8) mod 200 :: u32) :: u16) = ?D" by simp
    with st(2,4) \<open>(i + 1) mod 25 \<noteq> d\<close> show False by (simp add: i_def d_def)
  qed
  from ring_store_eq[OF wf(1), of ?I m] st(6) obtain b where
    b: "ring_store (g_HOSTCANDATABUF c) ?I m = Inr b" "length b = 200"
    "\<forall>j < 200. b ! j = (if ?I \<le> j \<and> j < ?I + 8 then m ! (j - ?I) else g_HOSTCANDATABUF c ! j)" by blast
  define c' where "c' = c\<lparr>g_HOSTCANDATABUF := b, g_IntrDataCur := ucast ((ucast (g_IntrDataCur c) + 8) mod 200 :: u32), intr_pad := 0\<rparr>"
  have "unat (ucast (g_IntrDataCur c) :: u32) = ?I" by (simp add: unat_ucast_up)
  then have "HAL_CAN_RxCpltCallback hi lid lid m c = Inr c'"
    using b(1) guard st(3) by (simp add: HAL_CAN_RxCpltCallback_def wf(6) c'_def Let_def)
  moreover have "ring_wf c'" using wf b(2) st by (simp add: ring_wf_def c'_def)
  moreover have "ring_content c' = ring_content c @ [m]"
  proof -
    have n: "ring_count c' = Suc (ring_count c)"
      using cnt id(1,2) st(2,4) mod25(1)[of "(i + 1) mod 25" d]
      by (simp add: ring_count_def c'_def mod25(1,2) flip: i_def d_def split: if_splits)
    have sl: "slot b s = (if s = i then m else slot (g_HOSTCANDATABUF c) s)" if "s < 25" for s
      using slot_store[OF _ that assms(2)] b(3) id(3) by simp
    have "(d + k) mod 25 = i \<longleftrightarrow> k = ring_count c" if "k \<le> ring_count c" for k
      using that cnt id(1,2) unfolding ring_count_def i_def[symmetric] d_def[symmetric]
      by (auto simp: mod25 split: if_splits)
    moreover have "unat (g_DealDataCur c') div 8 = d" "g_HOSTCANDATABUF c' = b" by (simp_all add: c'_def d_def)
    ultimately show ?thesis by (simp add: ring_content_def n sl flip: d_def)
  qed
  ultimately show ?thesis by blast
qed

lemma ring_pending_eq: "ring_wf c \<Longrightarrow> ring_pending c \<longleftrightarrow> ring_content c \<noteq> []"
proof -
  assume wf: "ring_wf c"
  define i where "i = unat (g_IntrDataCur c) div 8" define d where "d = unat (g_DealDataCur c) div 8"
  have id: "i < 25" "d < 25" "unat (g_IntrDataCur c) = 8 * i" "unat (g_DealDataCur c) = 8 * d"
    using ring_slots[OF wf] unfolding i_def d_def by blast+
  then have "ring_pending c \<longleftrightarrow> i \<noteq> d" by (simp add: ring_pending_def word_unat_eq_iff)
  moreover have "ring_count c = 0 \<longleftrightarrow> i = d"
    using id(1,2) by (auto simp: ring_count_def mod25 simp flip: i_def d_def split: if_splits)
  ultimately show ?thesis by (simp flip: length_0_conv)
qed

lemma ring_peek_eq:
  assumes "ring_wf c" "ring_content c \<noteq> []"
  shows "ring_peek c = hd (ring_content c)"
proof -
  from assms(2) have "0 < ring_count c" by (simp flip: length_0_conv)
  with ring_slots(2,4)[OF assms(1)] show ?thesis
    by (simp add: ring_peek_def ring_content_def slot_def hd_map upt_conv_Cons del: upt_Suc)
qed

lemma ring_release_ok:
  assumes "ring_wf c" "ring_content c \<noteq> []"
  shows "ring_wf (ring_release c) \<and> ring_content (ring_release c) = tl (ring_content c)"
proof -
  define i where "i = unat (g_IntrDataCur c) div 8" define d where "d = unat (g_DealDataCur c) div 8"
  have id: "i < 25" "d < 25" "unat (g_IntrDataCur c) = 8 * i" "unat (g_DealDataCur c) = 8 * d"
    using ring_slots[OF assms(1)] unfolding i_def d_def by blast+
  have dd: "unat ((g_DealDataCur c + 8) mod 200) = 8 * (Suc d mod 25)"
  proof -
    have "unat ((g_DealDataCur c + 8) mod 200) = (8 * d + 8) mod 200"
      using id(2,4) by (simp add: unat_mod unat_word_ariths)
    also have "\<dots> = 8 * (Suc d mod 25)" by (simp add: mult_mod_right add.commute)
    finally show ?thesis .
  qed
  from assms(2) have n0: "0 < ring_count c" by (simp flip: length_0_conv)
  have n: "ring_count (ring_release c) = ring_count c - 1"
    using n0 id dd
    by (simp add: ring_count_def ring_release_def mod25 flip: i_def d_def split: if_splits)
  have "ring_content (ring_release c) = tl (ring_content c)"
  proof (rule nth_equalityI)
    show "length (ring_content (ring_release c)) = length (tl (ring_content c))" by (simp add: n)
    fix k assume "k < length (ring_content (ring_release c))"
    then have k: "k < ring_count c - 1" by (simp add: n)
    have "(Suc d mod 25 + k) mod 25 = (d + Suc k) mod 25" by (simp add: mod_add_left_eq)
    moreover have "unat (g_DealDataCur (ring_release c)) div 8 = Suc d mod 25"
      "g_HOSTCANDATABUF (ring_release c) = g_HOSTCANDATABUF c" by (simp_all add: ring_release_def dd)
    ultimately show "ring_content (ring_release c) ! k = tl (ring_content c) ! k"
      using k less_diff_conv[of k "ring_count c" 1] by (simp add: nth_tl ring_content_def n flip: d_def)
  qed
  moreover have "ring_wf (ring_release c)"
    using assms(1) by (simp add: ring_wf_def ring_release_def dd)
  ultimately show ?thesis by blast
qed

text \<open>Neither side leaves the ring, whether it is empty, full or in between.\<close>

lemma ring_wf_release: "ring_wf c \<Longrightarrow> ring_wf (ring_release c)"
proof -
  assume wf: "ring_wf c"
  then have lt: "unat (g_DealDataCur c) < 200" "unat (g_DealDataCur c) mod 8 = 0" by (simp_all add: ring_wf_def)
  then have "unat ((g_DealDataCur c + 8) mod 200) = (unat (g_DealDataCur c) + 8) mod 200"
    by (simp add: unat_mod unat_word_ariths)
  with wf intr_step(5)[OF lt] show ?thesis by (simp add: ring_wf_def ring_release_def)
qed

lemma ring_wf_receive:
  assumes "ring_wf c"
  shows "\<exists>c'. HAL_CAN_RxCpltCallback hi lid ext m c = Inr c' \<and> ring_wf c'"
proof -
  let ?I = "unat (g_IntrDataCur c)"
  have wf: "length (g_HOSTCANDATABUF c) = 200" "?I < 200" "?I mod 8 = 0" "intr_pad c = 0"
    using assms by (simp_all add: ring_wf_def)
  note st = intr_step[OF wf(2,3)]
  from ring_store_eq[OF wf(1), of ?I m] st(6) obtain b where
    b: "ring_store (g_HOSTCANDATABUF c) ?I m = Inr b" "length b = 200" by blast
  have "unat (ucast (g_IntrDataCur c) :: u32) = ?I" by (simp add: unat_ucast_up)
  with b assms st wf show ?thesis
    by (simp add: HAL_CAN_RxCpltCallback_def Let_def ring_wf_def)
qed

text \<open>The firmware's ring is a queue for 24 messages, whatever the linker placed after the cursor.\<close>

interpretation ring: message_queue "HAL_CAN_RxCpltCallback hi lid lid" ring_pending ring_peek ring_release
  ring_content ring_wf "\<lambda>m. length m = 8" 24 for hi lid
  by unfold_locales (use ring_push ring_pending_eq ring_peek_eq ring_release_ok in auto)

lemma can_zero_wf: "ring_wf can_zero" "ring_content can_zero = []"
  by (simp_all add: ring_wf_def can_zero_def ring_content_def ring_count_def)

section \<open>Properties of the ring\<close>

text \<open>
  C12. First in, first out under interrupts: while at most 24 messages are pending, messages that
  arrive after the handler has copied the oldest one and before it releases its slot neither
  change that message nor get lost; after the release exactly the remaining and the new
  messages are pending, in order, for any memory layout of the cursors.
\<close>

theorem ring_fifo_under_interrupts:
  assumes "ring_wf c" "ring_content c = m # rest" "\<forall>x \<in> set ms. length x = 8"
    "length (ring_content c) + length ms \<le> 24"
  shows "ring_peek c = m \<and> (\<exists>c'. for_each ms (HAL_CAN_RxCpltCallback hi lid lid) c = Inr c' \<and>
    ring_peek c' = m \<and> ring_wf (ring_release c') \<and> ring_content (ring_release c') = rest @ ms)"
  by (rule ring.interleaved[OF assms])

text \<open>A ring with one pending message, and one more that arrives meanwhile.\<close>

definition ring1 :: can_st where
  "ring1 = can_zero\<lparr>g_HOSTCANDATABUF := [0x10, 0, 0, 0, 0, 0, 0, 0] @ replicate 192 0, g_IntrDataCur := 8\<rparr>"

lemma ring1_ok: "ring_wf ring1" "ring_content ring1 = [[0x10, 0, 0, 0, 0, 0, 0, 0]]"
  by (simp_all add: ring1_def can_zero_def ring_wf_def ring_content_def ring_count_def slot_def upt_rec)

theorem ring_fifo_under_interrupts_witness:
  "ring_peek ring1 = [0x10, 0, 0, 0, 0, 0, 0, 0] \<and>
   (\<exists>c'. for_each [replicate 8 1] (HAL_CAN_RxCpltCallback g_IntrDataCur 5 5) ring1 = Inr c' \<and>
     ring_peek c' = [0x10, 0, 0, 0, 0, 0, 0, 0] \<and> ring_wf (ring_release c') \<and>
     ring_content (ring_release c') = [] @ [replicate 8 1])"
  by (rule ring_fifo_under_interrupts) (simp_all only: ring1_ok, simp_all)

text \<open>
  C13. A full ring. Where the halfword after \<open>g_DealDataCur\<close> is zero the interrupt drops the new
  message and keeps the 24 pending ones. Where it is not (in the linked image it is
  \<open>g_IntrDataCur\<close> itself) the full ring is not recognised: the message is stored and the
  ring reads as empty, so all 25 messages are lost.
\<close>

theorem ring_full:
  assumes "ring_wf c" "length (ring_content c) = 24" "length m = 8"
  shows "if hi c = 0 then HAL_CAN_RxCpltCallback hi lid lid m c = Inr c
    else \<exists>c'. HAL_CAN_RxCpltCallback hi lid lid m c = Inr c' \<and> ring_wf c' \<and> ring_content c' = []"
proof -
  let ?I = "unat (g_IntrDataCur c)"
  define i where "i = ?I div 8" define d where "d = unat (g_DealDataCur c) div 8"
  have id: "i < 25" "d < 25" "?I = 8 * i" "unat (g_DealDataCur c) = 8 * d"
    using ring_slots[OF assms(1)] unfolding i_def d_def by blast+
  have wf: "length (g_HOSTCANDATABUF c) = 200" "?I < 200" "?I mod 8 = 0" "intr_pad c = 0" "unat (g_DealDataCur c) < 200"
    using assms(1) by (simp_all add: ring_wf_def)
  note st = intr_step[OF wf(2,3)]
  have sd: "Suc i mod 25 = d"
    using assms(2) id(1,2) by (auto simp: ring_count_def mod25 simp flip: i_def d_def split: if_splits)
  have "(?I + 8) mod 200 = 8 * ((?I + 8) mod 200 div 8)" using st(5) by (metis add.right_neutral mult_div_mod_eq)
  then have next_I: "(?I + 8) mod 200 = unat (g_DealDataCur c)" using st(4) id(4) sd i_def by simp
  show ?thesis
  proof (cases "hi c = 0")
    case True
    have "(ucast (g_IntrDataCur c) + 8) mod 200 = (ucast (g_DealDataCur c) :: u32)"
      using st(1) next_I by (simp add: word_unat_eq_iff unat_ucast_up)
    with True show ?thesis by (simp add: HAL_CAN_RxCpltCallback_def wf(4))
  next
    case False
    have "(ucast (g_IntrDataCur c) + 8) mod 200 \<noteq> word32 (g_DealDataCur c) (hi c)"
    proof
      assume e: "(ucast (g_IntrDataCur c) + 8) mod 200 = word32 (g_DealDataCur c) (hi c)"
      have "ucast (drop_bit 16 (word32 (g_DealDataCur c) (hi c))) = hi c"
        unfolding word32_def by (rule bit_word_eqI) (auto simp: bit_simps dest: bit_imp_le_length)
      with e st(3) False show False by simp
    qed
    moreover from ring_store_eq[OF wf(1), of ?I m] st(6) obtain b where
      "ring_store (g_HOSTCANDATABUF c) ?I m = Inr b" "length b = 200" by blast
    ultimately obtain c' where c': "HAL_CAN_RxCpltCallback hi lid lid m c = Inr c'"
      "c' = c\<lparr>g_HOSTCANDATABUF := b, g_IntrDataCur := ucast ((ucast (g_IntrDataCur c) + 8) mod 200 :: u32), intr_pad := 0\<rparr>"
      using st(3) by (simp add: HAL_CAN_RxCpltCallback_def wf(4) Let_def unat_ucast_up)
    have "ring_wf c'" using assms(1) \<open>length b = 200\<close> st c'(2) by (simp add: ring_wf_def)
    moreover have "ring_content c' = []" using c'(2) st(2) next_I by (simp add: ring_content_def ring_count_def)
    ultimately show ?thesis using False c'(1) by auto
  qed
qed

text \<open>A full ring with its cursors at slots 7 and 6.\<close>

definition ring_full_st :: can_st where
  "ring_full_st = can_zero\<lparr>g_DealDataCur := 56, g_IntrDataCur := 48\<rparr>"

theorem ring_full_witness:
  "\<exists>c'. HAL_CAN_RxCpltCallback g_IntrDataCur 5 5 (replicate 8 1) ring_full_st = Inr c' \<and>
     ring_wf c' \<and> ring_content c' = []"
proof -
  have "ring_wf ring_full_st" "length (ring_content ring_full_st) = 24"
    by (simp_all add: ring_full_st_def can_zero_def ring_wf_def ring_count_def)
  from ring_full[OF this, of "replicate 8 1" g_IntrDataCur 5] show ?thesis
    by (simp add: ring_full_st_def)
qed

end
