(* ===== verification/Periph.thy ===== *)
theory Periph
  imports FiuFrame
begin

text \<open>
  Board peripherals around the relays: the timers of \<^verbatim>\<open>src/HARDWARE/TIMER/timer.c\<close> (TIM2 ends
  a fault, TIM10 modulates bus relay 6), the port set-up \<open>LED_Init\<close> of
  \<^verbatim>\<open>src/HARDWARE/LED/led.c\<close>, and the fuse check and error stop of \<^verbatim>\<open>src/USER/main.c\<close>. Each
  operation yields the events it causes.
\<close>

section \<open>Timers\<close>

text \<open>The arguments of \<open>HAL_TIM_Base_Init\<close> and \<open>HAL_TIM_PWM_Init\<close>: period, prescaler, pulse.\<close>

definition TIM2_Init :: "u32 \<Rightarrow> u16 \<Rightarrow> io_event list" where
  "TIM2_Init arr psc = [Tim2StartIT (arr - 1) (ucast psc - 1)]"

definition PF6 :: pin where
  "PF6 = (GPIOF, 6)"

definition HAL_TIM_PWM_MspInit :: "io_event list" where
  "HAL_TIM_PWM_MspInit = [GpioInit GPIOF (GPIO_PIN 6) GPIO_MODE_AF_PP, write_pin PF6 False]"

definition TIM10_PWM_Init :: "u16 \<Rightarrow> u16 \<Rightarrow> u32 \<Rightarrow> io_event list" where
  "TIM10_PWM_Init arr psc ccr = HAL_TIM_PWM_MspInit @ [Tim10PwmStart (ucast arr - 1) (ucast psc) (ccr - 1)]"

text \<open>
  Stopping and de-initialising a timer goes through its handle, a zero-initialised global whose
  \<open>Instance\<close> is null until the timer's set-up has run; the argument tells whether it has. Each
  of these HAL calls dereferences \<open>Instance\<close>: through a null handle it is the event \<open>NullTimer\<close>.
  C leaves such an access undefined. On this processor it does not trap, since address 0 is flash;
  the model records it and goes on, and does not follow what the access does there.
\<close>

definition stop_tim10 :: "bool \<Rightarrow> io_event list" where
  "stop_tim10 ready = (if ready then [Tim10PwmStop, Tim10PwmDeInit] else [NullTimer 10, NullTimer 10])"

definition stop_tim2 :: "bool \<Rightarrow> io_event list" where
  "stop_tim2 ready = (if ready then [Tim2StopIT, Tim2DeInit] else [NullTimer 2, NullTimer 2])"

text \<open>
  The TIM2 update interrupt ends a timed fault: bus relay 6 is taken back and opened. It comes only
  after the set-up of TIM2, so the handle of TIM2 is set.
\<close>

definition pwm_release :: "io_event list" where
  "pwm_release = [GpioInit GPIOF (GPIO_PIN 6) GPIO_MODE_OUTPUT_PP, write_pin PF6 False]"

definition HAL_TIM_PeriodElapsedCallback :: "bool \<Rightarrow> u8 \<Rightarrow> io_event list" where
  "HAL_TIM_PeriodElapsedCallback tim10 bLoose =
     (if bLoose = 1 then stop_tim10 tim10 else []) @ pwm_release @ [Tim2StopIT, Tim2DeInit]"

section \<open>Port set-up\<close>

definition gpio_mask :: "nat list \<Rightarrow> u16" where
  "gpio_mask ns = fold (\<lambda>n w. w OR GPIO_PIN n) ns 0"

definition port_low :: "gpio_port \<Rightarrow> nat list \<Rightarrow> nat list \<Rightarrow> io_event list" where
  "port_low p ns ws = GpioInit p (gpio_mask ns) GPIO_MODE_OUTPUT_PP # map (\<lambda>n. write_pin (p, n) False) ws"

definition led_ports_AE :: "io_event list" where
  "led_ports_AE =
     port_low GPIOA [0, 3, 5, 6, 8, 15] [0, 3, 5, 6, 8, 15] @
     port_low GPIOB [0, 1, 3, 4, 5, 6, 7, 8, 9, 12, 13, 14, 15] [0, 1, 3, 4, 5, 6, 7, 8, 9, 12, 13, 14, 15] @
     port_low GPIOC [6, 7, 8, 9, 11, 10, 12, 13] [10, 11, 6, 7, 8, 9, 12, 13] @
     port_low GPIOD [6, 7, 5, 3, 4, 11, 12, 13] [3, 4, 5, 6, 7, 11, 12, 13] @
     port_low GPIOE [6, 5, 3, 4, 2] [3, 2, 4, 5, 6]"

definition led_ports_FI :: "io_event list" where
  "led_ports_FI =
     port_low GPIOF [6, 7, 8, 9, 10] [6, 7, 8, 9, 10] @
     port_low GPIOG [6, 7, 3, 11, 12, 10, 9] [3, 6, 7, 9, 10, 11, 12] @
     port_low GPIOI [0, 1, 2, 3, 4, 5, 6, 7, 8, 9, 10, 11, 15] [0, 1, 2, 3, 4, 5, 6, 7, 8, 9, 10, 11, 15]"

definition led_port_H :: "io_event list" where
  "led_port_H =
     [GpioInit GPIOH (gpio_mask [7, 8, 9, 10, 11]) GPIO_MODE_INPUT,
      GpioInit GPIOH (gpio_mask [2, 3, 6, 13, 14, 12, 15]) GPIO_MODE_OUTPUT_PP,
      write_pin (GPIOH, 2) False, write_pin (GPIOH, 3) True, write_pin (GPIOH, 6) False,
      write_pin (GPIOH, 13) False, write_pin (GPIOH, 14) False, write_pin (GPIOH, 15) False,
      write_pin CH_EN False, write_pin CH_EN True]"

definition LED_Init :: "relay_st \<Rightarrow> relay_st res" where
  "LED_Init s =
     bind_res (Sn74374_Set0 (emit (led_ports_AE @ led_ports_FI @ led_port_H) s)) (\<lambda>s.
     Inr (HV_FunRelay_Set 0 s))"

section \<open>Fuse check and error stop\<close>

text \<open>\<open>fuse i\<close> is the level found on fuse input \<open>i\<close> when it is read.\<close>

definition fuse_step :: "bool \<Rightarrow> nat \<Rightarrow> u8 \<Rightarrow> u8" where
  "fuse_step fuse_pinVal i fuse_status = (if \<not> fuse_pinVal then fuse_status OR push_bit i 1 else fuse_status)"

definition Fuse_check :: "(nat \<Rightarrow> bool) \<Rightarrow> u8 \<times> io_event list" where
  "Fuse_check fuse =
     (fuse_step (fuse 5) 4 (fuse_step (fuse 4) 3 (fuse_step (fuse 3) 2 (fuse_step (fuse 2) 1 (fuse_step (fuse 1) 0 0)))),
      [write_pin (GPIOA, 5) True, DelayMs 50, write_pin (GPIOA, 5) False,
       write_pin (GPIOA, 6) True, DelayMs 50, write_pin (GPIOA, 6) False,
       write_pin (GPIOB, 0) True, DelayMs 50, write_pin (GPIOB, 0) False,
       write_pin (GPIOB, 1) True, DelayMs 50,
       write_pin (GPIOH, 6) True, DelayMs 50])"

text \<open>\<open>Error_loop\<close> sets \<open>g_Error\<close>, drops the protection relay and never returns: the events
  before the loop, and those of one round.\<close>

definition RUNLED_IO :: nat where "RUNLED_IO = 3"
definition ERRORLED_IO :: nat where "ERRORLED_IO = 2"

definition Error_loop :: "nat \<Rightarrow> io_event list" where
  "Error_loop rounds =
     [write_pin (GPIOH, 3) False, write_pin (GPIOB, 12) True, Pcf8574Bit ERRORLED_IO True, Pcf8574Bit RUNLED_IO False] @
     concat (replicate rounds
       [Print (''error loop - ing'' @ [CHR 0x0A]), DelayMs 500, Pcf8574Bit RUNLED_IO True, DelayMs 500,
        Pcf8574Bit RUNLED_IO False])"

section \<open>Power-up\<close>

text \<open>Events that can only pull pins low.\<close>

definition pulls_low :: "io_event \<Rightarrow> bool" where
  "pulls_low e \<longleftrightarrow> (\<exists>p n. e = write_pin (p, n) False \<and> n < 16) \<or> (\<exists>p w m. e = GpioInit p w m)"

lemma levels_of_pulls_low:
  assumes "\<forall>e \<in> set es. pulls_low e" "\<not> l q \<or> write_pin q False \<in> set es" "snd q < 16"
  shows "\<not> levels_of es l q"
  using assms
proof (induction es arbitrary: l)
  case Nil
  then show ?case by simp
next
  case (Cons e es)
  from Cons.prems(1) have "pulls_low e" by simp
  then have "\<not> level_step e l q" if "\<not> l q \<or> e = write_pin q False"
    using that Cons.prems(3) by (cases q) (auto simp: pulls_low_def level_step_write_pin split: if_splits)
  with Cons.prems Cons.IH[of "level_step e l"] show ?case by auto
qed

lemma pulls_low_simps [simp]:
  "n < 16 \<Longrightarrow> pulls_low (write_pin (p, n) False)" "pulls_low (GpioInit p w m)"
  by (auto simp: pulls_low_def)

lemma led_ports_low: "\<forall>e \<in> set (led_ports_AE @ led_ports_FI). pulls_low e"
  by (simp add: led_ports_AE_def led_ports_FI_def port_low_def)

lemma led_ports_resctrl: "\<forall>q \<in> set RESCTRL_tab. write_pin q False \<in> set (led_ports_AE @ led_ports_FI) \<and> fst q \<noteq> GPIOH \<and> snd q < 16"
  by (simp add: RESCTRL_tab_def led_ports_AE_def led_ports_FI_def port_low_def)

lemma levels_port_H: "fst q \<noteq> GPIOH \<Longrightarrow> levels_of led_port_H l q = l q"
  by (cases q) (simp add: led_port_H_def level_step_write_pin CH_EN_def)

lemma led_resctrl:
  "r < 15 \<Longrightarrow> \<not> levels_of led_port_H (levels_of led_ports_FI (levels_of led_ports_AE l)) (RESCTRL (Suc r))"
proof -
  assume "r < 15"
  moreover have "length RESCTRL_tab = 15" by (simp add: RESCTRL_tab_def)
  ultimately have "RESCTRL (Suc r) \<in> set RESCTRL_tab" by (simp add: RESCTRL_def)
  with led_ports_resctrl levels_of_pulls_low[OF led_ports_low, of l "RESCTRL (Suc r)"] show ?thesis
    by (auto simp: levels_port_H)
qed

text \<open>Power-up opens everything, whatever the board shows.\<close>

lemma LED_Init_view:
  assumes "relay_wf s"
  shows "\<exists>s'. LED_Init s = Inr s' \<and> relay_wf s' \<and> dq_coherent b0 s' \<and> view b0 s' = idle_view"
proof -
  let ?s = "emit (led_ports_AE @ led_ports_FI @ led_port_H) s"
  have "relay_wf ?s" using assms by (simp add: relay_wf_def emit_def)
  from Sn74374_Set0_holds[OF this, of b0] obtain s1 where
    s1: "Sn74374_Set0 ?s = Inr s1" "relays s1 = {}"
    "holds b0 (uFiuCom_buf ?s) (bus_levels b0 ?s) (res_levels b0 ?s) s1" by blast
  have res: "res_levels b0 ?s = replicate 15 False"
    by (rule nth_equalityI) (auto simp: res_levels_def led_resctrl)
  from holds_HV[OF s1(3), of 0]
  have "holds b0 (uFiuCom_buf ?s) (replicate 17 False) (replicate 15 False) (HV_FunRelay_Set 0 s1)"
    unfolding res by (simp add: bus_effect_reset del: hv_composite.simps)
  from holds_view[OF this] s1(1,2) show ?thesis
    by (simp add: LED_Init_def idle_view_def good_def)
qed

text \<open>
  C14. Power-up opens everything: from any board state and any well-formed globals,
  \<open>LED_Init\<close> ends with every relay register cleared and equal to its shadow copy, every bus
  relay and every resistor line low.
\<close>

theorem LED_Init_idle:
  assumes "relay_wf s"
  shows "\<exists>s'. LED_Init s = Inr s' \<and> relay_wf s' \<and> dq_coherent b0 s' \<and> view b0 s' = idle_view"
  using assms by (rule LED_Init_view)

theorem LED_Init_idle_witness:
  "\<exists>s'. LED_Init relay_init = Inr s' \<and> relay_wf s' \<and> dq_coherent board0 s' \<and> view board0 s' = idle_view"
  by (rule LED_Init_idle) simp

lemma Fuse_check_zero: "fst (Fuse_check fuse) = 0 \<longleftrightarrow> list_all fuse [1..<6]"
proof -
  have five: "[1..<6] = [1, 2, 3, 4, 5 :: nat]" by (simp add: upt_conv_Cons)
  show ?thesis
    unfolding five by (cases "fuse 1"; cases "fuse 2"; cases "fuse 3"; cases "fuse 4"; cases "fuse 5")
      (simp_all add: Fuse_check_def fuse_step_def)
qed

text \<open>
  C15. The fuse check reports fuse \<open>i\<close> in bit \<open>i - 1\<close>, set exactly when its input reads low, so
  the result is 0 exactly when all five fuses are whole; the test lines of fuses 1 to 3 are
  released and those of fuses 4 and 5 are left driven.
\<close>

theorem Fuse_check_result:
  "map (bit (fst (Fuse_check fuse))) [0..<5] = map (\<lambda>i. \<not> fuse i) [1..<6] \<and>
   (fst (Fuse_check fuse) = 0 \<longleftrightarrow> list_all fuse [1..<6]) \<and>
   map (\<lambda>i. levels_of (snd (Fuse_check fuse)) l (FUSETEST i)) [1..<6] = [False, False, False, True, True]"
proof -
  have five: "[0..<5] = [0, 1, 2, 3, 4 :: nat]" "[1..<6] = [1, 2, 3, 4, 5 :: nat]"
    by (simp_all add: upt_conv_Cons)
  have "map (bit (fst (Fuse_check fuse))) [0..<5] = map (\<lambda>i. \<not> fuse i) [1..<6]"
    unfolding five by (cases "fuse 1"; cases "fuse 2"; cases "fuse 3"; cases "fuse 4"; cases "fuse 5")
      (simp_all add: Fuse_check_def fuse_step_def bit_simps)
  moreover note Fuse_check_zero
  moreover have "map (\<lambda>i. levels_of (snd (Fuse_check fuse)) l (FUSETEST i)) [1..<6] = [False, False, False, True, True]"
    unfolding five by (simp add: Fuse_check_def level_step_write_pin FUSETEST_def FUSETEST_tab_def)
  ultimately show ?thesis by blast
qed

end
