(* ===== verification/HostDispatch.thy ===== *)
theory HostDispatch
  imports CanRing Periph "HOL-Library.Signed_Division"
begin

text \<open>
  \<^verbatim>\<open>src/HARDWARE/Fiu/FiuHostDataAnalysis.c\<close>, command dispatch: the state of the whole unit,
  \<open>startFault\<close>, the handler \<open>HostCanDataAnalysisNoLoopBuf\<close> of commands that arrive by
  UDP, the handler \<open>HostCanDataAnalysis\<close> of commands taken from the CAN ring, and the end of
  a timed fault (the TIM2 callback of \<^verbatim>\<open>src/HARDWARE/TIMER/timer.c\<close>). A handler yields
  \<open>None\<close> where the code resets the processor and does not return.
\<close>

section \<open>State\<close>

text \<open>
  The globals of the components; \<open>'f\<close> is the flash. \<open>tim10_ready\<close> and \<open>tim2_ready\<close> tell whether
  \<open>TIM10_Handler.Instance\<close> and \<open>TIM2_Handler.Instance\<close> have been set.
\<close>

record 'f sys_st =
  host :: host_st
  rel :: relay_st
  can :: can_st
  flash :: 'f
  net :: net_st
  g_Error :: u8
  tim10_ready :: bool
  tim2_ready :: bool

definition set_host :: "(host_st \<Rightarrow> host_st) \<Rightarrow> 'f sys_st \<Rightarrow> 'f sys_st" where
  "set_host f s = s\<lparr>host := f (host s)\<rparr>"

definition sys_emit :: "io_event list \<Rightarrow> 'f sys_st \<Rightarrow> 'f sys_st" where
  "sys_emit es s = s\<lparr>rel := emit es (rel s)\<rparr>"

text \<open>\<open>g_DataFromHost[k] = v\<close>\<close>

definition reply_byte :: "nat \<Rightarrow> u8 \<Rightarrow> 'f sys_st \<Rightarrow> 'f sys_st" where
  "reply_byte k v = set_host (\<lambda>h. h\<lparr>g_DataFromHost := (g_DataFromHost h)[k := v]\<rparr>)"

definition can_reply :: "'f sys_st \<Rightarrow> 'f sys_st" where
  "can_reply s = sys_emit (CAN1_Send_Msg (g_RemoteCanId (net s)) (g_DataFromHost (host s)) 8) s"

text \<open>The guard of every command but 0x13: command byte and work mode.\<close>

definition is_cmd :: "u8 \<Rightarrow> 'f sys_st \<Rightarrow> bool" where
  "is_cmd c s \<longleftrightarrow> c = g_DataFromHost (host s) ! 0 \<and> g_WorkMode (host s) = g_DataFromHost (host s) ! 1"

definition on_cmd :: "u8 \<Rightarrow> ('f sys_st \<Rightarrow> 'f sys_st res) \<Rightarrow> 'f sys_st \<Rightarrow> 'f sys_st res" where
  "on_cmd c f s = (if is_cmd c s then f s else Inr s)"

section \<open>Starting a fault\<close>

text \<open>Stopping both timers, as \<open>startFault\<close> and the reset command do first.\<close>

definition stop_timers :: "'f sys_st \<Rightarrow> io_event list" where
  "stop_timers s = stop_tim10 (tim10_ready s) @ stop_tim2 (tim2_ready s)"

definition sys_frame :: "'f sys_st \<Rightarrow> 'f sys_st res" where
  "sys_frame s = bind_res (FiuCom_Process (g_FiuByte17Data (host s)) (rel s)) (\<lambda>r. Inr (s\<lparr>rel := r\<rparr>))"

text \<open>
  The period and pulse of TIM10. Both expressions are computed in \<open>int\<close>, whose division
  rounds towards zero, and stored in \<open>u16\<close> variables; a zero frequency is undefined.
\<close>

definition pwm_arr :: "u8 \<Rightarrow> u16 res" where
  "pwm_arr freq = (if freq = 0 then Inl DivByZero else Inr (of_int (10000 sdiv uint freq)))"

definition pwm_ccr :: "u8 \<Rightarrow> u16 \<Rightarrow> u16" where
  "pwm_ccr duty arr =
     (let ccr = of_int (((100 - uint duty) * uint arr) sdiv 100) in if ccr < 1 then 1 else ccr)"

definition startFault :: "'f sys_st \<Rightarrow> 'f sys_st res" where
  "startFault s =
     (let s = sys_emit (stop_timers s) (set_host (\<lambda>h. h\<lparr>g_workStatus := 1\<rparr>) s) in
      bind_res (sys_frame s) (\<lambda>s.
      bind_res
        (if g_bLoose (host s) = 1 then
           bind_res (pwm_arr (g_Pfreq (host s))) (\<lambda>arr.
           Inr (sys_emit (TIM10_PWM_Init arr (180 * 100) (ucast (pwm_ccr (g_Pduty (host s)) arr))) s\<lparr>tim10_ready := True\<rparr>))
         else Inr s) (\<lambda>s.
      Inr (if g_Ptime (host s) > 0
           then sys_emit (TIM2_Init (ucast (g_Ptime (host s)) * 2) (90 * 500)) s\<lparr>tim2_ready := True\<rparr> else s))))"

section \<open>Commands by UDP\<close>

text \<open>Commands 0 to 4: configure, and put the result in byte \<open>k\<close>.\<close>

definition do_config :: "nat \<Rightarrow> 'f sys_st \<Rightarrow> 'f sys_st res" where
  "do_config k s =
     bind_res (McuGetHostConfigInfo (host s)) (\<lambda>(result, h).
     let s = s\<lparr>host := h\<rparr> in
     Inr (if g_Error s \<noteq> 0 then reply_byte k (g_Error s) s
          else if result = g_HostConfigPass (host s) then reply_byte k result s
          else reply_byte k result (set_host FIU_Cmd0_CurPinFlag_init s)))"

definition udp_config_done :: "'f sys_st \<Rightarrow> 'f sys_st" where
  "udp_config_done s =
     (let d = g_DataFromHost (host s);
          s = set_host (\<lambda>h. h\<lparr>g_Ptime := push_bit 8 (ucast (d ! 3)) OR ucast (d ! 2)\<rparr>) s in
      if g_Error s \<noteq> 0 then reply_byte 2 (g_Error s) s
      else if g_Ptime (host s) > 65500 then
        set_host FIU_Cmd0_CurPinFlag_init (set_host P_init (reply_byte 2 (g_HostConfigErr (host s) ! 1) s))
      else
        (let s = (if g_bTime (host s) = 0 then set_host (\<lambda>h. h\<lparr>g_bTime := 1\<rparr>) s else s);
             (result, h) = DataAtPxToFiuBytes17 (host s);
             s = s\<lparr>host := h\<rparr> in
         if result = g_HostConfigPass (host s)
         then set_host FIU_Cmd0_CurPinFlag_init (reply_byte 2 result s)
         else set_host FIU_Cmd0_CurPinFlag_init (set_host P_init (reply_byte 2 result s))))"

definition udp_start :: "'f sys_st \<Rightarrow> 'f sys_st res" where
  "udp_start s = bind_res (startFault s) (\<lambda>s. Inr (reply_byte 2 (g_Error s) s))"

text \<open>The reset command builds a frame with command 4 and runs it.\<close>

definition reset_frame :: "host_st \<Rightarrow> host_st" where
  "reset_frame h = h\<lparr>g_FiuByte17Data := (g_FiuByte17Data h)[0 := 0xbe, 1 := 0xbe, 2 := 4, 15 := 0xed, 16 := 0xed]\<rparr>"

definition clear_config :: "'f sys_st \<Rightarrow> 'f sys_st" where
  "clear_config s = set_host FIU_Cmd0_CurPinFlag_init (set_host P_init s)"

definition udp_reset :: "'f sys_st \<Rightarrow> 'f sys_st res" where
  "udp_reset s =
     (let s = set_host reset_frame (sys_emit (stop_timers s @ pwm_release) s);
          s = (if g_Ptime (host s) > 0 then sys_emit [if tim2_ready s then Tim2StopIT else NullTimer 2] s else s) in
      bind_res (sys_frame s) (\<lambda>s.
      Inr (if g_Error s \<noteq> 0 then reply_byte 2 (g_Error s) s else clear_config (reply_byte 2 0 s))))"

text \<open>The five result bits of the fuse check in bytes 3 to 7.\<close>

definition reply_fuses :: "u8 \<Rightarrow> 'f sys_st \<Rightarrow> 'f sys_st" where
  "reply_fuses result s = fold (\<lambda>i. reply_byte (3 + i) (drop_bit i result AND 1)) [0..<5] s"

definition udp_fuses :: "(nat \<Rightarrow> bool) \<Rightarrow> 'f sys_st \<Rightarrow> 'f sys_st res" where
  "udp_fuses fuse s =
     (if g_Error s \<noteq> 0 then Inr (reply_byte 2 (g_Error s) s)
      else
        (let s = clear_config s;
             (result, es) = Fuse_check fuse;
             s = sys_emit es s in
         Inr (if g_Error s \<noteq> 0 then reply_byte 2 (g_Error s) s
              else if result = 0x1f then fold (\<lambda>i. reply_byte (3 + i) 1) [0..<5] (reply_byte 2 0 s)
              else reply_fuses result (reply_byte 2 (g_HostConfigErr (host s) ! 51) s))))"

definition udp_record :: "'f flash_dev \<Rightarrow> u32 \<Rightarrow> 'f sys_st \<Rightarrow> 'f sys_st res" where
  "udp_record dev addr s =
     (if g_Error s \<noteq> 0 then Inr (reply_byte 2 (g_Error s) s)
      else
        bind_res (InfModify dev addr (g_DataFromHost (host s)) (flash s)) (\<lambda>f.
        Inr (reply_byte 2 0 (s\<lparr>flash := f\<rparr>))))"

text \<open>The message comes in and goes out through the argument; \<open>None\<close> is the processor reset.\<close>

definition HostCanDataAnalysisNoLoopBuf ::
  "'f flash_dev \<Rightarrow> (nat \<Rightarrow> bool) \<Rightarrow> u8 list \<Rightarrow> 'f sys_st \<Rightarrow> (u8 list option \<times> 'f sys_st) res" where
  "HostCanDataAnalysisNoLoopBuf dev fuse data s =
     (let s = set_host (\<lambda>h. h\<lparr>g_DataFromHost := take 8 data\<rparr>) s in
      bind_res (on_cmd 0 (do_config 3) s) (\<lambda>s.
      bind_res (on_cmd 1 (do_config 3) s) (\<lambda>s.
      bind_res (on_cmd 2 (do_config 3) s) (\<lambda>s.
      bind_res (on_cmd 3 (do_config 3) s) (\<lambda>s.
      bind_res (on_cmd 4 (do_config 2) s) (\<lambda>s.
      bind_res (on_cmd 5 (\<lambda>s. Inr (udp_config_done s)) s) (\<lambda>s.
      bind_res (on_cmd 0x10 udp_start s) (\<lambda>s.
      bind_res (on_cmd 0x11 udp_reset s) (\<lambda>s.
      bind_res (on_cmd 0x1A (udp_fuses fuse) s) (\<lambda>s.
      bind_res (if g_DataFromHost (host s) ! 0 = 0x13 then udp_record dev FLASH_PROCHEAD_WM s else Inr s) (\<lambda>s.
      bind_res (on_cmd 0x15 (udp_record dev FLASH_PROCHEAD) s) (\<lambda>s.
      bind_res (on_cmd 0x19 (udp_record dev FLASH_PROCHEAD_CAN) s) (\<lambda>s.
      bind_res (on_cmd 0x17 (udp_record dev FLASH_PROCHEAD_CAN_r) s) (\<lambda>s.
      if is_cmd 0x1C s then Inr (None, sys_emit [SystemReset] s)
      else Inr (Some (g_DataFromHost (host s)), s)))))))))))))))"

section \<open>Commands by CAN\<close>

definition can_config :: "nat \<Rightarrow> 'f sys_st \<Rightarrow> 'f sys_st res" where
  "can_config k s = bind_res (do_config k s) (\<lambda>s. Inr (can_reply s))"

definition can_release :: "'f sys_st \<Rightarrow> 'f sys_st" where
  "can_release s = s\<lparr>can := ring_release (can s)\<rparr>"

text \<open>Configuration done: every branch but the error one releases the slot and returns at once.\<close>

definition can_config_done :: "'f sys_st \<Rightarrow> int option \<times> 'f sys_st" where
  "can_config_done s =
     (let d = g_DataFromHost (host s);
          s = set_host (\<lambda>h. h\<lparr>g_Ptime := push_bit 8 (ucast (d ! 2)) OR ucast (d ! 3)\<rparr>) s in
      if g_Error s \<noteq> 0 then (None, can_reply (reply_byte 2 (g_Error s) s))
      else if g_Ptime (host s) > 65500 then
        (Some 0, clear_config (can_release (can_reply (reply_byte 2 (g_HostConfigErr (host s) ! 1) s))))
      else
        (let s = set_host (\<lambda>h. h\<lparr>g_bTime := 1\<rparr>) s;
             (result, h) = DataAtPxToFiuBytes17 (host s);
             s = can_release (can_reply (reply_byte 2 result (s\<lparr>host := h\<rparr>))) in
         if result = g_HostConfigPass (host s) then (Some 1, set_host FIU_Cmd0_CurPinFlag_init s)
         else (Some 0, clear_config s)))"

definition can_start :: "'f sys_st \<Rightarrow> 'f sys_st res" where
  "can_start s = bind_res (startFault s) (\<lambda>s. Inr (can_reply (reply_byte 2 (g_Error s) s)))"

definition can_reset :: "'f sys_st \<Rightarrow> 'f sys_st res" where
  "can_reset s =
     bind_res (sys_frame (set_host reset_frame (sys_emit (stop_timers s @ pwm_release) s))) (\<lambda>s.
     Inr (if g_Error s \<noteq> 0 then can_reply (reply_byte 2 (g_Error s) s)
          else clear_config (can_reply (reply_byte 2 0 s))))"

definition can_fuses :: "(nat \<Rightarrow> bool) \<Rightarrow> 'f sys_st \<Rightarrow> 'f sys_st res" where
  "can_fuses fuse s =
     (if g_Error s \<noteq> 0 then Inr (can_reply (reply_byte 2 (g_Error s) s))
      else
        (let s = clear_config s;
             (result, es) = Fuse_check fuse;
             s = sys_emit es s in
         Inr (if g_Error s \<noteq> 0 then can_reply (reply_byte 2 (g_Error s) s)
              else can_reply (reply_fuses result (reply_byte 2 0 s)))))"

definition can_status :: "'f sys_st \<Rightarrow> 'f sys_st res" where
  "can_status s =
     Inr (can_reply (reply_byte 2 (if g_Error s \<noteq> 0 then g_Error s else g_workStatus (host s)) s))"

text \<open>The branches after configuration done, and the return at the end.\<close>

definition can_rest :: "(nat \<Rightarrow> bool) \<Rightarrow> 'f sys_st \<Rightarrow> (int option \<times> 'f sys_st) res" where
  "can_rest fuse s =
     bind_res (on_cmd 0x10 can_start s) (\<lambda>s.
     bind_res (on_cmd 0x11 can_reset s) (\<lambda>s.
     bind_res (on_cmd 0x1A (can_fuses fuse) s) (\<lambda>s.
     if is_cmd 0x1C s then Inr (None, sys_emit [SystemReset] s)
     else bind_res (on_cmd 0x1D can_status s) (\<lambda>s. Inr (Some 1, can_release s)))))"

definition HostCanDataAnalysis :: "(nat \<Rightarrow> bool) \<Rightarrow> 'f sys_st \<Rightarrow> (int option \<times> 'f sys_st) res" where
  "HostCanDataAnalysis fuse s =
     (if ring_pending (can s) then
        (let s = set_host (\<lambda>h. h\<lparr>g_DataFromHost := ring_peek (can s)\<rparr>) s in
         bind_res (on_cmd 0 (can_config 3) s) (\<lambda>s.
         bind_res (on_cmd 1 (can_config 3) s) (\<lambda>s.
         bind_res (on_cmd 2 (can_config 3) s) (\<lambda>s.
         bind_res (on_cmd 3 (can_config 3) s) (\<lambda>s.
         bind_res (on_cmd 4 (can_config 2) s) (\<lambda>s.
         case (if is_cmd 5 s then can_config_done s else (None, s)) of
           (Some r, s) \<Rightarrow> Inr (Some r, s)
         | (None, s) \<Rightarrow> can_rest fuse s))))))
      else Inr (Some 0, s))"

section \<open>The end of a timed fault\<close>

definition tim2_expired :: "'f sys_st \<Rightarrow> 'f sys_st" where
  "tim2_expired s =
     set_host (\<lambda>h. h\<lparr>g_workStatus := 0\<rparr>) (sys_emit (HAL_TIM_PeriodElapsedCallback (tim10_ready s) (g_bLoose (host s))) s)"

section \<open>Basic facts\<close>

lemma sys_simps [simp]:
  "host (set_host f s) = f (host s)" "rel (set_host f s) = rel s" "can (set_host f s) = can s"
  "flash (set_host f s) = flash s" "net (set_host f s) = net s" "g_Error (set_host f s) = g_Error s"
  "host (sys_emit es s) = host s" "rel (sys_emit es s) = emit es (rel s)" "can (sys_emit es s) = can s"
  "flash (sys_emit es s) = flash s" "net (sys_emit es s) = net s" "g_Error (sys_emit es s) = g_Error s"
  "tim10_ready (set_host f s) = tim10_ready s" "tim2_ready (set_host f s) = tim2_ready s"
  "tim10_ready (sys_emit es s) = tim10_ready s" "tim2_ready (sys_emit es s) = tim2_ready s"
  by (simp_all add: set_host_def sys_emit_def)

lemma stop_timers_simps [simp]: "stop_timers (set_host f s) = stop_timers s" "stop_timers (sys_emit es s) = stop_timers s"
  by (simp_all add: stop_timers_def)

lemma reply_simps [simp]:
  "host (reply_byte k v s) = (host s)\<lparr>g_DataFromHost := (g_DataFromHost (host s))[k := v]\<rparr>"
  "rel (reply_byte k v s) = rel s" "can (reply_byte k v s) = can s" "flash (reply_byte k v s) = flash s"
  "net (reply_byte k v s) = net s" "g_Error (reply_byte k v s) = g_Error s"
  "host (can_reply s) = host s" "can (can_reply s) = can s" "flash (can_reply s) = flash s"
  "net (can_reply s) = net s" "g_Error (can_reply s) = g_Error s"
  "rel (can_reply s) = emit [CanTransmit (g_RemoteCanId (net s)) (map ((!) (g_DataFromHost (host s))) [0..<8])] (rel s)"
  by (simp_all add: reply_byte_def can_reply_def CAN1_Send_Msg_def)

lemma misc_simps [simp]:
  "host (clear_config s) = FIU_Cmd0_CurPinFlag_init (P_init (host s))" "rel (clear_config s) = rel s"
  "can (clear_config s) = can s" "flash (clear_config s) = flash s" "net (clear_config s) = net s"
  "g_Error (clear_config s) = g_Error s"
  "host (can_release s) = host s" "rel (can_release s) = rel s" "can (can_release s) = ring_release (can s)"
  "flash (can_release s) = flash s" "net (can_release s) = net s" "g_Error (can_release s) = g_Error s"
  by (simp_all add: clear_config_def can_release_def)

lemma init_keeps [simp]:
  "g_DataFromHost (P_init h) = g_DataFromHost h" "g_WorkMode (P_init h) = g_WorkMode h"
  "g_FiuByte17Data (P_init h) = g_FiuByte17Data h" "g_workStatus (P_init h) = g_workStatus h"
  "g_DataFromHost (FIU_Cmd0_CurPinFlag_init h) = g_DataFromHost h"
  "g_WorkMode (FIU_Cmd0_CurPinFlag_init h) = g_WorkMode h"
  "g_FiuByte17Data (FIU_Cmd0_CurPinFlag_init h) = g_FiuByte17Data h"
  "g_workStatus (FIU_Cmd0_CurPinFlag_init h) = g_workStatus h"
  "P0 (FIU_Cmd0_CurPinFlag_init h) = P0 h" "P1 (FIU_Cmd0_CurPinFlag_init h) = P1 h"
  "P4_0 (FIU_Cmd0_CurPinFlag_init h) = P4_0 h" "g_Ptime (FIU_Cmd0_CurPinFlag_init h) = g_Ptime h"
  "g_Pfreq (FIU_Cmd0_CurPinFlag_init h) = g_Pfreq h" "g_Pduty (FIU_Cmd0_CurPinFlag_init h) = g_Pduty h"
  "g_bLoose (FIU_Cmd0_CurPinFlag_init h) = g_bLoose h" "g_bLoose (P_init h) = g_bLoose h"
  by (simp_all add: P_init_def FIU_Cmd0_CurPinFlag_init_def)

lemma host_wf_updates [simp]:
  "host_wf h \<Longrightarrow> length d = 8 \<Longrightarrow> host_wf (h\<lparr>g_DataFromHost := d\<rparr>)"
  "host_wf h \<Longrightarrow> length f = 17 \<Longrightarrow> host_wf (h\<lparr>g_FiuByte17Data := f\<rparr>)"
  "host_wf (h\<lparr>g_workStatus := b\<rparr>) = host_wf h" "host_wf (h\<lparr>g_bTime := b\<rparr>) = host_wf h"
  "host_wf (h\<lparr>g_Ptime := w\<rparr>) = host_wf h"
  by (simp_all add: host_wf_def)

lemma host_wf_lengths: "host_wf h \<Longrightarrow> length (g_DataFromHost h) = 8 \<and> length (g_FiuByte17Data h) = 17"
  by (simp add: host_wf_def)

text \<open>Decoding a message touches neither the message, the work mode, the work status nor the frame.\<close>

lemma McuGet_keeps:
  assumes "host_wf h" "McuGetHostConfigInfo h = Inr (r, h')"
  shows "host_wf h'" "g_DataFromHost h' = g_DataFromHost h" "g_WorkMode h' = g_WorkMode h"
    "g_FiuByte17Data h' = g_FiuByte17Data h" "r = 0 \<or> 0x81 \<le> r"
proof -
  let ?K = "\<lambda>h'. host_wf h' \<and> g_DataFromHost h' = g_DataFromHost h \<and> g_WorkMode h' = g_WorkMode h \<and>
    g_FiuByte17Data h' = g_FiuByte17Data h"
  have "?K h' \<and> (r = 0 \<or> 0x81 \<le> r)"
  proof (cases "accepts (g_DataFromHost h) h")
    case True
    from assms(1) this show ?thesis
    proof (cases rule: McuGet_outcome)
      case (add h1 a b c e)
      then have "?K h1" "g_HostConfigPass h1 = 0" by (simp_all add: cfg_data_def host_wf_def)
      with add(3) assms(2) show ?thesis
        by (auto simp: cfg_pass_def config_step_def Let_def mark_type_def mark_pin_def mark_load_def)
    next
      case (err h1 k)
      with assms(2) host_wf_inits(1)[OF err(1)] show ?thesis
        by (auto simp: host_wf_def cfg_err_def cfg_data_def err_code_nonzero)
    next
      case (loose h1)
      with assms(2) have "h' = snd (config_cmd4 h1)" "r = fst (config_cmd4 h1)" by simp_all
      with loose show ?thesis by (simp add: cfg_data_def host_wf_def[of h1])
    qed (use assms in \<open>auto simp: host_wf_def cfg_data_def cfg_pass_def\<close>)
  next
    case False
    from McuGet_rejected[OF assms(1) False] assms(2) show ?thesis
      by (auto simp: GlobalDataInit_def cfg_data_def)
  qed
  then show "host_wf h'" "g_DataFromHost h' = g_DataFromHost h" "g_WorkMode h' = g_WorkMode h"
    "g_FiuByte17Data h' = g_FiuByte17Data h" "r = 0 \<or> 0x81 \<le> r" by blast+
qed

section \<open>The invariant of the unit\<close>

text \<open>
  Arrays of their declared lengths, error table intact, ring cursors in range and aligned, and
  the shadow copies of the relay registers equal to the registers on the board.
\<close>

definition sys_ok :: "board \<Rightarrow> 'f sys_st \<Rightarrow> bool" where
  "sys_ok b0 s \<longleftrightarrow> host_wf (host s) \<and> good b0 (rel s) \<and> ring_wf (can s)"

text \<open>What selects the branch of a handler.\<close>

definition msg_key :: "'f sys_st \<Rightarrow> u8 \<times> u8 \<times> u8" where
  "msg_key s = (g_DataFromHost (host s) ! 0, g_DataFromHost (host s) ! 1, g_WorkMode (host s))"

definition stable :: "board \<Rightarrow> ('f sys_st \<Rightarrow> 'f sys_st res) \<Rightarrow> bool" where
  "stable b0 f \<longleftrightarrow> (\<forall>s s'. sys_ok b0 s \<longrightarrow> f s = Inr s' \<longrightarrow> sys_ok b0 s' \<and> msg_key s' = msg_key s)"

named_theorems stable_intros "steps that keep the invariant and the selection"

lemma stableD: "stable b0 f \<Longrightarrow> sys_ok b0 s \<Longrightarrow> f s = Inr s' \<Longrightarrow> sys_ok b0 s' \<and> msg_key s' = msg_key s"
  by (simp add: stable_def)

lemma stable_bind [stable_intros]:
  assumes "stable b0 f" "stable b0 g"
  shows "stable b0 (\<lambda>s. bind_res (f s) g)"
  unfolding stable_def bind_res_eq_Inr using assms[THEN stableD] by metis

lemma stable_if [stable_intros]:
  assumes "stable b0 f" "stable b0 g"
  shows "stable b0 (\<lambda>s. if p s then f s else g s)"
  unfolding stable_def using assms[THEN stableD] by metis

lemma stable_skip [stable_intros]: "stable b0 Inr"
  by (simp add: stable_def)

lemma stable_on_cmd [stable_intros]: "stable b0 f \<Longrightarrow> stable b0 (on_cmd c f)"
  unfolding on_cmd_def by (intro stable_intros)

lemma stable_step:
  assumes "\<And>s. sys_ok b0 s \<Longrightarrow> sys_ok b0 (f s) \<and> msg_key (f s) = msg_key s"
  shows "stable b0 (\<lambda>s. Inr (f s))"
  using assms by (simp add: stable_def)

lemma clk_quiet_pin: "snd p < 16 \<Longrightarrow> p \<notin> set CHCLK_tab \<Longrightarrow> clk_quiet (write_pin p v)"
  using pin_in_tab(1) by (auto simp: clk_quiet_def level_step_write_pin)

lemma quiet_events:
  "\<forall>e \<in> set (stop_timers s). clk_quiet e" "\<forall>e \<in> set pwm_release. clk_quiet e"
  "\<forall>e \<in> set (TIM10_PWM_Init a p c). clk_quiet e" "\<forall>e \<in> set (TIM2_Init b q). clk_quiet e"
  "\<forall>e \<in> set (HAL_TIM_PeriodElapsedCallback t l). clk_quiet e" "\<forall>e \<in> set (snd (Fuse_check fuse)). clk_quiet e"
  by (auto simp: stop_timers_def stop_tim10_def stop_tim2_def pwm_release_def TIM10_PWM_Init_def TIM2_Init_def HAL_TIM_PWM_MspInit_def
      HAL_TIM_PeriodElapsedCallback_def Fuse_check_def PF6_def clk_quiet_pin CHCLK_tab_def split: if_splits)

lemma sys_ok_emit: "sys_ok b0 s \<Longrightarrow> \<forall>e \<in> set es. clk_quiet e \<Longrightarrow> sys_ok b0 (sys_emit es s)"
  by (simp add: sys_ok_def good_quiet)

lemma sys_ok_ready [simp]:
  "sys_ok b0 (s\<lparr>tim10_ready := t\<rparr>) = sys_ok b0 s" "sys_ok b0 (s\<lparr>tim2_ready := t\<rparr>) = sys_ok b0 s"
  by (simp_all add: sys_ok_def)

lemma sys_ok_reply [simp]:
  "sys_ok b0 s \<Longrightarrow> sys_ok b0 (reply_byte k v s)" "sys_ok b0 s \<Longrightarrow> sys_ok b0 (can_reply s)"
  "sys_ok b0 s \<Longrightarrow> sys_ok b0 (clear_config s)" "sys_ok b0 s \<Longrightarrow> sys_ok b0 (set_host P_init s)"
  "sys_ok b0 s \<Longrightarrow> sys_ok b0 (set_host FIU_Cmd0_CurPinFlag_init s)"
  using good_quiet[of b0 "rel s" "[CanTransmit i d]" for i d] by (simp_all add: sys_ok_def host_wf_lengths)

lemma msg_key_simps [simp]:
  "2 \<le> k \<Longrightarrow> msg_key (reply_byte k v s) = msg_key s" "msg_key (can_reply s) = msg_key s"
  "msg_key (clear_config s) = msg_key s" "msg_key (sys_emit es s) = msg_key s" "msg_key (can_release s) = msg_key s"
  "msg_key (set_host P_init s) = msg_key s" "msg_key (set_host FIU_Cmd0_CurPinFlag_init s) = msg_key s"
  "msg_key (s\<lparr>flash := f\<rparr>) = msg_key s" "msg_key (s\<lparr>rel := r\<rparr>) = msg_key s"
  "msg_key (set_host (\<lambda>h. h\<lparr>g_workStatus := b\<rparr>) s) = msg_key s"
  "msg_key (s\<lparr>tim10_ready := t\<rparr>) = msg_key s" "msg_key (s\<lparr>tim2_ready := t\<rparr>) = msg_key s"
  by (simp_all add: msg_key_def)

section \<open>Every branch is stable\<close>

lemma stable_do_config [stable_intros]: "2 \<le> k \<Longrightarrow> stable b0 (do_config k)"
  unfolding stable_def do_config_def
proof (intro allI impI)
  fix s s' :: "'a sys_st"
  assume k: "2 \<le> k" and ok: "sys_ok b0 s" and
    s': "bind_res (McuGetHostConfigInfo (host s)) (\<lambda>(result, h). let s = s\<lparr>host := h\<rparr> in
      Inr (if g_Error s \<noteq> 0 then reply_byte k (g_Error s) s
          else if result = g_HostConfigPass (host s) then reply_byte k result s
          else reply_byte k result (set_host FIU_Cmd0_CurPinFlag_init s))) = Inr s'"
  then obtain r h where r: "McuGetHostConfigInfo (host s) = Inr (r, h)" by auto
  note keep = McuGet_keeps[OF _ r]
  have "sys_ok b0 (s\<lparr>host := h\<rparr>)" "msg_key (s\<lparr>host := h\<rparr>) = msg_key s"
    using ok keep by (simp_all add: sys_ok_def msg_key_def)
  with s' r k show "sys_ok b0 s' \<and> msg_key s' = msg_key s" by (auto simp: Let_def)
qed

lemma sys_ok_frame: "sys_ok b0 s \<Longrightarrow> length f = 17 \<Longrightarrow> sys_ok b0 (s\<lparr>host := (host s)\<lparr>g_FiuByte17Data := f\<rparr>\<rparr>)"
  by (simp add: sys_ok_def)

lemma config_packs:
  assumes "sys_ok b0 s"
  shows "DataAtPxToFiuBytes17 (host s) = (0, (host s)\<lparr>g_FiuByte17Data := packed_frame (host s)\<rparr>)"
  using assms DataAtPx_eq by (simp add: sys_ok_def)

lemma stable_udp_config_done [stable_intros]: "stable b0 (\<lambda>s. Inr (udp_config_done s))"
proof (rule stable_step)
  fix s :: "'a sys_st"
  assume ok: "sys_ok b0 s"
  define s1 where "s1 = set_host (\<lambda>h. h\<lparr>g_Ptime :=
    push_bit 8 (ucast (g_DataFromHost (host s) ! 3)) OR ucast (g_DataFromHost (host s) ! 2)\<rparr>) s"
  define s2 where "s2 = (if g_bTime (host s1) = 0 then set_host (\<lambda>h. h\<lparr>g_bTime := 1\<rparr>) s1 else s1)"
  have s1: "sys_ok b0 s1" "msg_key s1 = msg_key s" using ok by (simp_all add: s1_def sys_ok_def msg_key_def)
  then have s2: "sys_ok b0 s2" "msg_key s2 = msg_key s" by (auto simp: s2_def sys_ok_def msg_key_def)
  let ?s3 = "s2\<lparr>host := (host s2)\<lparr>g_FiuByte17Data := packed_frame (host s2)\<rparr>\<rparr>"
  have s3: "sys_ok b0 ?s3" "msg_key ?s3 = msg_key s"
    using sys_ok_frame[OF s2(1)] s2(2) by (simp_all add: packed_frame_shape msg_key_def)
  have "udp_config_done s \<in> {reply_byte 2 (g_Error s1) s1,
      clear_config (reply_byte 2 (g_HostConfigErr (host s1) ! 1) s1),
      set_host FIU_Cmd0_CurPinFlag_init (reply_byte 2 0 ?s3), clear_config (reply_byte 2 0 ?s3)}"
    unfolding udp_config_done_def Let_def s1_def[symmetric] s2_def[symmetric] config_packs[OF s2(1)]
    by (simp add: clear_config_def)
  then show "sys_ok b0 (udp_config_done s) \<and> msg_key (udp_config_done s) = msg_key s"
    using s1 s3 by (elim insertE emptyE) simp_all
qed

lemma stable_sys_frame [stable_intros]: "stable b0 sys_frame"
  unfolding stable_def sys_frame_def
  using FiuCom_keeps_good host_wf_lengths by (fastforce simp: sys_ok_def)

lemma stable_emit [stable_intros]: "\<forall>e \<in> set es. clk_quiet e \<Longrightarrow> stable b0 (\<lambda>s. Inr (sys_emit es s))"
  by (rule stable_step) (simp add: sys_ok_emit)

lemma stable_reply [stable_intros]:
  "2 \<le> k \<Longrightarrow> stable b0 (\<lambda>s. Inr (reply_byte k (v s) s))" "stable b0 (\<lambda>s. Inr (can_reply s))"
  "stable b0 (\<lambda>s. Inr (clear_config s))"
  by (rule stable_step; simp)+

text \<open>A total step before a stable one.\<close>

lemma stable_pre:
  assumes "stable b0 (\<lambda>s. Inr (f s))" "stable b0 g"
  shows "stable b0 (\<lambda>s. g (f s))"
  using stable_bind[OF assms] by simp

lemma stable_startFault [stable_intros]: "stable b0 startFault"
proof -
  have st: "stable b0 (\<lambda>s. Inr (sys_emit (stop_timers s) (set_host (\<lambda>h. h\<lparr>g_workStatus := 1\<rparr>) s)))"
    by (rule stable_step) (auto simp: sys_ok_def quiet_events(1) intro!: good_quiet)
  have pwm: "stable b0 (\<lambda>s. bind_res (pwm_arr (g_Pfreq (host s))) (\<lambda>arr.
       Inr (sys_emit (TIM10_PWM_Init arr (180 * 100) (ucast (pwm_ccr (g_Pduty (host s)) arr))) s\<lparr>tim10_ready := True\<rparr>)))"
    unfolding stable_def by (auto simp: sys_ok_emit quiet_events(3))
  have tim: "stable b0 (\<lambda>s. Inr (if g_Ptime (host s) > 0 then
      sys_emit (TIM2_Init (ucast (g_Ptime (host s)) * 2) (90 * 500)) s\<lparr>tim2_ready := True\<rparr> else s))"
    by (rule stable_step) (simp add: sys_ok_emit quiet_events(4))
  show ?thesis
    unfolding startFault_def Let_def
    by (rule stable_pre[OF st]) (intro stable_intros pwm tim)
qed

lemma length_reset_frame: "host_wf h \<Longrightarrow> host_wf (reset_frame h)"
  by (simp add: reset_frame_def host_wf_lengths)

lemma stable_reset_prefix [stable_intros]:
  "stable b0 (\<lambda>s. Inr (set_host reset_frame (sys_emit (stop_timers s @ pwm_release) s)))"
proof (rule stable_step)
  fix s :: "'a sys_st"
  have "msg_key (set_host reset_frame s) = msg_key s" for s :: "'a sys_st"
    by (simp add: msg_key_def reset_frame_def)
  moreover assume "sys_ok b0 s"
  ultimately show "sys_ok b0 (set_host reset_frame (sys_emit (stop_timers s @ pwm_release) s)) \<and>
      msg_key (set_host reset_frame (sys_emit (stop_timers s @ pwm_release) s)) = msg_key s"
    using quiet_events(1)[of s] quiet_events(2) by (auto simp: sys_ok_def length_reset_frame intro!: good_quiet)
qed

lemma stable_cond [stable_intros]:
  "stable b0 (\<lambda>s. Inr (f s)) \<Longrightarrow> stable b0 (\<lambda>s. Inr (g s)) \<Longrightarrow> stable b0 (\<lambda>s. Inr (if p s then f s else g s))"
  unfolding stable_def by simp

lemma stable_seq:
  "stable b0 (\<lambda>s. Inr (f s)) \<Longrightarrow> stable b0 (\<lambda>s. Inr (g s)) \<Longrightarrow> stable b0 (\<lambda>s. Inr (g (f s)))"
  unfolding stable_def by simp

lemma stable_reply_fuses: "stable b0 (\<lambda>s. Inr (fold (\<lambda>i. reply_byte (3 + i) (v i)) ns s))"
proof (induction ns)
  case Nil
  show ?case by (simp add: stable_skip)
next
  case (Cons n ns)
  from stable_seq[OF stable_reply(1)[of "3 + n" b0 "\<lambda>_. v n"] Cons] show ?case by simp
qed

lemma stable_fuses:
  "stable b0 (udp_fuses fuse)" "stable b0 (can_fuses fuse)"
proof -
  have pre: "stable b0 (\<lambda>s. Inr (sys_emit (snd (Fuse_check fuse)) (clear_config s)))"
    by (intro stable_seq[OF stable_reply(3)] stable_emit quiet_events)
  show "stable b0 (udp_fuses fuse)"
    unfolding udp_fuses_def Let_def case_prod_beta reply_fuses_def
    by (intro stable_intros stable_pre[OF pre] stable_seq[OF stable_reply(1) stable_reply_fuses]) simp_all
  show "stable b0 (can_fuses fuse)"
    unfolding can_fuses_def Let_def case_prod_beta reply_fuses_def
    by (intro stable_intros stable_pre[OF pre] stable_seq[OF stable_reply(1) stable_reply(2)]
        stable_seq[OF stable_seq[OF stable_reply(1) stable_reply_fuses] stable_reply(2)]) simp_all
qed

lemma stable_record: "stable b0 (udp_record dev addr)"
  by (auto simp: stable_def udp_record_def sys_ok_def host_wf_lengths split: if_splits)

lemma stable_start_reset:
  "stable b0 udp_start" "stable b0 can_start" "stable b0 udp_reset" "stable b0 can_reset"
proof -
  have re: "stable b0 (\<lambda>s. Inr (reply_byte 2 (g_Error s) s))" "stable b0 (\<lambda>s. Inr (can_reply (reply_byte 2 (g_Error s) s)))"
    "stable b0 (\<lambda>s. Inr (clear_config (reply_byte 2 0 s)))" "stable b0 (\<lambda>s. Inr (clear_config (can_reply (reply_byte 2 0 s))))"
    by (rule stable_step; simp)+
  show "stable b0 udp_start" "stable b0 can_start"
    unfolding udp_start_def can_start_def by (intro stable_intros re)+
  have t2: "stable b0 (\<lambda>s. Inr (sys_emit [if tim2_ready s then Tim2StopIT else NullTimer 2] s))"
    by (rule stable_step) (simp add: sys_ok_emit)
  show "stable b0 udp_reset"
    unfolding udp_reset_def Let_def
    by (rule stable_pre[OF stable_seq[OF stable_reset_prefix stable_cond[OF t2 stable_skip]]]) (intro stable_intros re)
  show "stable b0 can_reset"
    unfolding can_reset_def by (rule stable_pre[OF stable_reset_prefix]) (intro stable_intros re)
qed

lemma stable_can_config: "2 \<le> k \<Longrightarrow> stable b0 (can_config k)"
  unfolding can_config_def by (intro stable_intros)

lemma stable_can_status: "stable b0 can_status"
  unfolding can_status_def by (rule stable_step) simp

section \<open>A message reaches one branch\<close>

text \<open>A branch of a handler: its command byte, whether it asks for the work mode, its body.\<close>

type_synonym 'f branch = "u8 \<times> bool \<times> ('f sys_st \<Rightarrow> 'f sys_st res)"

definition run_branch :: "'f branch \<Rightarrow> 'f sys_st \<Rightarrow> 'f sys_st res" where
  "run_branch br s = (case (br, msg_key s) of ((c, moded, f), (d0, d1, wm)) \<Rightarrow>
     if c = d0 \<and> (moded \<longrightarrow> wm = d1) then f s else Inr s)"

lemma run_branch_cmd [simp]:
  "run_branch (c, True, f) = on_cmd c f"
  "run_branch (c, False, f) s = (if c = g_DataFromHost (host s) ! 0 then f s else Inr s)"
  by (auto simp: run_branch_def on_cmd_def is_cmd_def msg_key_def fun_eq_iff)

lemma run_branch_skip: "c \<noteq> fst (msg_key s) \<Longrightarrow> run_branch (c, m, f) s = Inr s"
  by (auto simp: run_branch_def split: prod.splits)

lemma skip_branches:
  "fst (msg_key s) \<notin> fst ` set brs \<Longrightarrow> for_each brs run_branch s = Inr s"
  by (induction brs) (auto simp: run_branch_skip)

text \<open>Testing the branches one after the other runs the one that the message selects.\<close>

lemma dispatch_branches:
  assumes "sys_ok b0 s" "distinct (map fst brs)" "\<forall>(c, m, f) \<in> set brs. stable b0 f"
  shows "for_each brs run_branch s =
    (case map_of brs (fst (msg_key s)) of Some (m, f) \<Rightarrow> run_branch (fst (msg_key s), m, f) s | None \<Rightarrow> Inr s)"
  using assms
proof (induction brs)
  case Nil
  then show ?case by simp
next
  case (Cons br brs)
  obtain c m f where br: "br = (c, m, f)" by (cases br) auto
  show ?case
  proof (cases "c = fst (msg_key s)")
    case True
    have "for_each brs run_branch s' = Inr s'" if "run_branch br s = Inr s'" for s'
    proof (rule skip_branches)
      have "msg_key s' = msg_key s"
        using that Cons.prems br by (auto simp: run_branch_def dest: stableD split: prod.splits if_splits)
      with Cons.prems(2) True br show "fst (msg_key s') \<notin> fst ` set brs" by auto
    qed
    then have "bind_res (run_branch br s) (for_each brs run_branch) = run_branch br s"
      by (cases "run_branch br s") simp_all
    with True br show ?thesis by simp
  next
    case False
    with Cons br show ?thesis by (simp add: run_branch_skip)
  qed
qed

lemma stable_run_branch: "stable b0 f \<Longrightarrow> stable b0 (run_branch (c, m, f))"
  unfolding run_branch_def case_prod_beta fst_conv snd_conv by (intro stable_intros)

lemma stable_branches:
  "\<forall>(c, m, f) \<in> set brs. stable b0 f \<Longrightarrow> stable b0 (for_each brs run_branch)"
proof (induction brs)
  case Nil
  show ?case by (simp add: stable_def)
next
  case (Cons br brs)
  obtain c m f where "br = (c, m, f)" by (cases br) auto
  with Cons stable_bind[OF stable_run_branch[of b0 f c m], of "for_each brs run_branch"]
  show ?case by simp
qed

definition udp_branches :: "'f flash_dev \<Rightarrow> (nat \<Rightarrow> bool) \<Rightarrow> 'f branch list" where
  "udp_branches dev fuse =
     [(0, True, do_config 3), (1, True, do_config 3), (2, True, do_config 3), (3, True, do_config 3),
      (4, True, do_config 2), (5, True, \<lambda>s. Inr (udp_config_done s)), (0x10, True, udp_start), (0x11, True, udp_reset),
      (0x1A, True, udp_fuses fuse), (0x13, False, udp_record dev FLASH_PROCHEAD_WM),
      (0x15, True, udp_record dev FLASH_PROCHEAD), (0x19, True, udp_record dev FLASH_PROCHEAD_CAN),
      (0x17, True, udp_record dev FLASH_PROCHEAD_CAN_r)]"

lemma udp_branches_ok:
  "distinct (map fst (udp_branches dev fuse))" "\<forall>(c, m, f) \<in> set (udp_branches dev fuse). stable b0 f"
  by (simp_all add: udp_branches_def stable_do_config stable_udp_config_done stable_start_reset stable_fuses
      stable_record)

lemma udp_dispatch:
  assumes "sys_ok b0 s" "length data = 8" and s0: "s0 = set_host (\<lambda>h. h\<lparr>g_DataFromHost := data\<rparr>) s"
  shows "HostCanDataAnalysisNoLoopBuf dev fuse data s =
    (if data ! 0 = 0x1C \<and> g_WorkMode (host s) = data ! 1 then Inr (None, sys_emit [SystemReset] s0)
     else bind_res
       (case map_of (udp_branches dev fuse) (data ! 0) of
          Some (m, f) \<Rightarrow> if m \<longrightarrow> g_WorkMode (host s) = data ! 1 then f s0 else Inr s0
        | None \<Rightarrow> Inr s0) (\<lambda>s. Inr (Some (g_DataFromHost (host s)), s)))"
proof -
  have ok0: "sys_ok b0 s0" using assms(1,2) by (simp add: s0 sys_ok_def)
  have key0: "msg_key s0 = (data ! 0, data ! 1, g_WorkMode (host s))" by (simp add: s0 msg_key_def)
  let ?fin = "\<lambda>s. if is_cmd 0x1C s then Inr (None, sys_emit [SystemReset] s) else Inr (Some (g_DataFromHost (host s)), s)"
  let ?run = "case map_of (udp_branches dev fuse) (data ! 0) of
      Some (m, f) \<Rightarrow> if m \<longrightarrow> g_WorkMode (host s) = data ! 1 then f s0 else Inr s0 | None \<Rightarrow> Inr s0"
  have "HostCanDataAnalysisNoLoopBuf dev fuse data s = bind_res (for_each (udp_branches dev fuse) run_branch s0) ?fin"
    using assms(2) unfolding HostCanDataAnalysisNoLoopBuf_def udp_branches_def s0 Let_def
    by (simp add: bind_res_assoc eq_commute[of "0x13"])
  also have "for_each (udp_branches dev fuse) run_branch s0 = ?run"
    unfolding dispatch_branches[OF ok0 udp_branches_ok] key0
    by (auto simp: run_branch_def key0 split: option.splits)
  finally have eq: "HostCanDataAnalysisNoLoopBuf dev fuse data s = bind_res ?run ?fin" .
  have cmd: "is_cmd 0x1C s' \<longleftrightarrow> data ! 0 = 0x1C \<and> g_WorkMode (host s) = data ! 1" if "?run = Inr s'" for s'
  proof -
    have "for_each (udp_branches dev fuse) run_branch s0 = Inr s'"
      using that \<open>for_each (udp_branches dev fuse) run_branch s0 = ?run\<close> by simp
    then have "msg_key s' = msg_key s0"
      using stableD[OF stable_branches[OF udp_branches_ok(2)] ok0] by blast
    then show ?thesis using key0 by (auto simp: is_cmd_def msg_key_def)
  qed
  have "?run = Inr s0" if "data ! 0 = 0x1C"
    using that by (simp add: udp_branches_def)
  then show ?thesis unfolding eq by (cases ?run) (use cmd in auto)
qed

definition can_branches :: "(nat \<Rightarrow> bool) \<Rightarrow> 'f branch list" where
  "can_branches fuse =
     [(0, True, can_config 3), (1, True, can_config 3), (2, True, can_config 3), (3, True, can_config 3),
      (4, True, can_config 2), (0x10, True, can_start), (0x11, True, can_reset), (0x1A, True, can_fuses fuse),
      (0x1D, True, can_status)]"

lemma can_branches_ok:
  "distinct (map fst (can_branches fuse))" "\<forall>(c, m, f) \<in> set (can_branches fuse). stable b0 f"
  by (simp_all add: can_branches_def stable_can_config stable_start_reset stable_fuses stable_can_status)

lemma sys_ok_release [simp]: "sys_ok b0 s \<Longrightarrow> sys_ok b0 (can_release s)"
  by (simp add: sys_ok_def ring_wf_release)

lemma can_config_done_ok:
  assumes ok: "sys_ok b0 s"
  shows "sys_ok b0 (snd (can_config_done s))" "msg_key (snd (can_config_done s)) = msg_key s"
proof -
  define s1 where "s1 = set_host (\<lambda>h. h\<lparr>g_Ptime :=
    push_bit 8 (ucast (g_DataFromHost (host s) ! 2)) OR ucast (g_DataFromHost (host s) ! 3)\<rparr>) s"
  define s2 where "s2 = set_host (\<lambda>h. h\<lparr>g_bTime := 1\<rparr>) s1"
  have s1: "sys_ok b0 s1" "msg_key s1 = msg_key s" using ok by (simp_all add: s1_def sys_ok_def msg_key_def)
  then have s2: "sys_ok b0 s2" "msg_key s2 = msg_key s" by (auto simp: s2_def sys_ok_def msg_key_def)
  let ?s3 = "s2\<lparr>host := (host s2)\<lparr>g_FiuByte17Data := packed_frame (host s2)\<rparr>\<rparr>"
  have s3: "sys_ok b0 ?s3" "msg_key ?s3 = msg_key s"
    using sys_ok_frame[OF s2(1)] s2(2) by (simp_all add: packed_frame_shape msg_key_def)
  have "snd (can_config_done s) \<in> {can_reply (reply_byte 2 (g_Error s1) s1),
      clear_config (can_release (can_reply (reply_byte 2 (g_HostConfigErr (host s1) ! 1) s1))),
      set_host FIU_Cmd0_CurPinFlag_init (can_release (can_reply (reply_byte 2 0 ?s3))),
      clear_config (can_release (can_reply (reply_byte 2 0 ?s3)))}"
    unfolding can_config_done_def Let_def s1_def[symmetric] s2_def[symmetric] config_packs[OF s2(1)]
    by simp
  then show "sys_ok b0 (snd (can_config_done s))" "msg_key (snd (can_config_done s)) = msg_key s"
    using s1 s3 by (elim insertE emptyE; simp)+
qed

lemma is_cmd_key: "is_cmd c s \<longleftrightarrow> msg_key s = (c, g_WorkMode (host s), g_WorkMode (host s))"
  by (auto simp: is_cmd_def msg_key_def)

text \<open>Without configuration-done and restart, the handler is a walk over its branches.\<close>

lemma can_walk:
  assumes "sys_ok b0 s0" "fst (msg_key s0) \<noteq> 5" "fst (msg_key s0) \<noteq> 0x1C"
  shows "bind_res (for_each (take 5 (can_branches fuse)) run_branch s0) (\<lambda>s.
      case (if is_cmd 5 s then can_config_done s else (None, s)) of
        (Some r, s) \<Rightarrow> Inr (Some r, s) | (None, s) \<Rightarrow> can_rest fuse s) =
    bind_res (for_each (can_branches fuse) run_branch s0) (\<lambda>s. Inr (Some 1, can_release s))"
proof -
  have st: "stable b0 (for_each brs run_branch)" if "set brs \<subseteq> set (can_branches fuse)" for brs
    using can_branches_ok(2)[of fuse b0] that by (intro stable_branches) blast
  have rest: "can_rest fuse s = bind_res (for_each (drop 5 (can_branches fuse)) run_branch s) (\<lambda>s. Inr (Some 1, can_release s))"
    if "sys_ok b0 s" "msg_key s = msg_key s0" for s
  proof -
    have fin: "(if is_cmd 0x1C s' then Inr (None, sys_emit [SystemReset] s')
        else bind_res (on_cmd 0x1D can_status s') (\<lambda>s. Inr (Some 1, can_release s))) =
      bind_res (on_cmd 0x1D can_status s') (\<lambda>s. Inr (Some 1, can_release s))"
      if "for_each [(0x10, True, can_start), (0x11, True, can_reset), (0x1A, True, can_fuses fuse)] run_branch s = Inr s'" for s'
    proof -
      have "msg_key s' = msg_key s0"
        using stableD[OF st \<open>sys_ok b0 s\<close> that] \<open>msg_key s = msg_key s0\<close> by (simp add: can_branches_def)
      with assms(3) show ?thesis by (auto simp: is_cmd_key)
    qed
    have "can_rest fuse s = bind_res (for_each [(0x10, True, can_start), (0x11, True, can_reset), (0x1A, True, can_fuses fuse)] run_branch s)
      (\<lambda>s. if is_cmd 0x1C s then Inr (None, sys_emit [SystemReset] s)
        else bind_res (on_cmd 0x1D can_status s) (\<lambda>s. Inr (Some 1, can_release s)))"
      by (simp add: can_rest_def bind_res_assoc)
    also have "\<dots> = bind_res (for_each (drop 5 (can_branches fuse)) run_branch s) (\<lambda>s. Inr (Some 1, can_release s))"
      by (subst bind_res_cong_Inr[OF fin]) (simp_all add: can_branches_def bind_res_assoc)
    finally show ?thesis .
  qed
  have "bind_res (for_each (take 5 (can_branches fuse)) run_branch s0) (\<lambda>s.
      case (if is_cmd 5 s then can_config_done s else (None, s)) of
        (Some r, s) \<Rightarrow> Inr (Some r, s) | (None, s) \<Rightarrow> can_rest fuse s) =
    bind_res (for_each (take 5 (can_branches fuse)) run_branch s0) (\<lambda>s.
      bind_res (for_each (drop 5 (can_branches fuse)) run_branch s) (\<lambda>s. Inr (Some 1, can_release s)))"
  proof (rule bind_res_cong_Inr)
    fix s assume "for_each (take 5 (can_branches fuse)) run_branch s0 = Inr s"
    from stableD[OF st assms(1) this] have "sys_ok b0 s" "msg_key s = msg_key s0" by (auto dest: in_set_takeD)
    with rest assms(2) show "(case (if is_cmd 5 s then can_config_done s else (None, s)) of
        (Some r, s) \<Rightarrow> Inr (Some r, s) | (None, s) \<Rightarrow> can_rest fuse s) =
      bind_res (for_each (drop 5 (can_branches fuse)) run_branch s) (\<lambda>s. Inr (Some 1, can_release s))"
      by (auto simp: is_cmd_key)
  qed
  then show ?thesis by (simp flip: bind_res_assoc for_each_append)
qed

lemma can_dispatch:
  assumes ok: "sys_ok b0 s" and pend: "ring_pending (can s)"
    and d: "d = ring_peek (can s)" and s0: "s0 = set_host (\<lambda>h. h\<lparr>g_DataFromHost := d\<rparr>) s"
  shows "HostCanDataAnalysis fuse s =
    (if g_WorkMode (host s) \<noteq> d ! 1 then Inr (Some 1, can_release s0)
     else if d ! 0 = 5 then
       Inr (case can_config_done s0 of (Some r, s) \<Rightarrow> (Some r, s) | (None, s) \<Rightarrow> (Some 1, can_release s))
     else if d ! 0 = 0x1C then Inr (None, sys_emit [SystemReset] s0)
     else bind_res (case map_of (can_branches fuse) (d ! 0) of Some (m, f) \<Rightarrow> f s0 | None \<Rightarrow> Inr s0)
       (\<lambda>s. Inr (Some 1, can_release s)))"
proof -
  have len: "length d = 8" by (simp add: d ring_peek_def)
  have ok0: "sys_ok b0 s0" using ok len by (simp add: s0 sys_ok_def)
  have key0: "msg_key s0 = (d ! 0, d ! 1, g_WorkMode (host s))" by (simp add: s0 msg_key_def)
  have eq: "HostCanDataAnalysis fuse s = bind_res (for_each (take 5 (can_branches fuse)) run_branch s0) (\<lambda>s.
      case (if is_cmd 5 s then can_config_done s else (None, s)) of
        (Some r, s) \<Rightarrow> Inr (Some r, s) | (None, s) \<Rightarrow> can_rest fuse s)"
    using pend by (simp add: HostCanDataAnalysis_def can_branches_def bind_res_assoc s0 d)
  have cmd0: "is_cmd c s0 \<longleftrightarrow> c = d ! 0 \<and> g_WorkMode (host s) = d ! 1" for c
    by (simp add: is_cmd_def s0)
  consider "g_WorkMode (host s) \<noteq> d ! 1" | "g_WorkMode (host s) = d ! 1" "d ! 0 = 5"
    | "g_WorkMode (host s) = d ! 1" "d ! 0 = 0x1C" | "g_WorkMode (host s) = d ! 1" "d ! 0 \<noteq> 5" "d ! 0 \<noteq> 0x1C" by blast
  then show ?thesis
  proof cases
    case 1
    then show ?thesis unfolding eq by (simp add: can_branches_def on_cmd_def cmd0 can_rest_def)
  next
    case 2
    have rest: "can_rest fuse s' = Inr (Some 1, can_release s')" if "msg_key s' = msg_key s0" for s'
      using that 2 by (simp add: can_rest_def on_cmd_def is_cmd_key key0)
    obtain e s' where e: "can_config_done s0 = (e, s')" by fastforce
    with can_config_done_ok(2)[OF ok0] have "msg_key s' = msg_key s0" by simp
    with 2 e show ?thesis unfolding eq
      by (auto simp: can_branches_def on_cmd_def cmd0 rest split: option.splits)
  next
    case 3
    then show ?thesis unfolding eq by (simp add: can_branches_def on_cmd_def cmd0 can_rest_def)
  next
    case 4
    have "\<And>m f. map_of (can_branches fuse) (d ! 0) = Some (m, f) \<Longrightarrow> m"
      by (auto simp: can_branches_def split: if_splits)
    with 4 show ?thesis
      unfolding eq using can_walk[OF ok0, of fuse] dispatch_branches[OF ok0 can_branches_ok(1,2), of fuse]
      by (auto simp: key0 run_branch_def split: option.splits)
  qed
qed

end
