(* ===== verification/FrameLog.thy ===== *)
theory FrameLog
  imports FiuFrame
begin

text \<open>
  What the fault injector writes: every routine of \<^verbatim>\<open>src/HARDWARE/Fiu/FiuProcess.c\<close> only appends to the
  log, and only writes to lines of the four output groups, delays and diagnostic output. \<open>logs\<close> is
  closed under the constructs the code is built from, and each routine is walked through with
  these rules.
\<close>

section \<open>Routines that append frame events\<close>

definition frame_event :: "io_event \<Rightarrow> bool" where
  "frame_event e \<longleftrightarrow> (\<exists>p \<in> set tab_pins. (\<exists>v. e = write_pin p v) \<or> (\<exists>w. e = Pout p w)) \<or>
     (\<exists>n. e = DelayMs n) \<or> (\<exists>t. e = Print t)"

definition extends :: "relay_st \<Rightarrow> relay_st \<Rightarrow> bool" where
  "extends r r' \<longleftrightarrow> (\<exists>es. io r' = io r @ es \<and> (\<forall>e \<in> set es. frame_event e))"

definition logs :: "(relay_st \<Rightarrow> relay_st res) \<Rightarrow> bool" where
  "logs f \<longleftrightarrow> (\<forall>r r'. f r = Inr r' \<longrightarrow> extends r r')"

named_theorems logs_intros "routines that append frame events"

lemma logsD: "logs f \<Longrightarrow> f r = Inr r' \<Longrightarrow> extends r r'"
  by (simp add: logs_def)

lemma extendsE:
  assumes "extends r r'"
  obtains es where "io r' = io r @ es" "\<forall>e \<in> set es. frame_event e"
  using assms by (auto simp: extends_def)

lemma extends_refl [simp]: "extends r r"
  by (simp add: extends_def)

lemma extends_trans: "extends r r1 \<Longrightarrow> extends r1 r' \<Longrightarrow> extends r r'"
proof -
  assume "extends r r1" "extends r1 r'"
  then obtain es fs where "io r1 = io r @ es" "io r' = io r1 @ fs" "\<forall>e \<in> set es \<union> set fs. frame_event e"
    unfolding extends_def by blast
  then show ?thesis unfolding extends_def by (intro exI[of _ "es @ fs"]) simp
qed

lemma extends_emit [simp]: "\<forall>e \<in> set es. frame_event e \<Longrightarrow> extends r (emit es r)"
  by (auto simp: extends_def emit_def)

lemma extends_update [simp]:
  "extends r (r'\<lparr>uDqStatus := d\<rparr>) = extends r r'" "extends r (r'\<lparr>uKasuStatus := k\<rparr>) = extends r r'"
  "extends r (r'\<lparr>uFiuCom_buf := f\<rparr>) = extends r r'" "extends r (r'\<lparr>uFaultModePreStatus := p\<rparr>) = extends r r'"
  by (simp_all add: extends_def)

lemma extends_into [simp]: "\<forall>e \<in> set es. frame_event e \<Longrightarrow> extends r r' \<Longrightarrow> extends r (emit es r')"
  using extends_trans[OF _ extends_emit] by blast

lemma logs_bind [logs_intros]:
  assumes "logs f" "logs g"
  shows "logs (\<lambda>r. bind_res (f r) g)"
  unfolding logs_def bind_res_eq_Inr using assms[THEN logsD] extends_trans by metis

lemma logs_if [logs_intros]:
  assumes "logs f" "logs g"
  shows "logs (\<lambda>r. if p r then f r else g r)"
  unfolding logs_def using assms[THEN logsD] by metis

lemma logs_skip [logs_intros]: "logs Inr"
  by (simp add: logs_def)

lemma logs_step:
  assumes "\<And>r. extends r (f r)"
  shows "logs (\<lambda>r. Inr (f r))"
  using assms by (simp add: logs_def)

lemma logs_pre:
  assumes "\<And>r. extends r (f r)" "logs g"
  shows "logs (\<lambda>r. g (f r))"
  unfolding logs_def using assms(1) assms(2)[THEN logsD] extends_trans by metis

lemma logs_for_each [logs_intros]:
  assumes "\<And>i. i \<in> set is \<Longrightarrow> logs (f i)"
  shows "logs (for_each is f)"
  using assms
proof (induction "is")
  case (Cons i "is")
  then have "logs (\<lambda>r. bind_res (f i r) (for_each is f))" by (intro logs_bind) simp_all
  then show ?case by (simp add: logs_def)
qed (simp add: logs_def)

text \<open>The value handed to a channel routine is read from the state it runs in.\<close>

lemma logs_arg: "(\<And>v. logs (f v)) \<Longrightarrow> logs (\<lambda>r. f (g r) r)"
  by (simp add: logs_def)

section \<open>Relays and frames\<close>

lemma frame_event_simps [simp]: "frame_event (DelayMs n)" "frame_event (Print t)"
  by (auto simp: frame_event_def)

lemma frame_event_pin [simp]:
  "k < 14 \<Longrightarrow> frame_event (write_pin (CHCLK (Suc k)) v)" "i < 16 \<Longrightarrow> frame_event (write_pin (RELAYEN (Suc i)) v)"
  "j < 17 \<Longrightarrow> frame_event (write_pin (CTRLBUS (Suc j)) v)" "m < 15 \<Longrightarrow> frame_event (Pout (RESCTRL (Suc m)) w)"
  unfolding frame_event_def tab_pins_def using pin_in_tab by (metis Un_iff set_append)+

lemma events_framed [simp]:
  "\<forall>e \<in> set (relayen_write w). frame_event e" "\<forall>e \<in> set (chclk_pulse k). frame_event e"
  by (auto simp: relayen_write_def chclk_pulse_def)

lemma ctrlbus_framed: "\<forall>(i, v) \<in> set ws. 1 \<le> i \<and> i \<le> 17 \<Longrightarrow> \<forall>e \<in> set (ctrlbus_write ws). frame_event e"
proof (induction ws)
  case (Cons w ws)
  then obtain j v where "w = (Suc j, v)" "j < 17" by (cases w; cases "fst w") auto
  with Cons show ?case by (simp add: ctrlbus_write_def)
qed (simp add: ctrlbus_write_def)

lemma extends_relays [simp]:
  "extends r r' \<Longrightarrow> extends r (HV_FunRelay_Set v r')" "extends r r' \<Longrightarrow> extends r (HI_FunRelay_Set v r')"
  "extends r r' \<Longrightarrow> extends r (Resistance_select h l r')" "extends r r' \<Longrightarrow> extends r (frame_resistance r')"
proof -
  assume r: "extends r r'"
  show "extends r (HV_FunRelay_Set v r')"
    unfolding HV_FunRelay_Set_def Let_def by (intro extends_into ctrlbus_framed r) (use hv_range in auto)
  show "extends r (HI_FunRelay_Set v r')"
    using r by (simp add: HI_FunRelay_Set_def extends_into[OF ctrlbus_framed])
  have "frame_event (Pout (RESCTRL (i + 9)) w)" if "i < 7" for i w
    using frame_event_pin(4)[of "i + 8"] that by (simp add: add.commute)
  with r show "extends r (Resistance_select h l r')" for h l
    by (auto simp: Resistance_select_def intro!: extends_into)
  then show "extends r (frame_resistance r')" by (simp add: frame_resistance_def)
qed

lemma logs_Sn74374 [logs_intros]: "logs (Sn74374_fun k w)" "logs (Sn74374_Clear0 k)"
  by (auto simp: logs_def Sn74374_fun_def Sn74374_Clear0_def Let_def ball_Un simp del: upt_rec_numeral intro!: extends_into)

lemma logs_Set0 [logs_intros]: "logs Sn74374_Set0"
  unfolding Sn74374_Set0_def by (intro logs_intros)

lemma logs_chan_relay [logs_intros]: "logs (chan_relay c n)"
  unfolding chan_relay_def Let_def by (rule logs_intros)

lemma logs_tdreset [logs_intros]: "logs tdreset_process"
  unfolding tdreset_process_def by (intro logs_intros logs_step) simp

lemma logs_chan_on_bus [logs_intros]: "logs (chan_on_bus c)"
  unfolding chan_on_bus_def by (intro logs_intros) (auto simp: logs_def)

lemma logs_set [logs_intros]:
  "logs (fuhegz_set c v)" "logs (ddlgz_set c v)" "logs (kstdgz_set c v)" "logs (ksldmn_set c v)"
  "logs (ksldmn_two_set c d v)"
  unfolding fuhegz_set_def ddlgz_set_def kstdgz_set_def ksldmn_set_def ksldmn_two_set_def
  by (intro logs_intros logs_step; simp)+

lemma logs_for_channels [logs_intros]: "(\<And>c. logs (body c)) \<Longrightarrow> logs (for_channels body)"
  unfolding for_channels_def by (intro logs_intros)

lemma logs_process [logs_intros]:
  "logs fuhegz_process" "logs kstdgz_process" "logs ddltdgz_process" "logs ksldmn_process"
proof -
  have clear: "logs (\<lambda>r. Inr (clear_frame r))" by (rule logs_step) (simp add: clear_frame_def)
  have two: "logs (\<lambda>r. bind_res (collect_channels (uFiuCom_buf r)) (\<lambda>(cs, t).
      if t = 2 then ksldmn_two_set (cs ! 0) (cs ! 1) 0 r else Inr r))"
    using logs_set(5) by (auto simp: logs_def split: if_splits)
  show "logs fuhegz_process" "logs kstdgz_process" "logs ddltdgz_process" "logs ksldmn_process"
    unfolding fuhegz_process_def kstdgz_process_def ddltdgz_process_def ksldmn_process_def
    by (intro logs_bind logs_if clear two logs_skip logs_tdreset logs_for_channels
        logs_arg[OF logs_set(1)] logs_arg[OF logs_set(2)] logs_arg[OF logs_set(3)] logs_arg[OF logs_set(4)])+
qed

lemma logs_FiuCom: "logs (FiuCom_Process g)"
  unfolding FiuCom_Process_def Let_def
  by (rule logs_pre[where g = "\<lambda>s. if P s then Q s else R s" for P Q R]) (simp, intro logs_intros logs_step, simp)

end
