(* ===== verification/Session.thy ===== *)
theory Session
  imports HostDispatch FrameLog
begin

text \<open>
  What a host achieves with its commands: the effect of start, reset, timer expiry and
  configuration on what the board sees, the PWM arithmetic, and whole sessions of messages.
  The lemmas rest on the dispatch lemmas of \<^verbatim>\<open>HostDispatch\<close>, the fault plan of
  \<^verbatim>\<open>FiuFrame\<close> and the decoder lemmas of \<^verbatim>\<open>HostConfig\<close>.
\<close>

section \<open>Events and the view\<close>

text \<open>Events that drive no pin.\<close>

definition neutral :: "io_event \<Rightarrow> bool" where
  "neutral e \<longleftrightarrow> (\<forall>l. level_step e l = l)"

lemma neutral_simps [simp]:
  "neutral (GpioInit p w m)" "neutral (Print t)" "neutral (CanTransmit i d)" "neutral (Pcf8574Bit n v)"
  "neutral SystemReset" "neutral Tim10PwmStop" "neutral Tim10PwmDeInit" "neutral (Tim10PwmStart x y z)"
  "neutral Tim2StopIT" "neutral Tim2DeInit" "neutral (Tim2StartIT x y)" "neutral (DelayMs d')" "neutral (NullTimer n')"
  by (simp_all add: neutral_def)

lemma neutral_quiet: "neutral e \<Longrightarrow> clk_quiet e"
  by (simp add: neutral_def clk_quiet_def)

lemma levels_neutral: "\<forall>e \<in> set es. neutral e \<Longrightarrow> levels_of es l = l"
  by (induction es) (simp_all add: neutral_def)

lemma view_neutral [simp]:
  assumes "\<forall>e \<in> set es. neutral e"
  shows "view b0 (emit es r) = view b0 r"
  using assms dq_out_quiet[of es "board_of b0 r"] neutral_quiet
  by (simp add: view_def bus_levels_def res_levels_def levels_neutral)

lemma PF6_is_CTRLBUS6: "PF6 = CTRLBUS (Suc 5)"
  by (simp add: PF6_def CTRLBUS_def CTRLBUS_tab_def)

lemma PF6_quiet: "clk_quiet (write_pin PF6 v)"
  by (rule clk_quiet_pin) (simp_all add: PF6_def CHCLK_tab_def)

text \<open>Opening bus relay 6.\<close>

definition open_bus6 :: "fiu_view \<Rightarrow> fiu_view" where
  "open_bus6 v = v\<lparr>v_bus := (v_bus v)[5 := False]\<rparr>"

lemma view_PF6: "view b0 (emit [write_pin PF6 False] r) = open_bus6 (view b0 r)"
proof -
  have step: "level_step (write_pin PF6 False) l = l(PF6 := False)" for l
    by (rule level_step_write_pin) (simp add: PF6_def)
  have bus: "map (\<lambda>n. (l(PF6 := False)) (CTRLBUS (n + 1))) [0..<17] =
      (map (\<lambda>n. l (CTRLBUS (n + 1))) [0..<17])[5 := False]" for l :: levels
  proof (rule nth_equalityI)
    fix n assume "n < length (map (\<lambda>n. (l(PF6 := False)) (CTRLBUS (n + 1))) [0..<17])"
    then have n: "n < 17" by simp
    then have "CTRLBUS (Suc n) = PF6 \<longleftrightarrow> n = 5" unfolding PF6_is_CTRLBUS6 by (rule table_inj(1)) simp
    with n show "map (\<lambda>n. (l(PF6 := False)) (CTRLBUS (n + 1))) [0..<17] ! n =
        (map (\<lambda>n. l (CTRLBUS (n + 1))) [0..<17])[5 := False] ! n"
      by (simp add: nth_list_update del: upt_Suc)
  qed simp
  have "RESCTRL (Suc r) \<noteq> PF6" if "r < 15" for r
    unfolding PF6_is_CTRLBUS6 using that by (intro tab_neq(8)) simp_all
  then have res: "map (\<lambda>n. (l(PF6 := False)) (RESCTRL (n + 1))) [0..<15] = map (\<lambda>n. l (RESCTRL (n + 1))) [0..<15]"
    for l :: levels by simp
  have "dq_out (board_run [write_pin PF6 False] b) = dq_out b" for b
    by (rule dq_out_quiet) (simp add: PF6_quiet)
  then show ?thesis
    unfolding view_def open_bus6_def bus_levels_def res_levels_def board_of_emit level_board_run
    by (simp add: step bus res del: upt_Suc board_run_simps One_nat_def fun_upd_apply)
qed

section \<open>Starting, resetting, timing out\<close>

lemma view_stop [simp]: "view b0 (emit (stop_timers s) r) = view b0 r"
  by (rule view_neutral) (simp add: stop_timers_def stop_tim10_def stop_tim2_def)

lemma view_TIM2 [simp]: "view b0 (emit (TIM2_Init a p) r) = view b0 r"
  by (rule view_neutral) (simp add: TIM2_Init_def)

lemma view_split: "view b0 (emit (es @ fs) r) = view b0 (emit fs (emit es r))"
  by simp

lemma view_opens:
  assumes "\<forall>e \<in> set es. neutral e" "\<forall>e \<in> set fs. neutral e"
  shows "view b0 (emit (es @ write_pin PF6 False # fs) r) = open_bus6 (view b0 r)"
proof -
  have "emit (es @ write_pin PF6 False # fs) r = emit fs (emit [write_pin PF6 False] (emit es r))" by simp
  then show ?thesis using assms by (simp only: view_neutral view_PF6)
qed

lemma view_PWM [simp]: "view b0 (emit (TIM10_PWM_Init a p c) r) = open_bus6 (view b0 r)"
  using view_opens[of "[GpioInit GPIOF (GPIO_PIN 6) GPIO_MODE_AF_PP]" "[Tim10PwmStart (ucast a - 1) (ucast p) (c - 1)]"]
  by (simp add: TIM10_PWM_Init_def HAL_TIM_PWM_MspInit_def)

lemma view_expiry: "view b0 (emit (HAL_TIM_PeriodElapsedCallback t l) r) = open_bus6 (view b0 r)"
  using view_opens[of "(if l = 1 then stop_tim10 t else []) @ [GpioInit GPIOF (GPIO_PIN 6) GPIO_MODE_OUTPUT_PP]"
      "[Tim2StopIT, Tim2DeInit]" b0 r]
  by (auto simp: HAL_TIM_PeriodElapsedCallback_def pwm_release_def stop_tim10_def)

text \<open>The events \<open>startFault\<close> adds after the frame processor.\<close>

definition fault_timers :: "u8 \<Rightarrow> u8 \<Rightarrow> u8 \<Rightarrow> u16 \<Rightarrow> io_event list" where
  "fault_timers bLoose freq duty time =
     (if bLoose = 1
      then (case pwm_arr freq of Inr arr \<Rightarrow> TIM10_PWM_Init arr (180 * 100) (ucast (pwm_ccr duty arr)) | Inl _ \<Rightarrow> [])
      else []) @
     (if time > 0 then TIM2_Init (ucast time * 2) (90 * 500) else [])"

lemma startFault_eq:
  "startFault s =
     bind_res (FiuCom_Process (g_FiuByte17Data (host s)) (emit (stop_timers s) (rel s))) (\<lambda>r.
     if g_bLoose (host s) = 1 \<and> g_Pfreq (host s) = 0 then Inl DivByZero
     else Inr (s\<lparr>host := (host s)\<lparr>g_workStatus := 1\<rparr>,
       rel := emit (fault_timers (g_bLoose (host s)) (g_Pfreq (host s)) (g_Pduty (host s)) (g_Ptime (host s))) r,
       tim10_ready := tim10_ready s \<or> g_bLoose (host s) = 1, tim2_ready := tim2_ready s \<or> 0 < g_Ptime (host s)\<rparr>))"
  by (cases "FiuCom_Process (g_FiuByte17Data (host s)) (emit (stop_timers s) (rel s))")
    (auto simp: startFault_def sys_frame_def set_host_def sys_emit_def Let_def pwm_arr_def fault_timers_def)

lemma view_fault_timers:
  "view b0 (emit (fault_timers l f d t) r) =
     (if l = 1 \<and> f \<noteq> 0 then open_bus6 (view b0 r) else view b0 r)"
proof -
  have tail: "view b0 (emit (es @ (if t > 0 then TIM2_Init a p else [])) r) = view b0 (emit es r)" for es a p
    using view_split[of b0 es "TIM2_Init a p" r] view_TIM2[of b0 a p "emit es r"] by (simp del: emit_emit)
  have pwm: "f = 0 \<and> pwm_arr f = Inl DivByZero \<or> f \<noteq> 0 \<and> (\<exists>a. pwm_arr f = Inr a)"
    unfolding pwm_arr_def by simp
  show ?thesis
  proof (cases "l = 1")
    case True
    from pwm show ?thesis unfolding fault_timers_def tail unfolding True by (elim disjE conjE exE) simp_all
  next
    case False
    then show ?thesis unfolding fault_timers_def tail by simp
  qed
qed

lemma sys_ok_stopped: "sys_ok b0 s \<Longrightarrow> good b0 (emit (stop_timers s) (rel s))"
  using quiet_events(1) by (auto simp: sys_ok_def intro: good_quiet)

lemma startFault_view:
  assumes "sys_ok b0 s" and g: "g = g_FiuByte17Data (host s)" and "frame_ok g" "g ! 2 \<le> 4" "\<not> ecu_overflow g"
    and "g_bLoose (host s) = 1 \<longrightarrow> g_Pfreq (host s) \<noteq> 0"
  shows "\<exists>s'. startFault s = Inr s' \<and> sys_ok b0 s' \<and> g_workStatus (host s') = 1 \<and>
    view b0 (rel s') = (if g_bLoose (host s) = 1 then open_bus6 (plan g) else plan g)"
proof -
  have wf: "relay_wf (emit (stop_timers s) (rel s))" "length g = 17"
    using assms(1) g by (auto simp: sys_ok_def good_def host_wf_def)
  from FiuCom_meets_plan[OF wf assms(3-5), of b0] obtain r where
    r: "FiuCom_Process g (emit (stop_timers s) (rel s)) = Inr r" "view b0 r = plan g" by blast
  let ?s' = "s\<lparr>host := (host s)\<lparr>g_workStatus := 1\<rparr>,
    rel := emit (fault_timers (g_bLoose (host s)) (g_Pfreq (host s)) (g_Pduty (host s)) (g_Ptime (host s))) r,
    tim10_ready := tim10_ready s \<or> g_bLoose (host s) = 1, tim2_ready := tim2_ready s \<or> 0 < g_Ptime (host s)\<rparr>"
  have eq: "startFault s = Inr ?s'" using r(1) assms(6) unfolding startFault_eq g by auto
  moreover have "view b0 (rel ?s') = (if g_bLoose (host s) = 1 then open_bus6 (plan g) else plan g)"
    using assms(6) r(2) by (simp add: view_fault_timers)
  moreover have "g_workStatus (host ?s') = 1" by simp
  moreover have "sys_ok b0 ?s'" using stableD[OF stable_startFault assms(1) eq] by blast
  ultimately show ?thesis by blast
qed

lemma reset_frame_plan:
  assumes "host_wf h"
  shows "length (g_FiuByte17Data (reset_frame h)) = 17" "frame_ok (g_FiuByte17Data (reset_frame h))"
    "g_FiuByte17Data (reset_frame h) ! 2 = 4" "plan (g_FiuByte17Data (reset_frame h)) = idle_view"
    "\<not> ecu_overflow (g_FiuByte17Data (reset_frame h))"
  using assms by (simp_all add: reset_frame_def host_wf_lengths frame_ok_def nth_list_update plan_def ecu_overflow_def)

text \<open>Running a reset frame idles the board from any state.\<close>

lemma sys_frame_reset:
  assumes "sys_ok b0 s" "g_FiuByte17Data (host s) = g_FiuByte17Data (reset_frame h)" "host_wf h"
  shows "\<exists>r. sys_frame s = Inr (s\<lparr>rel := r\<rparr>) \<and> good b0 r \<and> view b0 r = idle_view"
proof -
  note rf = reset_frame_plan[OF assms(3)]
  have "relay_wf (rel s)" using assms(1) by (simp add: sys_ok_def good_def)
  from FiuCom_meets_plan[OF this rf(1,2) _ rf(5), of b0] rf(3,4) obtain r where
    "FiuCom_Process (g_FiuByte17Data (reset_frame h)) (rel s) = Inr r" "good b0 r" "view b0 r = idle_view" by auto
  then show ?thesis using assms(2) by (intro exI[of _ r]) (simp add: sys_frame_def)
qed

lemma udp_reset_spec:
  assumes ok: "sys_ok b0 s"
  shows "\<exists>s'. udp_reset s = Inr s' \<and> sys_ok b0 s' \<and> view b0 (rel s') = idle_view \<and>
    g_DataFromHost (host s') = (g_DataFromHost (host s))[2 := g_Error s] \<and> g_Error s' = g_Error s \<and>
    g_bLoose (host s') = g_bLoose (host s) \<and> g_WorkMode (host s') = g_WorkMode (host s) \<and>
    (g_Error s = 0 \<longrightarrow> cfg_empty (host s') \<and> session_fresh (host s') \<and> frame_ok (g_FiuByte17Data (host s')) \<and>
      g_FiuByte17Data (host s') ! 2 = 4)"
proof -
  define s1 where "s1 = set_host reset_frame (sys_emit (stop_timers s @ pwm_release) s)"
  define s2 where "s2 = (if g_Ptime (host s1) > 0 then sys_emit [if tim2_ready s1 then Tim2StopIT else NullTimer 2] s1 else s1)"
  have wf: "host_wf (host s)" using ok by (simp add: sys_ok_def)
  have "sys_ok b0 s1" using stableD[OF stable_reset_prefix ok] by (simp add: s1_def)
  then have s2: "sys_ok b0 s2" by (auto simp: s2_def intro: sys_ok_emit)
  have h2: "host s2 = reset_frame (host s)" "g_Error s2 = g_Error s" by (simp_all add: s2_def s1_def)
  from sys_frame_reset[OF s2 _ wf] h2 obtain r where
    r: "sys_frame s2 = Inr (s2\<lparr>rel := r\<rparr>)" "good b0 r" "view b0 r = idle_view" by auto
  have eq: "udp_reset s = Inr (if g_Error s \<noteq> 0 then reply_byte 2 (g_Error s) (s2\<lparr>rel := r\<rparr>)
      else clear_config (reply_byte 2 0 (s2\<lparr>rel := r\<rparr>)))"
    using r(1) h2(2) unfolding udp_reset_def Let_def s1_def[symmetric] s2_def[symmetric] by simp
  have rs: "g_DataFromHost (reset_frame h) = g_DataFromHost h" "g_bLoose (reset_frame h) = g_bLoose h"
    "g_WorkMode (reset_frame h) = g_WorkMode h" for h by (simp_all add: reset_frame_def)
  have sf: "session_fresh (FIU_Cmd0_CurPinFlag_init (P_init ((reset_frame (host s))\<lparr>g_DataFromHost := (g_DataFromHost (host s))[2 := 0]\<rparr>)))"
    using wf by (intro CurPinFlag_init_fresh(1) host_wf_inits(1) host_wf_updates(1) length_reset_frame)
      (simp_all add: host_wf_lengths)
  from stableD[OF stable_start_reset(3) ok eq] eq r h2 reset_frame_plan[OF wf] sf show ?thesis
    by (cases "g_Error s = 0") (simp_all add: rs)
qed

section \<open>PWM arithmetic\<close>

lemma sdiv_pos: "0 \<le> a \<Longrightarrow> 0 < b \<Longrightarrow> a sdiv b = a div b" for a b :: int
  by (cases "a = 0") (simp_all add: signed_divide_int_def sgn_if)

lemma unat_of_int_u16: "0 \<le> i \<Longrightarrow> i < 65536 \<Longrightarrow> unat (of_int i :: u16) = nat i"
  by (simp add: unat_eq_nat_uint uint_word_of_int_eq take_bit_int_eq_self)

lemma pwm_arr_nat:
  assumes "f \<noteq> 0"
  shows "\<exists>arr. pwm_arr f = Inr arr \<and> unat arr = 10000 div unat f"
proof -
  have f: "0 < uint f" using assms by (metis order_le_less uint_0_iff uint_ge_0)
  have "10000 div uint f \<le> 10000" using f by (simp add: int_div_le_self)
  moreover have "0 \<le> 10000 div uint f" using f by (simp add: pos_imp_zdiv_nonneg_iff)
  ultimately have "unat (of_int (10000 div uint f) :: u16) = nat (10000 div uint f)" by (intro unat_of_int_u16) simp_all
  also have "\<dots> = 10000 div unat f" by (simp only: unat_eq_nat_uint nat_div_distrib zero_le_numeral nat_numeral)
  finally have "unat (of_int (10000 div uint f) :: u16) = 10000 div unat f" .
  moreover have "pwm_arr f = Inr (of_int (10000 div uint f))"
    using assms sdiv_pos[of 10000 "uint f"] f by (simp only: pwm_arr_def) simp
  ultimately show ?thesis by blast
qed

lemma pwm_ccr_nat:
  assumes "unat d \<le> 100" "unat arr \<le> 10000"
  shows "unat (pwm_ccr d arr) = max 1 ((100 - unat d) * unat arr div 100)"
proof -
  have d: "uint d = int (unat d)" "uint arr = int (unat arr)" by simp_all
  have le: "(100 - unat d) * unat arr div 100 \<le> 10000"
  proof -
    have "(100 - unat d) * unat arr \<le> 100 * 10000" using assms by (intro mult_le_mono) simp_all
    then have "(100 - unat d) * unat arr div 100 \<le> 100 * 10000 div 100" by (rule div_le_mono)
    then show ?thesis by simp
  qed
  have "(100 - uint d) * uint arr = int ((100 - unat d) * unat arr)"
    using assms(1) by (simp only: d of_nat_mult of_nat_diff) simp
  then have "((100 - uint d) * uint arr) sdiv 100 = int ((100 - unat d) * unat arr) div 100"
    by (simp only: sdiv_pos of_nat_0_le_iff zero_less_numeral)
  also have "\<dots> = int ((100 - unat d) * unat arr div 100)" by (simp only: zdiv_int of_nat_numeral)
  finally have s: "((100 - uint d) * uint arr) sdiv 100 = int ((100 - unat d) * unat arr div 100)" .
  have u: "unat (of_int (((100 - uint d) * uint arr) sdiv 100) :: u16) = (100 - unat d) * unat arr div 100"
    unfolding s using le by (subst unat_of_int_u16) linarith+
  show ?thesis
    unfolding pwm_ccr_def Let_def using u by (auto simp: word_less_nat_alt max_def)
qed

section \<open>Configuring composite faults\<close>

text \<open>Channel \<open>p\<close> short-circuited without load, type \<open>ty\<close>, in work mode \<open>m\<close>.\<close>

definition comp_msg :: "u8 \<Rightarrow> u8 \<Rightarrow> u8 \<Rightarrow> u8 list" where
  "comp_msg m ty p = [0, m, p, ty, 0, 0, 0, 0]"

text \<open>The configuration while channels \<open>S\<close> have been configured with type \<open>ty\<close>.\<close>

definition comp_session :: "u8 \<Rightarrow> u8 set \<Rightarrow> host_st \<Rightarrow> bool" where
  "comp_session ty S h \<longleftrightarrow> host_wf h \<and> (FIU_CurCmd h = 0 \<or> FIU_CurCmd h = 255 \<and> S = {}) \<and>
     FIU_Cmd0_CurErrorType h \<in> {- 1, ty} \<and> (\<forall>p. p < 64 \<longrightarrow> p \<notin> S \<longrightarrow> FIU_Cmd0_CurPinFlag h ! unat p = 0) \<and>
     {c. bit (P0 h) c} = unat ` S \<and> P1 h = (if S = {} then 0 else push_bit 8 (ucast (ty + 1))) \<and> P4_0 h = 0"

lemma comp_session_start: "host_wf h \<Longrightarrow> cfg_empty h \<Longrightarrow> session_fresh h \<Longrightarrow> comp_session ty {} h"
  by (auto simp: comp_session_def cfg_empty_def session_fresh_def word_less_nat_alt)

lemma check_comp:
  assumes "comp_session ty S h" "ty \<in> {1, 2, 3, 4}" "p < 64" "p \<notin> S" "m \<le> 16"
  shows "HostConfigCheck 0 m p ty 0 0 0 0 h = Inr (0, h\<lparr>FIU_CurCmd := 0, FIU_Cmd0_CurErrorType := ty,
    FIU_Cmd0_CurPinFlag := (FIU_Cmd0_CurPinFlag h)[unat p := 1]\<rparr>)"
proof -
  have p: "\<not> p > 72" "unat p < 80" "p \<le> 72" using assms(3) by (auto simp: word_less_nat_alt word_le_nat_alt)
  have ty: "ty \<noteq> 0" "\<not> ty > 4" "ty \<le> 4" using assms(2) by (auto simp: word_less_nat_alt word_le_nat_alt)
  have wf: "length (FIU_Cmd0_CurPinFlag h) = 80" "g_HostConfigPass h = 0"
    using assms(1) by (simp_all add: comp_session_def host_wf_def)
  have fl: "FIU_Cmd0_CurPinFlag h ! unat p = 0" "FIU_CurCmd h = 0 \<or> FIU_CurCmd h = 255"
    "sint (FIU_Cmd0_CurErrorType h) = - 1 \<or> sint (FIU_Cmd0_CurErrorType h) = uint ty"
    using assms(1,3,4) sint_u8_eq(1) sint_u8_eq(2)[OF ty(3)] by (auto simp: comp_session_def)
  have "\<not> m > 16" using assms(5) by (simp add: not_less)
  with p ty wf fl show ?thesis
    by (auto simp: HostConfigCheck_def check_cmd0_def cfg_pass_def Let_def)
qed

lemma config_comp:
  assumes "comp_session ty S h" "ty \<in> {1, 2, 3, 4}" "p < 64" "p \<notin> S" "m \<le> 16" "g_DataFromHost h = comp_msg m ty p"
  shows "\<exists>h'. McuGetHostConfigInfo h = Inr (0, h') \<and> comp_session ty (insert p S) h' \<and>
    g_bLoose h' = g_bLoose h \<and> g_WorkMode h' = g_WorkMode h"
proof -
  let ?h1 = "h\<lparr>FIU_CurCmd := 0, FIU_Cmd0_CurErrorType := ty, FIU_Cmd0_CurPinFlag := (FIU_Cmd0_CurPinFlag h)[unat p := 1]\<rparr>"
  let ?h2 = "config_step 0 p ty 0 ?h1"
  have wf: "host_wf h" "g_HostConfigPass h = 0" using assms(1) by (simp_all add: comp_session_def host_wf_def)
  have p: "p \<le> 72" "p < 72" "\<not> pin_off_array 72 p" "unat p < 64"
    using assms(3) by (auto simp: word_less_nat_alt word_le_nat_alt pin_off_array_def)
  have ty: "ty \<noteq> 0" "ty \<le> 4" using assms(2) by (auto simp: word_le_nat_alt)
  have pass: "g_HostConfigPass ?h2 = 0"
    using wf by (simp add: config_step_def Let_def mark_type_def mark_pin_def mark_load_def)
  have "McuGetHostConfigInfo h = Inr (0, ?h2)"
    using check_comp[OF assms(1-5)] assms(6) wf p ty pass
    by (simp add: McuGetHostConfigInfo_def Let_def comp_msg_def config_cmd0_eq cfg_pass_def)
  moreover have "comp_session ty (insert p S) ?h2"
  proof -
    have "host_wf ?h1" using flag_cases(4)[OF wf(1) p(1), of ty] by (simp add: host_wf_def)
    then have "host_wf ?h2" by (simp add: config_step_def Let_def mark_type_def mark_pin_def mark_load_def)
    moreover have "{c. bit (P0 h OR push_bit (unat p) 1) c} = unat ` insert p S"
    proof -
      have "{c. bit (P0 h) c} = unat ` S" using assms(1) by (simp add: comp_session_def)
      moreover have "bit (push_bit (unat p) 1 :: u64) c \<longleftrightarrow> c = unat p" for c
        using p(4) by (auto simp: bit_exp_iff)
      ultimately show ?thesis by (auto simp: bit_or_iff)
    qed
    moreover have "P1 ?h2 = push_bit 8 (ucast (ty + 1))"
      using assms(1,2) by (auto simp: comp_session_def config_step_def Let_def mark_type_def mark_pin_def mark_load_def
          pin_limit_def p)
    moreover have "FIU_Cmd0_CurPinFlag h ! unat q = 0 \<Longrightarrow> q \<noteq> p \<Longrightarrow>
        (FIU_Cmd0_CurPinFlag h)[unat p := 1] ! unat q = 0" for q
      by (simp add: nth_list_update_neq word_unat_eq_iff)
    moreover have "P0 ?h2 = P0 h OR push_bit (unat p) 1" "P4_0 ?h2 = P4_0 h" "FIU_CurCmd ?h2 = 0"
      "FIU_Cmd0_CurErrorType ?h2 = ty" "FIU_Cmd0_CurPinFlag ?h2 = (FIU_Cmd0_CurPinFlag h)[unat p := 1]"
      using p(2) by (simp_all add: config_step_def Let_def mark_type_def mark_pin_def mark_load_def pin_limit_def)
    ultimately show ?thesis
      using assms(1) unfolding comp_session_def by simp
  qed
  moreover have "g_bLoose ?h2 = g_bLoose h" "g_WorkMode ?h2 = g_WorkMode h"
    by (simp_all add: config_step_def Let_def mark_type_def mark_pin_def mark_load_def)
  ultimately show ?thesis by blast
qed

lemma comp_session_msg [simp]:
  "comp_session ty S h \<Longrightarrow> length d = 8 \<Longrightarrow> comp_session ty S (h\<lparr>g_DataFromHost := d\<rparr>)"
  by (auto simp: comp_session_def host_wf_def)

lemma comp_session_lengths: "comp_session ty S h \<Longrightarrow> length (g_DataFromHost h) = 8 \<and> g_HostConfigPass h = 0"
  by (simp add: comp_session_def host_wf_def)

text \<open>What stays the same between the messages of a session.\<close>

definition same_unit :: "'f sys_st \<Rightarrow> 'f sys_st \<Rightarrow> bool" where
  "same_unit s s' \<longleftrightarrow> g_Error s' = g_Error s \<and> g_WorkMode (host s') = g_WorkMode (host s) \<and>
     g_bLoose (host s') = g_bLoose (host s)"

lemma same_unit_trans: "same_unit s s1 \<Longrightarrow> same_unit s1 s' \<Longrightarrow> same_unit s s'"
  by (simp add: same_unit_def)

lemma udp_comp_msg:
  assumes "sys_ok b0 s" "g_Error s = 0" "m = g_WorkMode (host s)" "m \<le> 16"
    "comp_session ty S (host s)" "ty \<in> {1, 2, 3, 4}" "p < 64" "p \<notin> S"
  shows "\<exists>s'. HostCanDataAnalysisNoLoopBuf dev fuse (comp_msg m ty p) s = Inr (Some ((comp_msg m ty p)[3 := 0]), s') \<and>
    sys_ok b0 s' \<and> same_unit s s' \<and> comp_session ty (insert p S) (host s')"
proof -
  let ?d = "comp_msg m ty p"
  define s0 where "s0 = set_host (\<lambda>h. h\<lparr>g_DataFromHost := ?d\<rparr>) s"
  have len: "length ?d = 8" by (simp add: comp_msg_def)
  have ok0: "sys_ok b0 s0" using assms(1) len by (simp add: s0_def sys_ok_def)
  have ses0: "comp_session ty S (host s0)" using assms(5) len by (simp add: s0_def)
  from config_comp[OF ses0 assms(6-8,4)] obtain h' where
    h': "McuGetHostConfigInfo (host s0) = Inr (0, h')" "comp_session ty (insert p S) h'"
    "g_bLoose h' = g_bLoose (host s0)" "g_WorkMode h' = g_WorkMode (host s0)" by (auto simp: s0_def)
  have d': "g_DataFromHost h' = ?d"
    using McuGet_keeps(2)[OF _ h'(1)] ok0 by (simp add: s0_def sys_ok_def)
  let ?s' = "reply_byte 3 0 (s0\<lparr>host := h'\<rparr>)"
  have "do_config 3 s0 = Inr ?s'"
    using h' assms(2) comp_session_lengths[OF h'(2)] by (simp add: do_config_def s0_def)
  moreover from stableD[OF stable_do_config ok0 this] have "sys_ok b0 ?s'" by simp
  moreover have "comp_session ty (insert p S) (host ?s')" using h'(2) d' len by simp
  moreover have "same_unit s ?s'" using h' assms(2) by (simp add: same_unit_def s0_def)
  ultimately show ?thesis
    using udp_dispatch[OF assms(1) len s0_def, of dev fuse] assms(3) d'
    by (simp add: udp_branches_def comp_msg_def)
qed

text \<open>The replies of a sequence of messages; a processor reset ends it.\<close>

primrec udp_session ::
  "'f flash_dev \<Rightarrow> (nat \<Rightarrow> bool) \<Rightarrow> u8 list list \<Rightarrow> 'f sys_st \<Rightarrow> (u8 list list \<times> 'f sys_st) res" where
  "udp_session dev fuse [] s = Inr ([], s)"
| "udp_session dev fuse (m # ms) s =
     bind_res (HostCanDataAnalysisNoLoopBuf dev fuse m s) (\<lambda>(r, s).
       case r of None \<Rightarrow> Inr ([], s)
       | Some r \<Rightarrow> bind_res (udp_session dev fuse ms s) (\<lambda>(rs, s). Inr (r # rs, s)))"

lemma udp_session_append:
  assumes "udp_session dev fuse ms s = Inr (rs, s1)" "length rs = length ms"
  shows "udp_session dev fuse (ms @ ms') s = bind_res (udp_session dev fuse ms' s1) (\<lambda>(rs', s'). Inr (rs @ rs', s'))"
  using assms
proof (induction ms arbitrary: s rs)
  case Nil
  then show ?case by (cases "udp_session dev fuse ms' s1") (auto simp: split_beta)
next
  case (Cons m ms)
  then obtain r s2 rs2 where r: "HostCanDataAnalysisNoLoopBuf dev fuse m s = Inr (Some r, s2)"
    "udp_session dev fuse ms s2 = Inr (rs2, s1)" "rs = r # rs2"
    by (auto split: option.splits)
  with Cons.IH[OF r(2)] Cons.prems(2) show ?case by (simp add: bind_res_assoc split_beta)
qed

lemma udp_session_comp:
  assumes "sys_ok b0 s" "g_Error s = 0" "m = g_WorkMode (host s)" "m \<le> 16"
    "comp_session ty S (host s)" "ty \<in> {1, 2, 3, 4}" "\<forall>p \<in> set ps. p < 64 \<and> p \<notin> S" "distinct ps"
  shows "\<exists>s'. udp_session dev fuse (map (comp_msg m ty) ps) s = Inr (map (\<lambda>p. (comp_msg m ty p)[3 := 0]) ps, s') \<and>
    sys_ok b0 s' \<and> same_unit s s' \<and> comp_session ty (S \<union> set ps) (host s')"
  using assms
proof (induction ps arbitrary: s S)
  case Nil
  then show ?case by (simp add: same_unit_def)
next
  case (Cons p ps)
  then have p: "p < 64" "p \<notin> S" by simp_all
  from udp_comp_msg[OF Cons.prems(1-6) p, of dev fuse] obtain s1 where
    s1: "HostCanDataAnalysisNoLoopBuf dev fuse (comp_msg m ty p) s = Inr (Some ((comp_msg m ty p)[3 := 0]), s1)"
    "sys_ok b0 s1" "same_unit s s1" "comp_session ty (insert p S) (host s1)" by blast
  then have "g_Error s1 = 0" "m = g_WorkMode (host s1)" using Cons.prems(2,3) by (simp_all add: same_unit_def)
  moreover have "\<forall>q \<in> set ps. q < 64 \<and> q \<notin> insert p S" "distinct ps" using Cons.prems(7,8) by auto
  ultimately obtain s' where
    "udp_session dev fuse (map (comp_msg m ty) ps) s1 = Inr (map (\<lambda>p. (comp_msg m ty p)[3 := 0]) ps, s')"
    "sys_ok b0 s'" "same_unit s1 s'" "comp_session ty (insert p S \<union> set ps) (host s')"
    using Cons.IH[OF s1(2) _ _ Cons.prems(4) s1(4) Cons.prems(6)] by blast
  with s1 same_unit_trans[of s s1 s'] show ?case by simp
qed

section \<open>Configuration done and start\<close>

definition done_msg :: "u8 \<Rightarrow> u8 \<Rightarrow> u8 \<Rightarrow> u8 list" where
  "done_msg m lo hi = [5, m, lo, hi, 0, 0, 0, 0]"

definition start_msg :: "u8 \<Rightarrow> u8 list" where
  "start_msg m = [0x10, m, 0, 0, 0, 0, 0, 0]"

definition reset_msg :: "u8 \<Rightarrow> u8 list" where
  "reset_msg m = [0x11, m, 0, 0, 0, 0, 0, 0]"

text \<open>Configuration done on a state without error and with a time in range.\<close>

lemma udp_config_done_eq:
  assumes "g_Error s = 0" "t = push_bit 8 (ucast (g_DataFromHost (host s) ! 3)) OR ucast (g_DataFromHost (host s) ! 2)" "\<not> t > 65500"
    and "h1 = (host s)\<lparr>g_Ptime := t\<rparr>" "h2 = (if g_bTime h1 = 0 then h1\<lparr>g_bTime := 1\<rparr> else h1)"
    and "host_wf h2" "h3 = h2\<lparr>g_FiuByte17Data := packed_frame h2, g_DataFromHost := (g_DataFromHost (host s))[2 := 0]\<rparr>"
  shows "udp_config_done s = s\<lparr>host := FIU_Cmd0_CurPinFlag_init h3\<rparr>"
proof -
  define s1 where "s1 = set_host (\<lambda>h. h\<lparr>g_Ptime := t\<rparr>) s"
  define s2 where "s2 = (if g_bTime (host s1) = 0 then set_host (\<lambda>h. h\<lparr>g_bTime := 1\<rparr>) s1 else s1)"
  have s1: "host s1 = h1" "g_Error s1 = 0" "g_Ptime (host s1) = t" using assms(1,4) by (simp_all add: s1_def)
  have s2: "s2 = s\<lparr>host := h2\<rparr>" using assms(4,5) by (simp add: s2_def s1_def set_host_def)
  have h2: "g_DataFromHost h2 = g_DataFromHost (host s)" using assms(4,5) by simp
  have "g_HostConfigPass h2 = 0" using assms(6) by (simp add: host_wf_def)
  then show ?thesis
    unfolding udp_config_done_def Let_def assms(2)[symmetric] s1_def[symmetric] s2_def[symmetric]
    using s1 assms(3,7) h2 DataAtPx_eq[OF assms(6)] by (simp add: s2 set_host_def reply_byte_def)
qed

lemma udp_done_msg:
  assumes ok: "sys_ok b0 s" and err: "g_Error s = 0" and m: "m = g_WorkMode (host s)"
    and t: "t = (push_bit 8 (ucast hi) OR ucast lo :: u16)" "t \<le> 65500"
  shows "\<exists>s'. HostCanDataAnalysisNoLoopBuf dev fuse (done_msg m lo hi) s = Inr (Some ((done_msg m lo hi)[2 := 0]), s') \<and>
    sys_ok b0 s' \<and> same_unit s s' \<and> g_FiuByte17Data (host s') = packed_frame (host s) \<and> g_Ptime (host s') = t \<and>
    session_fresh (host s') \<and> P0 (host s') = P0 (host s) \<and> P1 (host s') = P1 (host s) \<and> P4_0 (host s') = P4_0 (host s) \<and>
    g_Pfreq (host s') = g_Pfreq (host s) \<and> g_Pduty (host s') = g_Pduty (host s)"
proof -
  let ?d = "done_msg m lo hi"
  define s0 where "s0 = set_host (\<lambda>h. h\<lparr>g_DataFromHost := ?d\<rparr>) s"
  have len: "length ?d = 8" by (simp add: done_msg_def)
  have ok0: "sys_ok b0 s0" using ok len by (simp add: s0_def sys_ok_def)
  define h1 where "h1 = (host s0)\<lparr>g_Ptime := t\<rparr>"
  define h2 where "h2 = (if g_bTime h1 = 0 then h1\<lparr>g_bTime := 1\<rparr> else h1)"
  define h3 where "h3 = h2\<lparr>g_FiuByte17Data := packed_frame h2, g_DataFromHost := (g_DataFromHost (host s0))[2 := 0]\<rparr>"
  have wf2: "host_wf h2" using ok0 by (simp add: h2_def h1_def sys_ok_def)
  have pf: "packed_frame h2 = packed_frame (host s)" by (simp add: packed_frame_def h2_def h1_def s0_def)
  have h3: "host_wf h3" using wf2 len by (simp add: h3_def packed_frame_shape s0_def)
  have "t = push_bit 8 (ucast (g_DataFromHost (host s0) ! 3)) OR ucast (g_DataFromHost (host s0) ! 2)"
    "g_Error s0 = 0" "\<not> t > 65500" using t err by (simp_all add: s0_def done_msg_def not_less)
  then have "udp_config_done s0 = s0\<lparr>host := FIU_Cmd0_CurPinFlag_init h3\<rparr>"
    by (intro udp_config_done_eq[OF _ _ _ h1_def h2_def wf2 h3_def])
  moreover from this stableD[OF stable_udp_config_done ok0 refl]
  have "sys_ok b0 (s0\<lparr>host := FIU_Cmd0_CurPinFlag_init h3\<rparr>)" by simp
  ultimately show ?thesis
    using udp_dispatch[OF ok len s0_def, of dev fuse] m h3 err pf
    by (simp add: udp_branches_def done_msg_def same_unit_def h3_def) (simp add: h2_def h1_def s0_def done_msg_def)
qed

lemma udp_start_msg:
  assumes ok: "sys_ok b0 s" and m: "m = g_WorkMode (host s)"
    and g: "g = g_FiuByte17Data (host s)" "frame_ok g" "g ! 2 \<le> 4" "\<not> ecu_overflow g"
    and "g_bLoose (host s) = 1 \<longrightarrow> g_Pfreq (host s) \<noteq> 0"
  shows "\<exists>s'. HostCanDataAnalysisNoLoopBuf dev fuse (start_msg m) s = Inr (Some ((start_msg m)[2 := g_Error s]), s') \<and>
    sys_ok b0 s' \<and> g_workStatus (host s') = 1 \<and>
    view b0 (rel s') = (if g_bLoose (host s) = 1 then open_bus6 (plan g) else plan g)"
proof -
  let ?d = "start_msg m"
  define s0 where "s0 = set_host (\<lambda>h. h\<lparr>g_DataFromHost := ?d\<rparr>) s"
  have len: "length ?d = 8" by (simp add: start_msg_def)
  have ok0: "sys_ok b0 s0" using ok len by (simp add: s0_def sys_ok_def)
  have h0: "g = g_FiuByte17Data (host s0)" "g_bLoose (host s0) = g_bLoose (host s)" "g_Pfreq (host s0) = g_Pfreq (host s)"
    using g(1) by (simp_all add: s0_def)
  from startFault_view[OF ok0 h0(1) g(2-4)] assms(7) h0 obtain s1 where
    s1: "startFault s0 = Inr s1" "sys_ok b0 s1" "g_workStatus (host s1) = 1"
    "view b0 (rel s1) = (if g_bLoose (host s) = 1 then open_bus6 (plan g) else plan g)" by auto
  have keep: "g_Error s1 = g_Error s" "g_DataFromHost (host s1) = ?d"
    using s1(1) by (auto simp: startFault_eq s0_def split: if_splits)
  from s1 keep have "udp_start s0 = Inr (reply_byte 2 (g_Error s) s1)" by (simp add: udp_start_def)
  with s1 keep udp_dispatch[OF ok len s0_def, of dev fuse] m show ?thesis
    by (simp add: udp_branches_def start_msg_def)
qed

lemma udp_reset_msg:
  assumes ok: "sys_ok b0 s" and m: "m = g_WorkMode (host s)" and d: "d ! 0 = 0x11" "d ! 1 = m" "length d = 8"
  shows "\<exists>s'. HostCanDataAnalysisNoLoopBuf dev fuse d s = Inr (Some (d[2 := g_Error s]), s') \<and>
    sys_ok b0 s' \<and> same_unit s s' \<and> view b0 (rel s') = idle_view \<and>
    (g_Error s = 0 \<longrightarrow> cfg_empty (host s') \<and> session_fresh (host s') \<and> frame_ok (g_FiuByte17Data (host s')) \<and>
      g_FiuByte17Data (host s') ! 2 = 4)"
proof -
  define s0 where "s0 = set_host (\<lambda>h. h\<lparr>g_DataFromHost := d\<rparr>) s"
  have ok0: "sys_ok b0 s0" using ok d by (simp add: s0_def sys_ok_def)
  from udp_reset_spec[OF ok0] udp_dispatch[OF ok d(3) s0_def, of dev fuse] m d show ?thesis
    by (auto simp: udp_branches_def same_unit_def s0_def)
qed

section \<open>Whole sessions\<close>

lemma comp_frame:
  assumes "comp_session ty S h" "ty \<in> {1, 2, 3, 4}" "S \<noteq> {}" "\<forall>p \<in> S. p < 64"
  shows "packed_frame h ! 2 = 0" "frame_ok (packed_frame h)" "\<not> ecu_overflow (packed_frame h)"
    "plan (packed_frame h) = \<lparr>v_relays = (\<Union>p \<in> S. {3 * unat p, 3 * unat p + 1}),
       v_bus = bus_of (insert 1 (plan_supply (unat ty + 1))), v_res = replicate 15 False\<rparr>"
proof -
  note sh = packed_frame_shape[of h]
  have P: "{c. bit (P0 h) c} = unat ` S" "P1 h = push_bit 8 (ucast (ty + 1))" "FIU_CurCmd h = 0"
    using assms(1,3) by (auto simp: comp_session_def)
  show c: "packed_frame h ! 2 = 0" and "frame_ok (packed_frame h)" using sh P(3) by simp_all
  then show "\<not> ecu_overflow (packed_frame h)" by (simp add: ecu_overflow_def)
  have ty: "packed_frame h ! 12 = ty + 1" "unat (ty + 1) = unat ty + 1" "unat ty + 1 \<in> {2, 3, 4, 5}"
    using assms(2) P(2) unfolding sh(4) by auto
  have "c < 72 \<Longrightarrow> \<not> c < 64 \<Longrightarrow> \<not> bit (P1 h) (c - 64)" for c
    unfolding P(2) bit_push_bit_iff by linarith
  moreover have "bit (P0 h) c \<longleftrightarrow> c \<in> unat ` S" for c using P(1) by blast
  moreover have "c \<in> unat ` S \<Longrightarrow> c < 64" for c using assms(4) by (auto simp: word_less_nat_alt)
  ultimately have sel: "set (sel_channels (packed_frame h)) = unat ` S"
    unfolding sel_packed_frame by (auto split: if_splits)
  with assms(3) have "sel_channels (packed_frame h) \<noteq> []" by auto
  moreover have "plan_offsets 0 (unat ty + 1) = {0, 1}" "plan_bus 0 (unat ty + 1) = insert 1 (plan_supply (unat ty + 1))"
    using ty(3) by (simp_all add: plan_offsets_def plan_bus_def)
  ultimately show "plan (packed_frame h) = \<lparr>v_relays = (\<Union>p \<in> S. {3 * unat p, 3 * unat p + 1}),
       v_bus = bus_of (insert 1 (plan_supply (unat ty + 1))), v_res = replicate 15 False\<rparr>"
    by (simp add: plan_def c ty(1,2) sel)
qed

text \<open>The unit after power-up, on a NOR flash.\<close>

definition sys0 :: "(u32 \<Rightarrow> u32) sys_st" where
  "sys0 = \<lparr>host = host_init, rel = relay_init, can = can_zero, flash = blank, net = net0, g_Error = 0,
     tim10_ready = False, tim2_ready = False\<rparr>"

lemma sys0_ok:
  "sys_ok board0 sys0" "g_Error sys0 = 0" "g_WorkMode (host sys0) = 0" "g_bLoose (host sys0) = 0"
  "cfg_empty (host sys0)" "session_fresh (host sys0)"
proof -
  have "good board0 relay_init"
    by (auto simp: good_def dq_coherent_def board_of_def relay_init_def board0_def relay_wf_def)
  then show "sys_ok board0 sys0" using host_init_ok can_zero_wf by (simp add: sys_ok_def sys0_def)
  show "g_WorkMode (host sys0) = 0" "g_bLoose (host sys0) = 0"
    by (simp_all add: sys0_def host_init_def GlobalDataInit_def FIU_Cmd0_CurPinFlag_init_def P_init_def ErrorNumInit_def host_zero_def)
qed (use host_init_ok in \<open>simp_all add: sys0_def\<close>)

text \<open>
  C16. End to end: from a cleared configuration, a host that configures distinct channels below
  64 with one composite fault type without load, declares the configuration done and starts the
  fault gets status 0 in every reply, and on the board exactly the first two relays of these
  channels are closed, the bus relays are those of the fault type and the resistor decade is
  open, whatever the board showed before.
\<close>

theorem composite_session:
  assumes "sys_ok b0 s" "g_Error s = 0" "cfg_empty (host s)" "session_fresh (host s)" "g_bLoose (host s) = 0"
    and m: "m = g_WorkMode (host s)" "m \<le> 16" and ty: "ty \<in> {1, 2, 3, 4}"
    and ps: "ps \<noteq> []" "distinct ps" "\<forall>p \<in> set ps. p < 64"
    and t: "(push_bit 8 (ucast hi) OR ucast lo :: u16) \<le> 65500"
  shows "\<exists>s'. udp_session dev fuse (map (comp_msg m ty) ps @ [done_msg m lo hi, start_msg m]) s =
      Inr (map (\<lambda>p. (comp_msg m ty p)[3 := 0]) ps @ [(done_msg m lo hi)[2 := 0], (start_msg m)[2 := 0]], s') \<and>
    sys_ok b0 s' \<and> g_workStatus (host s') = 1 \<and>
    view b0 (rel s') = \<lparr>v_relays = (\<Union>p \<in> set ps. {3 * unat p, 3 * unat p + 1}),
      v_bus = bus_of (insert 1 (plan_supply (unat ty + 1))), v_res = replicate 15 False\<rparr>"
proof -
  have wf: "host_wf (host s)" using assms(1) by (simp add: sys_ok_def)
  from udp_session_comp[OF assms(1,2) m comp_session_start[OF wf assms(3,4)] ty _ ps(2), of dev fuse] ps(3) obtain s1 where
    s1: "udp_session dev fuse (map (comp_msg m ty) ps) s = Inr (map (\<lambda>p. (comp_msg m ty p)[3 := 0]) ps, s1)"
    "sys_ok b0 s1" "same_unit s s1" "comp_session ty (set ps) (host s1)" by auto
  then have m1: "g_Error s1 = 0" "m = g_WorkMode (host s1)" using assms(2) m by (simp_all add: same_unit_def)
  from udp_done_msg[OF s1(2) m1 refl t, of dev fuse] obtain s2 where
    s2: "HostCanDataAnalysisNoLoopBuf dev fuse (done_msg m lo hi) s1 = Inr (Some ((done_msg m lo hi)[2 := 0]), s2)"
    "sys_ok b0 s2" "same_unit s1 s2" "g_FiuByte17Data (host s2) = packed_frame (host s1)" by blast
  then have m2: "g_Error s2 = 0" "m = g_WorkMode (host s2)" "g_bLoose (host s2) = 0"
    using m1 s1(3) assms(5) by (simp_all add: same_unit_def)
  have "set ps \<noteq> {}" using ps(1) by simp
  note fr = comp_frame[OF s1(4) ty this ps(3)]
  have "packed_frame (host s1) ! 2 \<le> 4" using fr(1) by simp
  from udp_start_msg[OF s2(2) m2(2) s2(4)[symmetric] fr(2) this fr(3), of dev fuse] m2 fr(4) obtain s' where
    "HostCanDataAnalysisNoLoopBuf dev fuse (start_msg m) s2 = Inr (Some ((start_msg m)[2 := 0]), s')"
    "sys_ok b0 s'" "g_workStatus (host s') = 1" "view b0 (rel s') = plan (packed_frame (host s1))" by auto
  with s2(1) fr(4) udp_session_append[OF s1(1), of "[done_msg m lo hi, start_msg m]"] show ?thesis by simp
qed

theorem composite_session_witness:
  "\<exists>s'. udp_session nor_dev (\<lambda>_. True) [comp_msg 0 1 5, comp_msg 0 1 9, done_msg 0 0x10 0x27, start_msg 0] sys0 =
      Inr ([[0, 0, 5, 0, 0, 0, 0, 0], [0, 0, 9, 0, 0, 0, 0, 0], [5, 0, 0, 0x27, 0, 0, 0, 0], [0x10, 0, 0, 0, 0, 0, 0, 0]], s') \<and>
    view board0 (rel s') = \<lparr>v_relays = {15, 16, 27, 28}, v_bus = bus_of {1, 10, 11, 13}, v_res = replicate 15 False\<rparr>"
proof -
  have rel: "(\<Union>p \<in> {5, 9 :: u8}. {3 * unat p, 3 * unat p + 1}) = {15, 16, 27, 28}" by auto
  have sup: "insert 1 (plan_supply (unat (1 :: u8) + 1)) = {1, 10, 11, 13}" by (simp add: plan_supply_def)
  show ?thesis
    using composite_session[OF sys0_ok(1,2,5,6,4), of 0 1 "[5, 9]" "0x27" "0x10" nor_dev "\<lambda>_. True"] sys0_ok(3)
    unfolding set_simps rel sup by (auto simp: comp_msg_def done_msg_def start_msg_def)
qed

section \<open>Properties of start, reset and timers\<close>

lemma pin_not_null [simp]: "write_pin p v \<noteq> NullTimer t" "NullTimer t \<noteq> write_pin p v" "Pout p w \<noteq> NullTimer t" "NullTimer t \<noteq> Pout p w"
  by (simp_all add: write_pin_def HAL_GPIO_WritePin_def Pout_def)

lemma frame_event_not_null: "frame_event e \<Longrightarrow> e \<noteq> NullTimer t"
  by (auto simp: frame_event_def)

lemma fault_timers_not_null: "NullTimer t \<notin> set (fault_timers l f d u)"
proof -
  have "NullTimer t \<notin> set (TIM10_PWM_Init a p c)" "NullTimer t \<notin> set (TIM2_Init b q)" for a p c b q
    unfolding TIM10_PWM_Init_def TIM2_Init_def HAL_TIM_PWM_MspInit_def by auto
  note nn = this
  have "NullTimer t \<notin> set (case x of Inr arr \<Rightarrow> TIM10_PWM_Init arr p (c arr) | Inl _ \<Rightarrow> [])" for x :: "u16 res" and p c
    using nn(1) by (cases x) simp_all
  with nn(2) show ?thesis
    unfolding fault_timers_def set_append Un_iff by (simp only: simp_thms empty_iff list.set split: if_split)
qed

text \<open>A start that goes through adds the stop events, frame events and the timer events to the log.\<close>

lemma startFault_log:
  assumes "startFault s = Inr s'"
  obtains es where "io (rel s') = io (rel s) @ stop_timers s @ es" "\<forall>t. NullTimer t \<notin> set es"
proof -
  from assms obtain r where r: "FiuCom_Process (g_FiuByte17Data (host s)) (emit (stop_timers s) (rel s)) = Inr r"
    "rel s' = emit (fault_timers (g_bLoose (host s)) (g_Pfreq (host s)) (g_Pduty (host s)) (g_Ptime (host s))) r"
    by (auto simp: startFault_eq split: if_splits)
  from logsD[OF logs_FiuCom r(1)] obtain fs where "io r = io (rel s) @ stop_timers s @ fs" "\<forall>e \<in> set fs. frame_event e"
    by (auto simp: emit_def elim!: extendsE)
  with r(2) that[of "fs @ fault_timers (g_bLoose (host s)) (g_Pfreq (host s)) (g_Pduty (host s)) (g_Ptime (host s))"]
  show ?thesis using frame_event_not_null fault_timers_not_null by (auto simp: emit_def)
qed

text \<open>
  C20. When starting a fault is undefined, exactly. It faults in two situations: the frame asks for the
  ECU-to-ECU fault on more than four channels, or loose contact has been selected at some time and
  the frequency is zero. Otherwise it goes through, and then accesses a timer through a null
  handle exactly when that timer has never been set up; a start sets up TIM10 only for loose
  contact and TIM2 only for a timed fault.
\<close>

theorem startFault_undefined_iff:
  assumes "sys_ok b0 s" "g = g_FiuByte17Data (host s)"
  shows "((\<exists>e. startFault s = Inl e) \<longleftrightarrow>
      frame_ok g \<and> ecu_overflow g \<or> g_bLoose (host s) = 1 \<and> g_Pfreq (host s) = 0) \<and>
    (\<forall>s'. startFault s = Inr s' \<longrightarrow>
      (\<exists>es. io (rel s') = io (rel s) @ es \<and>
        (NullTimer 10 \<in> set es \<longleftrightarrow> \<not> tim10_ready s) \<and> (NullTimer 2 \<in> set es \<longleftrightarrow> \<not> tim2_ready s)) \<and>
      tim10_ready s' = (tim10_ready s \<or> g_bLoose (host s) = 1) \<and>
      tim2_ready s' = (tim2_ready s \<or> 0 < g_Ptime (host s)))"
proof (intro conjI allI impI)
  have wf: "relay_wf (emit (stop_timers s) (rel s))" "length g = 17"
    using assms by (auto simp: sys_ok_def good_def host_wf_def)
  show "(\<exists>e. startFault s = Inl e) \<longleftrightarrow> frame_ok g \<and> ecu_overflow g \<or> g_bLoose (host s) = 1 \<and> g_Pfreq (host s) = 0"
  proof (cases "frame_ok g \<and> ecu_overflow g")
    case True
    with FiuCom_overflows[OF wf] show ?thesis by (simp add: startFault_eq flip: assms(2))
  next
    case False
    then have "\<exists>r. FiuCom_Process g (emit (stop_timers s) (rel s)) = Inr r"
      using FiuCom_meets_plan[OF wf, of b0] FiuCom_ignores[OF wf] not_le[of "g ! 2" 4] by blast
    with False show ?thesis by (auto simp: startFault_eq simp flip: assms(2))
  qed
next
  fix s' assume ok: "startFault s = Inr s'"
  from startFault_log[OF ok] obtain es where
    es: "io (rel s') = io (rel s) @ stop_timers s @ es" "\<forall>t. NullTimer t \<notin> set es" .
  then show "\<exists>es. io (rel s') = io (rel s) @ es \<and>
      (NullTimer 10 \<in> set es \<longleftrightarrow> \<not> tim10_ready s) \<and> (NullTimer 2 \<in> set es \<longleftrightarrow> \<not> tim2_ready s)"
    by (intro exI[of _ "stop_timers s @ es"]) (auto simp: stop_timers_def stop_tim10_def stop_tim2_def)
  show "tim10_ready s' = (tim10_ready s \<or> g_bLoose (host s) = 1)" "tim2_ready s' = (tim2_ready s \<or> 0 < g_Ptime (host s))"
    using ok by (auto simp: startFault_eq split: if_splits)
qed

theorem startFault_undefined_iff_witness:
  "(\<exists>e. startFault (sys0\<lparr>host := (host sys0)\<lparr>g_bLoose := 1\<rparr>\<rparr>) = Inl e) \<and>
   (\<exists>s'. startFault sys0 = Inr s' \<and> NullTimer 10 \<in> set (io (rel s')) \<and> NullTimer 2 \<in> set (io (rel s')))"
proof
  let ?s = "sys0\<lparr>host := (host sys0)\<lparr>g_bLoose := 1\<rparr>\<rparr>"
  have "sys_ok board0 ?s" using sys0_ok(1) by (simp add: sys_ok_def host_wf_def)
  with startFault_undefined_iff[of board0 ?s] sys0_ok(5) show "\<exists>e. startFault ?s = Inl e" by (simp add: cfg_empty_def)
  have "\<not> frame_ok (g_FiuByte17Data (host sys0))" "\<not> tim10_ready sys0" "\<not> tim2_ready sys0"
    by (simp_all add: sys0_def frame_ok_def host_init_def GlobalDataInit_def ErrorNumInit_def host_zero_def)
  note un = this and th = startFault_undefined_iff[OF sys0_ok(1) refl]
  from th un(1) sys0_ok(4) have "\<nexists>e. startFault sys0 = Inl e" by simp
  then obtain s' where s': "startFault sys0 = Inr s'" by (cases "startFault sys0") simp_all
  with th un(2,3) obtain es where "io (rel s') = io (rel sys0) @ es" "NullTimer 10 \<in> set es" "NullTimer 2 \<in> set es" by blast
  with s' show "\<exists>s'. startFault sys0 = Inr s' \<and> NullTimer 10 \<in> set (io (rel s')) \<and> NullTimer 2 \<in> set (io (rel s'))" by simp
qed

text \<open>
  C19. The reset command opens everything: in the unit's work mode it stops both timers and leaves
  every relay, every bus relay and every resistor line open, from any state and also while
  \<open>g_Error\<close> is set; without error it also clears configuration and session.
\<close>

theorem udp_reset_idles:
  assumes "sys_ok b0 s" "d ! 0 = 0x11" "d ! 1 = g_WorkMode (host s)" "length d = 8"
  shows "\<exists>s'. HostCanDataAnalysisNoLoopBuf dev fuse d s = Inr (Some (d[2 := g_Error s]), s') \<and> sys_ok b0 s' \<and>
    view b0 (rel s') = idle_view \<and> (g_Error s = 0 \<longrightarrow> cfg_empty (host s') \<and> session_fresh (host s'))"
  using udp_reset_msg[OF assms(1) refl assms(2-4)] by blast

theorem udp_reset_idles_witness:
  "\<exists>s'. HostCanDataAnalysisNoLoopBuf nor_dev (\<lambda>_. True) (reset_msg 0) sys0 = Inr (Some (reset_msg 0), s') \<and>
     view board0 (rel s') = idle_view \<and> cfg_empty (host s')"
  using udp_reset_idles[OF sys0_ok(1), of "reset_msg 0" nor_dev "\<lambda>_. True"] sys0_ok(2,3)
  by (auto simp: reset_msg_def)

text \<open>
  C22. Loose contact is never deselected: once it has been configured, a reset followed by a start
  divides by zero, because the reset clears the frequency and not \<open>g_bLoose\<close>.
\<close>

theorem loose_contact_survives_reset:
  assumes "sys_ok b0 s" "g_Error s = 0" "g_bLoose (host s) = 1" "m = g_WorkMode (host s)"
  shows "udp_session dev fuse [reset_msg m, start_msg m] s = Inl DivByZero"
proof -
  from udp_reset_msg[OF assms(1,4), of "reset_msg m" dev fuse] assms(2) obtain s1 where
    s1: "HostCanDataAnalysisNoLoopBuf dev fuse (reset_msg m) s = Inr (Some ((reset_msg m)[2 := 0]), s1)" "sys_ok b0 s1"
    "same_unit s s1" "cfg_empty (host s1)" "frame_ok (g_FiuByte17Data (host s1))" "g_FiuByte17Data (host s1) ! 2 = 4"
    by (auto simp: reset_msg_def)
  define s2 where "s2 = set_host (\<lambda>h. h\<lparr>g_DataFromHost := start_msg m\<rparr>) s1"
  have len: "length (start_msg m) = 8" by (simp add: start_msg_def)
  have s2: "g_FiuByte17Data (host s2) = g_FiuByte17Data (host s1)" "g_bLoose (host s2) = 1" "g_Pfreq (host s2) = 0"
    "rel s2 = rel s1" using s1(3,4) assms(3) by (simp_all add: s2_def same_unit_def cfg_empty_def)
  have "relay_wf (emit (stop_timers s1) (rel s1))" "length (g_FiuByte17Data (host s1)) = 17"
    using s1(2) by (auto simp: sys_ok_def good_def host_wf_def)
  from FiuCom_meets_plan[OF this s1(5)] s1(6) obtain r where
    "FiuCom_Process (g_FiuByte17Data (host s1)) (emit (stop_timers s1) (rel s1)) = Inr r" by (auto simp: ecu_overflow_def)
  then have "udp_start s2 = Inl DivByZero" by (simp add: udp_start_def startFault_eq s2) (simp add: s2_def)
  moreover have "m = g_WorkMode (host s1)" using s1(3) assms(4) by (simp add: same_unit_def)
  ultimately have "HostCanDataAnalysisNoLoopBuf dev fuse (start_msg m) s1 = Inl DivByZero"
    using udp_dispatch[OF s1(2) len s2_def, of dev fuse] by (simp add: udp_branches_def start_msg_def)
  with s1(1) show ?thesis by simp
qed

theorem loose_contact_survives_reset_witness:
  "udp_session nor_dev (\<lambda>_. True) [reset_msg 0, start_msg 0] (sys0\<lparr>host := (host sys0)\<lparr>g_bLoose := 1\<rparr>\<rparr>) = Inl DivByZero"
proof -
  let ?s = "sys0\<lparr>host := (host sys0)\<lparr>g_bLoose := 1\<rparr>\<rparr>"
  have "sys_ok board0 ?s" using sys0_ok(1) by (simp add: sys_ok_def host_wf_def)
  with loose_contact_survives_reset[of board0 ?s 0] sys0_ok(2,3) show ?thesis by simp
qed

lemma board_expiry:
  "level (board_of b0 (emit (HAL_TIM_PeriodElapsedCallback t l) r)) = (level (board_of b0 r))(PF6 := False)"
  "dq_out (board_of b0 (emit (HAL_TIM_PeriodElapsedCallback t l) r)) = dq_out (board_of b0 r)"
proof -
  show "level (board_of b0 (emit (HAL_TIM_PeriodElapsedCallback t l) r)) = (level (board_of b0 r))(PF6 := False)"
    by (simp add: HAL_TIM_PeriodElapsedCallback_def stop_tim10_def pwm_release_def level_step_write_pin PF6_def)
  show "dq_out (board_of b0 (emit (HAL_TIM_PeriodElapsedCallback t l) r)) = dq_out (board_of b0 r)"
    using quiet_events(5) by (simp add: dq_out_quiet)
qed

text \<open>
  C23. The end of a timed fault, in any state: of all pins exactly PF6, bus relay 6, is driven low
  and no other pin moves, the relay registers keep their contents, TIM2 is stopped and the work
  status reads 0. A composite fault, which does not use that relay, therefore stays injected after
  its time.
\<close>

theorem expiry_opens_bus6_only:
  assumes "sys_ok b0 s" "s' = tim2_expired s"
  shows "level (board_of b0 (rel s')) = (level (board_of b0 (rel s)))(CTRLBUS 6 := False) \<and>
    dq_out (board_of b0 (rel s')) = dq_out (board_of b0 (rel s)) \<and>
    (\<exists>es. io (rel s') = io (rel s) @ es @ [Tim2StopIT, Tim2DeInit]) \<and>
    g_workStatus (host s') = 0 \<and> sys_ok b0 s' \<and>
    (view b0 (rel s) = plan g \<and> g ! 2 = 0 \<longrightarrow> view b0 (rel s') = plan g)"
proof -
  have "(bus_of (plan_bus 0 ty))[5 := False] = bus_of (plan_bus 0 ty)" for ty
    by (rule nth_equalityI) (auto simp: bus_of_def nth_list_update plan_bus_def plan_supply_def)
  moreover have "(replicate 17 False)[5 := False] = replicate 17 False" by (simp add: numeral_eq_Suc)
  ultimately have "open_bus6 (plan g) = plan g" if "g ! 2 = 0"
    using that by (simp add: open_bus6_def plan_def Let_def idle_view_def)
  then have stays: "view b0 (rel s) = plan g \<and> g ! 2 = 0 \<longrightarrow> view b0 (rel s') = plan g"
    by (simp add: assms(2) tim2_expired_def view_expiry)
  have ok: "sys_ok b0 s'"
    using assms quiet_events(5) by (auto simp: tim2_expired_def sys_ok_def intro!: good_quiet)
  have io: "\<exists>es. io (rel s') = io (rel s) @ es @ [Tim2StopIT, Tim2DeInit]"
    by (simp add: assms(2) tim2_expired_def HAL_TIM_PeriodElapsedCallback_def emit_def)
  have "CTRLBUS 6 = PF6" using PF6_is_CTRLBUS6 by simp
  with board_expiry[of b0 "tim10_ready s" "g_bLoose (host s)" "rel s"] ok io stays show ?thesis
    by (simp add: assms(2) tim2_expired_def)
qed

theorem expiry_opens_bus6_only_witness:
  "\<exists>s :: (u32 \<Rightarrow> u32) sys_st. view board0 (rel s) = plan demo_frame \<and> view board0 (rel (tim2_expired s)) = plan demo_frame \<and>
     \<not> level (board_of board0 (rel (tim2_expired s))) (CTRLBUS 6) \<and> g_workStatus (host (tim2_expired s)) = 0"
proof -
  from FiuCom_meets_plan[of relay_init demo_frame board0] obtain r where
    "good board0 r" "view board0 r = plan demo_frame" by (auto simp: demo_frame_ok ecu_overflow_def)
  with sys0_ok(1) expiry_opens_bus6_only[of board0 "sys0\<lparr>rel := r\<rparr>" "tim2_expired (sys0\<lparr>rel := r\<rparr>)" demo_frame]
  show ?thesis by (intro exI[of _ "sys0\<lparr>rel := r\<rparr>"]) (simp add: demo_frame_ok sys_ok_def)
qed

text \<open>
  C21. The timer values of loose contact, for every frequency but 0 and every duty up to 100: the
  computations in \<open>int\<close>, \<open>u16\<close> and \<open>u32\<close> lose nothing, so TIM10 is started with prescaler 18000, period
  10000 / frequency - 1 and pulse (100 - duty) * (10000 / frequency) / 100 - 1, where a pulse length
  of 0 ticks is raised to 1; the pulse never exceeds the period. For a checked message
  (frequency 2 to 99) the period has 101 to 5000 ticks.
\<close>

theorem pwm_values:
  assumes "f \<noteq> 0" "d \<le> 100"
  shows "\<exists>arr period pulse. pwm_arr f = Inr arr \<and>
    TIM10_PWM_Init arr (180 * 100) (ucast (pwm_ccr d arr)) = HAL_TIM_PWM_MspInit @ [Tim10PwmStart period 18000 pulse] \<and>
    unat period + 1 = 10000 div unat f \<and>
    unat pulse + 1 = max 1 ((100 - unat d) * (10000 div unat f) div 100) \<and> pulse \<le> period \<and>
    (2 \<le> f \<and> f \<le> 99 \<longrightarrow> 101 \<le> unat period + 1 \<and> unat period + 1 \<le> 5000)"
proof -
  from pwm_arr_nat[OF assms(1)] obtain arr where arr: "pwm_arr f = Inr arr" "unat arr = 10000 div unat f" by blast
  have f: "0 < unat f" "unat f \<le> 255" using assms(1) unsigned_less[of f, where ?'a = nat] by (simp_all add: unat_gt_0)
  have d: "unat d \<le> 100" using assms(2) by (simp add: word_le_nat_alt)
  have "10000 div 255 \<le> 10000 div unat f" using f by (intro div_le_mono2) simp_all
  then have a: "1 \<le> unat arr" "unat arr \<le> 10000" unfolding arr(2) by simp_all
  note c = pwm_ccr_nat[OF d a(2)]
  have le: "(100 - unat d) * unat arr div 100 \<le> 100 * unat arr div 100" by (intro div_le_mono mult_le_mono1) simp
  have pred: "unat (ucast w - 1 :: u32) + 1 = unat w" if "1 \<le> unat w" for w :: u16
  proof -
    have u: "unat (ucast w :: u32) = unat w" by (rule unat_ucast_up)
    with that have "(1 :: u32) \<le> ucast w" by (simp add: word_le_nat_alt)
    with u that show ?thesis by (simp add: unat_sub)
  qed
  define period pulse where "period = (ucast arr - 1 :: u32)" and "pulse = (ucast (pwm_ccr d arr) - 1 :: u32)"
  have p: "unat period + 1 = unat arr" "unat pulse + 1 = unat (pwm_ccr d arr)"
    unfolding period_def pulse_def using a(1) c by (intro pred; simp)+
  have "pulse \<le> period" using p c le a(1) by (simp add: word_le_nat_alt)
  moreover have "TIM10_PWM_Init arr (180 * 100) (ucast (pwm_ccr d arr)) = HAL_TIM_PWM_MspInit @ [Tim10PwmStart period 18000 pulse]"
    by (simp add: TIM10_PWM_Init_def period_def pulse_def)
  moreover have "101 \<le> unat period + 1 \<and> unat period + 1 \<le> 5000" if "2 \<le> f" "f \<le> 99"
  proof -
    have "2 \<le> unat f" "unat f \<le> 99" using that by (simp_all add: word_le_nat_alt)
    then have "10000 div 99 \<le> 10000 div unat f" "10000 div unat f \<le> 10000 div 2" by (intro div_le_mono2; simp)+
    then show ?thesis unfolding p(1) arr(2) by simp
  qed
  ultimately have "pwm_arr f = Inr arr \<and>
    TIM10_PWM_Init arr (180 * 100) (ucast (pwm_ccr d arr)) = HAL_TIM_PWM_MspInit @ [Tim10PwmStart period 18000 pulse] \<and>
    unat period + 1 = 10000 div unat f \<and>
    unat pulse + 1 = max 1 ((100 - unat d) * (10000 div unat f) div 100) \<and> pulse \<le> period \<and>
    (2 \<le> f \<and> f \<le> 99 \<longrightarrow> 101 \<le> unat period + 1 \<and> unat period + 1 \<le> 5000)"
    unfolding p c arr(2) using arr(1) by blast
  then show ?thesis by blast
qed

theorem pwm_values_witness:
  "\<exists>arr period pulse. pwm_arr 50 = Inr arr \<and>
     TIM10_PWM_Init arr (180 * 100) (ucast (pwm_ccr 30 arr)) = HAL_TIM_PWM_MspInit @ [Tim10PwmStart period 18000 pulse] \<and>
     unat period = 199 \<and> unat pulse = 139"
  using pwm_values[of 50 30] by auto

section \<open>Dispatch\<close>

text \<open>
  C17. The chain of command tests of the UDP handler is a table: the restart command resets the
  processor without a reply, any other message runs the one table entry of its command byte, if
  the work mode matches (command 0x13 needs no match), and is otherwise answered unchanged with no
  effect on the unit.
\<close>

theorem udp_handler_is_table:
  assumes "sys_ok b0 s" "length data = 8" "s0 = set_host (\<lambda>h. h\<lparr>g_DataFromHost := data\<rparr>) s"
  shows "HostCanDataAnalysisNoLoopBuf dev fuse data s =
    (if data ! 0 = 0x1C \<and> g_WorkMode (host s) = data ! 1 then Inr (None, sys_emit [SystemReset] s0)
     else bind_res
       (case map_of (udp_branches dev fuse) (data ! 0) of
          Some (m, f) \<Rightarrow> if m \<longrightarrow> g_WorkMode (host s) = data ! 1 then f s0 else Inr s0
        | None \<Rightarrow> Inr s0) (\<lambda>s. Inr (Some (g_DataFromHost (host s)), s)))"
  using assms by (rule udp_dispatch)

theorem udp_handler_is_table_witness:
  "HostCanDataAnalysisNoLoopBuf nor_dev (\<lambda>_. True) [0, 1, 5, 1, 0, 0, 0, 0] sys0 =
     Inr (Some [0, 1, 5, 1, 0, 0, 0, 0], set_host (\<lambda>h. h\<lparr>g_DataFromHost := [0, 1, 5, 1, 0, 0, 0, 0]\<rparr>) sys0)"
  using udp_handler_is_table[OF sys0_ok(1) _ refl, of "[0, 1, 5, 1, 0, 0, 0, 0]" nor_dev "\<lambda>_. True"] sys0_ok(3)
  by (simp add: udp_branches_def)

definition status_ring :: can_st where
  "status_ring = can_zero\<lparr>g_HOSTCANDATABUF := [0x1D, 0, 7, 7, 7, 7, 7, 7] @ replicate 192 0, g_IntrDataCur := 8\<rparr>"

end
