(* ===== verification/UdpComm.thy ===== *)
theory UdpComm
  imports Session
begin

text \<open>
  \<^verbatim>\<open>src/LWIP/udpecho/udpecho.c\<close> and \<^verbatim>\<open>src/LWIP/udpecho/mulcast.c\<close>: the UDP packet format around
  the 8-byte messages, the receive callback that checks a packet, runs its command and answers
  it, the multicast callback that sets the address, and the device description \<open>McuInfoInit\<close>.
  lwIP hands a packet over as one buffer: its bytes are the argument \<open>payload\<close>, the bytes sent back
  are part of the result.
\<close>

section \<open>Bytes of a packet\<close>

definition COMM_LEN :: nat where "COMM_LEN = 128"

definition COMM_CMD_TEST :: u8 where "COMM_CMD_TEST = 0"
definition COMM_CMD_RELAY_FIU_ACT :: u8 where "COMM_CMD_RELAY_FIU_ACT = 6"
definition COMM_CMD_IP :: u8 where "COMM_CMD_IP = 0xc8"
definition COMM_CMD_UID :: u8 where "COMM_CMD_UID = 0xc9"
definition COMM_CMD_SFRST :: u8 where "COMM_CMD_SFRST = 0xca"

text \<open>\<open>memcpy(&dst[k], src, length src)\<close>\<close>

definition store_bytes :: "u8 list \<Rightarrow> nat \<Rightarrow> u8 list \<Rightarrow> u8 list res" where
  "store_bytes dst k src =
     (if k + length src \<le> length dst then Inr (take k dst @ src @ drop (k + length src) dst) else Inl OutOfBounds)"

text \<open>A loop that compares \<open>buf[i]\<close> with a value for \<open>a \<le> i < b\<close> and notes any difference.\<close>

definition all_bytes :: "u8 list \<Rightarrow> nat \<Rightarrow> nat \<Rightarrow> u8 \<Rightarrow> bool res" where
  "all_bytes buf a b v = for_each [a..<b] (\<lambda>i r. bind_res (arr_get buf i) (\<lambda>x. Inr (r \<and> x = v))) True"

text \<open>The sum of \<open>buf[i]\<close> for \<open>a \<le> i < b\<close>, in 8 bits.\<close>

definition sum_bytes :: "u8 list \<Rightarrow> nat \<Rightarrow> nat \<Rightarrow> u8 res" where
  "sum_bytes buf a b = for_each [a..<b] (\<lambda>i c. bind_res (arr_get buf i) (\<lambda>x. Inr (c + x))) 0"

text \<open>The loop that adds 1 to each byte and sums the results.\<close>

definition inc_bytes :: "u8 list \<Rightarrow> nat \<Rightarrow> nat \<Rightarrow> (u8 list \<times> u8) res" where
  "inc_bytes buf a b =
     for_each [a..<b] (\<lambda>i (buf, c).
       bind_res (arr_get buf i) (\<lambda>x. bind_res (arr_set buf i (x + 1)) (\<lambda>buf. Inr (buf, c + (x + 1))))) (buf, 0)"

section \<open>The receive callback\<close>

text \<open>A loop over \<open>n\<close> messages of 8 bytes from offset \<open>k\<close> on, each replaced by its answer.\<close>

primrec slice_loop ::
  "(u8 list \<Rightarrow> 's \<Rightarrow> (u8 list option \<times> 's) res) \<Rightarrow> nat \<Rightarrow> nat \<Rightarrow> u8 list \<Rightarrow> 's \<Rightarrow> (u8 list option \<times> 's) res" where
  "slice_loop handle 0 k buf s = Inr (Some buf, s)"
| "slice_loop handle (Suc n) k buf s =
     (if k + 8 \<le> length buf then
        bind_res (handle (take 8 (drop k buf)) s) (\<lambda>(r, s).
          case r of None \<Rightarrow> Inr (None, s)
          | Some d \<Rightarrow> bind_res (store_bytes buf k d) (\<lambda>buf. slice_loop handle n (k + 8) buf s))
      else Inl OutOfBounds)"

definition FiuRelayPinActive ::
  "'f flash_dev \<Rightarrow> (nat \<Rightarrow> bool) \<Rightarrow> nat \<Rightarrow> nat \<Rightarrow> u8 list \<Rightarrow> 'f sys_st \<Rightarrow> (u8 list option \<times> 'f sys_st) res" where
  "FiuRelayPinActive dev fuse k len buf s =
     slice_loop (HostCanDataAnalysisNoLoopBuf dev fuse) (len div 8) k buf s"

text \<open>
  The header of eight 0xbe, the data length in byte 9, the tail of eight 0xff and eight 0xed; the
  sum over the data is computed and not compared. The later tests run only if the earlier passed.
\<close>

definition udp_packet_ok :: "u8 list \<Rightarrow> bool res" where
  "udp_packet_ok tmp_buf =
     bind_res (all_bytes tmp_buf 0 8 0xbe) (\<lambda>ok.
     if \<not> ok then Inr False
     else
       (let host_len = unat (tmp_buf ! 9) in
        bind_res (sum_bytes tmp_buf 10 (10 + host_len)) (\<lambda>_.
        bind_res (all_bytes tmp_buf (11 + host_len) (19 + host_len) 0xff) (\<lambda>ok.
        if \<not> ok then Inr False else all_bytes tmp_buf (19 + host_len) (27 + host_len) 0xed))))"

text \<open>
  The address command fills a 64-byte array up to index 79; the list holds index and source
  offset of each assignment.
\<close>

definition ip_fields :: "(nat \<times> nat) list" where
  "ip_fields = [(64, 10), (65, 11), (66, 12), (67, 13), (68, 14), (69, 15), (72, 16), (73, 17), (74, 18), (75, 19),
     (76, 20), (77, 21), (78, 22), (79, 23)]"

definition ip_record :: "'f flash_dev \<Rightarrow> u8 list \<Rightarrow> 'f \<Rightarrow> 'f res" where
  "ip_record dev tmp_buf f =
     (let tmp_flash = head_mark (bytes_of_words (STMFLASH_Read dev f FLASH_PROCHEAD 16)) in
      bind_res (for_each ip_fields (\<lambda>(i, j) t. bind_res (arr_get tmp_buf j) (arr_set t i)) tmp_flash) (\<lambda>tmp_flash.
      STMFLASH_Write dev FLASH_PROCHEAD (words_of_bytes tmp_flash) 16 f))"

definition udp_test :: "nat \<Rightarrow> u8 list \<Rightarrow> u8 list res" where
  "udp_test host_len tmp_buf =
     bind_res (inc_bytes tmp_buf 10 (10 + host_len)) (\<lambda>(tmp_buf, tmp_crc).
     arr_set tmp_buf (10 + host_len) tmp_crc)"

text \<open>
  The result is the packet sent back, if any, and \<open>None\<close> for the outer option where the processor is
  reset. \<open>memcpy\<close> into the packet buffer is a store into an array of the packet's length. The UID
  command reads through the pointer \<open>buf\<close>, which nothing sets.
\<close>

definition udp_echoserver_receive_callback ::
  "'f flash_dev \<Rightarrow> (nat \<Rightarrow> bool) \<Rightarrow> u8 list \<Rightarrow> 'f sys_st \<Rightarrow> (u8 list option option \<times> 'f sys_st) res" where
  "udp_echoserver_receive_callback dev fuse payload s =
     bind_res (store_bytes (replicate COMM_LEN 0) 0 payload) (\<lambda>tmp_buf.
     bind_res (udp_packet_ok tmp_buf) (\<lambda>ok.
     if \<not> ok then Inr (Some None, s)
     else
       (let host_cmd = tmp_buf ! 8; host_len = unat (tmp_buf ! 9) in
        bind_res
          (if host_cmd = COMM_CMD_TEST then
             bind_res (udp_test host_len tmp_buf) (\<lambda>tmp_buf.
             bind_res (store_bytes payload 0 (take (27 + host_len) tmp_buf)) (\<lambda>_. Inr (Some tmp_buf, s)))
           else if host_cmd = COMM_CMD_UID then Inl NullPointer
           else if host_cmd = COMM_CMD_SFRST then Inr (None, sys_emit [SystemReset] s)
           else if host_cmd = COMM_CMD_RELAY_FIU_ACT then FiuRelayPinActive dev fuse 10 host_len tmp_buf s
           else if host_cmd = COMM_CMD_IP then
             bind_res (ip_record dev tmp_buf (flash s)) (\<lambda>f.
             bind_res (udp_test host_len tmp_buf) (\<lambda>tmp_buf.
             bind_res (store_bytes payload 0 (take (27 + host_len) tmp_buf)) (\<lambda>_. Inr (Some tmp_buf, s\<lparr>flash := f\<rparr>))))
           else Inr (Some tmp_buf, s)) (\<lambda>(r, s).
        Inr (map_option (\<lambda>tmp_buf. Some (take (length payload) tmp_buf)) r, s)))))"

section \<open>Multicast\<close>

text \<open>
  The callback of the multicast port. Its buffer is not initialised: \<open>junk\<close> is what the stack held.
  Diagnostic output is left out.
\<close>

definition udp_server_rev ::
  "'f flash_dev \<Rightarrow> u8 list \<Rightarrow> u32 list \<Rightarrow> u8 list option \<Rightarrow> 'f \<Rightarrow> 'f res" where
  "udp_server_rev dev junk mcuUID p f =
     (case p of None \<Rightarrow> Inr f
      | Some payload \<Rightarrow>
        if length payload \<ge> COMM_LEN then Inr f
        else
          bind_res (store_bytes junk 0 payload) (\<lambda>tmp_buf.
          bind_res (all_bytes tmp_buf 0 8 0xbe) (\<lambda>ok.
          if \<not> ok then Inr f
          else
            (let host_len = unat (tmp_buf ! 9) in
             bind_res (sum_bytes tmp_buf 10 (10 + host_len)) (\<lambda>tmp_crc.
             bind_res (arr_get tmp_buf (10 + host_len)) (\<lambda>crc.
             if tmp_crc \<noteq> crc then Inr f
             else
               bind_res (all_bytes tmp_buf (11 + host_len) (19 + host_len) 0xff) (\<lambda>ok.
               if \<not> ok then Inr f
               else
                 bind_res (all_bytes tmp_buf (31 + host_len) (39 + host_len) 0xed) (\<lambda>ok.
                 if \<not> ok then Inr f
                 else if words_of_bytes (take 12 (drop 33 tmp_buf)) \<noteq> mcuUID then Inr f
                 else ip_record dev tmp_buf f))))))))"

section \<open>The device description\<close>

record mcuinfo =
  devType :: u16
  port :: u16
  devName :: "u8 list"
  devSN :: "u8 list"
  mcuType :: "u8 list"
  mcuUID :: "u32 list"
  mcuSV :: "u8 list"
  mcuIP :: "u8 list"
  mcuNetMask :: "u8 list"
  mcuGW :: "u8 list"
  mcuMAC :: "u8 list"
  mcuHV :: "u8 list"
  reserve :: "u8 list"

text \<open>The bytes of the packed structure.\<close>

definition mcuinfo_bytes :: "mcuinfo \<Rightarrow> u8 list" where
  "mcuinfo_bytes m = le_bytes 2 (devType m) @ le_bytes 2 (port m) @ devName m @ devSN m @ mcuType m @
     bytes_of_words (mcuUID m) @ mcuSV m @ mcuIP m @ mcuNetMask m @ mcuGW m @ mcuMAC m @ mcuHV m @ reserve m"

text \<open>The array lengths of the declaration.\<close>

definition mcuinfo_wf :: "mcuinfo \<Rightarrow> bool" where
  "mcuinfo_wf m \<longleftrightarrow> length (devName m) = 32 \<and> length (devSN m) = 16 \<and> length (mcuType m) = 16 \<and> length (mcuUID m) = 3 \<and>
     length (mcuSV m) = 3 \<and> length (mcuIP m) = 4 \<and> length (mcuNetMask m) = 4 \<and> length (mcuGW m) = 4 \<and>
     length (mcuMAC m) = 6 \<and> length (mcuHV m) = 2 \<and> length (reserve m) = 1"

text \<open>\<open>memset\<close> of \<open>n\<close> bytes to zero, then \<open>strcpy\<close>.\<close>

definition c_string :: "nat \<Rightarrow> string \<Rightarrow> u8 list" where
  "c_string n s = take n (map of_char s @ replicate n 0)"

definition fill_bytes :: "nat \<Rightarrow> nat \<Rightarrow> u8 \<Rightarrow> u8 list \<Rightarrow> u8 list res" where
  "fill_bytes a b v buf = for_each [a..<b] (\<lambda>i buf. arr_set buf i v) buf"

definition describe :: "u16 \<Rightarrow> mcuinfo \<Rightarrow> mcuinfo" where
  "describe localPort m = m\<lparr>devType := 0x0200, port := localPort, devName := c_string 32 ''FIU'', devSN := c_string 16 ''SN0'',
     mcuType := c_string 16 ''STM32F429'', mcuSV := [1, 0, 0], mcuHV := [1, 0]\<rparr>"

text \<open>The local array has 128 bytes, with contents \<open>junk\<close>; the caller's buffer is \<open>buf\<close>.\<close>

definition McuInfoInit :: "u8 list \<Rightarrow> u16 \<Rightarrow> u8 list \<Rightarrow> mcuinfo \<Rightarrow> ((u8 list \<times> nat) \<times> mcuinfo) res" where
  "McuInfoInit junk localPort buf m =
     (let len = 104 :: nat in
      bind_res (fill_bytes 0 8 0xbe junk) (\<lambda>tmp.
      bind_res (fill_bytes 8 16 0xaa tmp) (\<lambda>tmp.
      bind_res (arr_set tmp 16 (of_nat len AND 0xff)) (\<lambda>tmp.
      bind_res (arr_set tmp 17 (of_nat (len div 256))) (\<lambda>tmp.
      bind_res (arr_set tmp 18 1) (\<lambda>tmp.
      let m = describe localPort m in
      bind_res (store_bytes tmp 19 (mcuinfo_bytes m)) (\<lambda>tmp.
      bind_res (sum_bytes tmp 19 (19 + len)) (\<lambda>crc.
      bind_res (arr_set tmp (19 + len) crc) (\<lambda>tmp.
      let i = 20 + len in
      bind_res (fill_bytes i (i + 8) 0x55 tmp) (\<lambda>tmp.
      bind_res (fill_bytes (i + 8) (i + 16) 0xed tmp) (\<lambda>tmp.
      if length tmp < 36 + len then Inl OutOfBounds
      else bind_res (store_bytes buf 0 (take (36 + len) tmp)) (\<lambda>buf. Inr ((buf, 36 + len), m)))))))))))))"

section \<open>Loops over a buffer\<close>

lemma for_each_get:
  "for_each [a..<b] (\<lambda>i r. bind_res (arr_get buf i) (\<lambda>x. Inr (g i x r))) r0 =
     (if a < b \<and> length buf < b then Inl OutOfBounds else Inr (fold (\<lambda>i. g i (buf ! i)) [a..<b] r0))"
proof (induction b)
  case 0
  then show ?case by simp
next
  case (Suc b)
  show ?case
  proof (cases "a \<le> b")
    case True
    with Suc show ?thesis by (cases "b < length buf") (auto simp: for_each_append arr_get_Inl)
  next
    case False
    then show ?thesis by simp
  qed
qed

lemma all_bytes_eq:
  "all_bytes buf a b v =
     (if a < b \<and> length buf < b then Inl OutOfBounds else Inr (\<forall>i. a \<le> i \<longrightarrow> i < b \<longrightarrow> buf ! i = v))"
proof -
  have "fold (\<lambda>i r. r \<and> buf ! i = v) is r0 \<longleftrightarrow> r0 \<and> (\<forall>i \<in> set is. buf ! i = v)" for "is" r0
    by (induction "is" arbitrary: r0) auto
  then show ?thesis by (auto simp: all_bytes_def for_each_get)
qed

lemma sum_bytes_eq:
  "sum_bytes buf a b =
     (if a < b \<and> length buf < b then Inl OutOfBounds else Inr (sum_list (map ((!) buf) [a..<b])))"
proof -
  have "fold (\<lambda>i c. c + buf ! i) is c0 = c0 + sum_list (map ((!) buf) is)" for "is" c0
    by (induction "is" arbitrary: c0) (auto simp: ac_simps)
  then show ?thesis by (simp add: sum_bytes_def for_each_get)
qed

lemma store_bytes_front: "k \<le> length dst \<Longrightarrow> length src = k \<Longrightarrow> store_bytes dst 0 src = Inr (src @ drop k dst)"
  by (simp add: store_bytes_def)

lemma block_bytes:
  assumes "\<forall>i. a \<le> i \<longrightarrow> i < a + k \<longrightarrow> buf ! i = v" "a + k \<le> length buf"
  shows "take k (drop a buf) = replicate k v"
  by (rule nth_equalityI) (use assms in auto)

text \<open>The format of a packet.\<close>

definition udp_packet :: "u8 \<Rightarrow> u8 list \<Rightarrow> u8 \<Rightarrow> u8 list" where
  "udp_packet cmd data crc =
     replicate 8 0xbe @ [cmd, of_nat (length data)] @ data @ [crc] @ replicate 8 0xff @ replicate 8 0xed"

lemma length_udp_packet [simp]: "length (udp_packet cmd data crc) = 27 + length data"
  by (simp add: udp_packet_def)

lemma all_replicate: "(\<forall>i. a \<le> i \<longrightarrow> i < a + k \<longrightarrow> (xs @ replicate k v @ ys) ! i = v)" if "length xs = a"
  using that by (auto simp: nth_append)

text \<open>A packet in the zeroed buffer passes the checks.\<close>

lemma udp_packet_passes:
  assumes "length data \<le> 101" "27 + length data + length ys = 128"
  shows "udp_packet_ok (udp_packet cmd data crc @ ys) = Inr True"
    "(udp_packet cmd data crc @ ys) ! 8 = cmd" "unat ((udp_packet cmd data crc @ ys) ! 9) = length data"
proof -
  let ?n = "length data" and ?b = "udp_packet cmd data crc @ ys"
  have b: "?b = [] @ replicate 8 0xbe @ ([cmd, of_nat ?n] @ data @ [crc] @ replicate 8 0xff @ replicate 8 0xed @ ys)"
    "?b = (replicate 8 0xbe @ [cmd, of_nat ?n] @ data @ [crc]) @ replicate 8 0xff @ (replicate 8 0xed @ ys)"
    "?b = (replicate 8 0xbe @ [cmd, of_nat ?n] @ data @ [crc] @ replicate 8 0xff) @ replicate 8 0xed @ ys"
    by (simp_all add: udp_packet_def)
  show "?b ! 8 = cmd" by (simp add: udp_packet_def nth_append)
  have n: "unat (of_nat ?n :: u8) = ?n" using assms(1) by (simp add: unat_of_nat)
  have "?b ! 9 = of_nat ?n" by (simp add: udp_packet_def nth_append)
  then show u: "unat (?b ! 9) = ?n" using n by simp
  have len: "length ?b = 128" using assms(2) by simp
  have "\<forall>i. 0 \<le> i \<longrightarrow> i < 0 + 8 \<longrightarrow> ?b ! i = 0xbe" unfolding b(1) by (rule all_replicate) simp
  moreover have "\<forall>i. 11 + ?n \<le> i \<longrightarrow> i < 11 + ?n + 8 \<longrightarrow> ?b ! i = 0xff" unfolding b(2) by (rule all_replicate) simp
  moreover have "\<forall>i. 19 + ?n \<le> i \<longrightarrow> i < 19 + ?n + 8 \<longrightarrow> ?b ! i = 0xed" unfolding b(3) by (rule all_replicate) simp
  ultimately show "udp_packet_ok ?b = Inr True"
    using assms len by (simp add: udp_packet_ok_def all_bytes_eq sum_bytes_eq u ac_simps del: length_append)
qed

text \<open>The buffer the callback works on, and a packet that fits into it.\<close>

definition rx_buf :: "u8 list \<Rightarrow> u8 list" where
  "rx_buf payload = payload @ replicate (128 - length payload) 0"

definition is_packet :: "u8 list \<Rightarrow> bool" where
  "is_packet payload \<longleftrightarrow> (\<exists>cmd data crc rest. payload = udp_packet cmd data crc @ rest \<and> length data \<le> 101)"

lemma rx_store: "length payload \<le> 128 \<Longrightarrow> store_bytes (replicate COMM_LEN 0) 0 payload = Inr (rx_buf payload)"
  by (simp add: store_bytes_def COMM_LEN_def rx_buf_def)

lemma length_rx_buf [simp]: "length payload \<le> 128 \<Longrightarrow> length (rx_buf payload) = 128"
  by (simp add: rx_buf_def)

text \<open>The outcome of the checks, by header, length byte and tail.\<close>

lemma udp_packet_ok_cases:
  assumes "length buf = 128" and n: "n = unat (buf ! 9)"
  shows "udp_packet_ok buf =
    (if take 8 buf \<noteq> replicate 8 0xbe then Inr False
     else if 109 < n then Inl OutOfBounds
     else if take 8 (drop (11 + n) buf) \<noteq> replicate 8 0xff then Inr False
     else if 101 < n then Inl OutOfBounds
     else Inr (take 8 (drop (19 + n) buf) = replicate 8 0xed))"
proof -
  have blk: "take 8 (drop a buf) = replicate 8 v \<longleftrightarrow> (\<forall>i. a \<le> i \<longrightarrow> i < a + 8 \<longrightarrow> buf ! i = v)" if "a + 8 \<le> 128" for a v
  proof
    assume e: "take 8 (drop a buf) = replicate 8 v"
    show "\<forall>i. a \<le> i \<longrightarrow> i < a + 8 \<longrightarrow> buf ! i = v"
    proof (intro allI impI)
      fix i assume i: "a \<le> i" "i < a + 8"
      then have "buf ! i = take 8 (drop a buf) ! (i - a)" using that assms(1) by simp
      with e i show "buf ! i = v" by simp
    qed
  qed (use block_bytes[of a 8 buf v] that assms(1) in simp)
  have h: "take 8 buf = replicate 8 0xbe \<longleftrightarrow> (\<forall>i < 8. buf ! i = 0xbe)" using blk[of 0] by simp
  show ?thesis
    unfolding udp_packet_ok_def all_bytes_eq sum_bytes_eq assms(1) n[symmetric] Let_def
    using h blk[of "11 + n" "0xff"] blk[of "19 + n" "0xed"] by (auto simp: ac_simps)
qed

lemma take_parts:
  assumes "27 + n \<le> length xs"
  shows "take (27 + n) xs = take 8 xs @ [xs ! 8, xs ! 9] @ take n (drop 10 xs) @ [xs ! (10 + n)] @
    take 8 (drop (11 + n) xs) @ take 8 (drop (19 + n) xs)"
proof -
  have one: "take 1 (drop k xs) = [xs ! k]" if "k < length xs" for k
    using that by (simp add: take_Suc hd_drop_conv_nth)
  have "27 + n = 8 + (1 + (1 + (n + (1 + (8 + 8)))))" by simp
  then have "take (27 + n) xs = take 8 xs @ take 1 (drop 8 xs) @ take 1 (drop 9 xs) @ take n (drop 10 xs) @
      take 1 (drop (10 + n) xs) @ take 8 (drop (11 + n) xs) @ take 8 (drop (19 + n) xs)"
    by (simp only: take_add drop_drop add.assoc) (simp add: ac_simps)
  with assms show ?thesis by (simp only: one) simp
qed

lemma udp_packet_parse:
  assumes "length payload \<le> 128" "udp_packet_ok (rx_buf payload) = Inr True"
  shows "is_packet payload"
proof -
  let ?b = "rx_buf payload"
  define n where "n = unat (?b ! 9)"
  note c = udp_packet_ok_cases[OF length_rx_buf[OF assms(1)] n_def]
  from assms(2) have h: "take 8 ?b = replicate 8 0xbe" "take 8 (drop (11 + n) ?b) = replicate 8 0xff" "n \<le> 101"
    "take 8 (drop (19 + n) ?b) = replicate 8 0xed" unfolding c by (auto split: if_splits)
  have "?b ! (26 + n) = take 8 (drop (19 + n) ?b) ! 7" using h(3) assms(1) by simp
  also have "\<dots> = 0xed" unfolding h(4) by simp
  finally have "26 + n < length payload"
    using h(3) assms(1) by (cases "26 + n < length payload") (simp_all add: rx_buf_def nth_append)
  then have len: "27 + n \<le> length payload" by simp
  then have b: "take k (drop a ?b) = take k (drop a payload)" "?b ! j = payload ! j"
    if "a + k \<le> 27 + n" "j < 27 + n" for a k j using that by (simp_all add: rx_buf_def nth_append)
  have nn: "payload ! 9 = of_nat n" using b(2)[of 0 0 9] by (simp add: n_def)
  let ?d = "take n (drop 10 payload)"
  have "take (27 + n) payload = udp_packet (payload ! 8) ?d (payload ! (10 + n))"
    unfolding take_parts[OF len] udp_packet_def
    using h b(1)[of 0 8 0] b(1)[of "11 + n" 8 0] b(1)[of "19 + n" 8 0] len nn by simp
  moreover have "length ?d \<le> 101" using h(3) by simp
  ultimately show ?thesis unfolding is_packet_def by (metis append_take_drop_id)
qed

section \<open>Messages in a packet\<close>

text \<open>
  What the packet loop relies on: a handler of 8-byte messages that keeps an invariant and
  answers with 8 bytes. In such a handler the loop over a packet is a session over its messages.
\<close>

primrec session ::
  "(u8 list \<Rightarrow> 's \<Rightarrow> (u8 list option \<times> 's) res) \<Rightarrow> u8 list list \<Rightarrow> 's \<Rightarrow> (u8 list list \<times> 's) res" where
  "session handle [] s = Inr ([], s)"
| "session handle (m # ms) s =
     bind_res (handle m s) (\<lambda>(r, s).
       case r of None \<Rightarrow> Inr ([], s)
       | Some r \<Rightarrow> bind_res (session handle ms s) (\<lambda>(rs, s). Inr (r # rs, s)))"

locale message_handler =
  fixes handle :: "u8 list \<Rightarrow> 's \<Rightarrow> (u8 list option \<times> 's) res"
    and ok :: "'s \<Rightarrow> bool"
  assumes handle_ok: "ok s \<Longrightarrow> length m = 8 \<Longrightarrow> handle m s = Inr (r, s') \<Longrightarrow> ok s' \<and> (\<forall>d. r = Some d \<longrightarrow> length d = 8)"
begin

lemma slice_loop_session:
  assumes "ok s" "\<forall>m \<in> set ms. length m = 8" "session handle ms s = Inr (rs, s')" "length rs = length ms"
  shows "slice_loop handle (length ms) (length xs) (xs @ concat ms @ ys) s = Inr (Some (xs @ concat rs @ ys), s') \<and>
    ok s' \<and> (\<forall>r \<in> set rs. length r = 8)"
  using assms
proof (induction ms arbitrary: s rs xs)
  case Nil
  then show ?case by simp
next
  case (Cons m ms)
  then have m: "length m = 8" by simp
  from Cons.prems(3,4) obtain r s1 rs1 where r: "handle m s = Inr (Some r, s1)" "session handle ms s1 = Inr (rs1, s')"
    "rs = r # rs1" by (auto split: option.splits)
  from handle_ok[OF Cons.prems(1) m r(1)] have s1: "ok s1" "length r = 8" by auto
  have "take 8 (m @ concat ms @ ys) = m" "drop 8 (m @ concat ms @ ys) = concat ms @ ys" using m by simp_all
  moreover have "slice_loop handle (length ms) (length (xs @ r)) ((xs @ r) @ concat ms @ ys) s1 =
      Inr (Some ((xs @ r) @ concat rs1 @ ys), s') \<and> ok s' \<and> (\<forall>r \<in> set rs1. length r = 8)"
    using Cons.IH[OF s1(1) _ r(2), of "xs @ r"] Cons.prems(2,4) r(3) by simp
  ultimately show ?case using r(1,3) s1(2) m by (simp add: store_bytes_def)
qed

end

lemma udp_session_eq: "udp_session dev fuse ms s = session (HostCanDataAnalysisNoLoopBuf dev fuse) ms s"
  by (induction ms arbitrary: s) (auto simp: bind_res_def split: sum.splits option.splits)

lemma udp_handler_keeps:
  assumes "sys_ok b0 s" "length m = 8" "HostCanDataAnalysisNoLoopBuf dev fuse m s = Inr (r, s')"
  shows "sys_ok b0 s'" "r = Some d \<Longrightarrow> length d = 8"
proof -
  define s0 where "s0 = set_host (\<lambda>h. h\<lparr>g_DataFromHost := m\<rparr>) s"
  have ok0: "sys_ok b0 s0" using assms(1,2) by (simp add: s0_def sys_ok_def)
  have "sys_ok b0 s'" "r = None \<or> r = Some (g_DataFromHost (host s'))"
    using assms(3) ok0 stableD[OF _ ok0] udp_branches_ok(2)[of dev fuse b0] unfolding udp_dispatch[OF assms(1,2) s0_def]
    by (auto split: if_splits option.splits dest!: map_of_SomeD intro: sys_ok_emit)
  then show "sys_ok b0 s'" "r = Some d \<Longrightarrow> length d = 8" by (auto simp: sys_ok_def host_wf_def)
qed

interpretation uh: message_handler "HostCanDataAnalysisNoLoopBuf dev fuse" "sys_ok b0" for dev fuse b0
  by unfold_locales (use udp_handler_keeps in blast)

section \<open>Properties of the packet layer\<close>

text \<open>
  C25. The format check accepts exactly the packets: a datagram of at most 128 bytes passes if and
  only if it starts with eight 0xbe, a command, a length of at most 101, that many data bytes, a
  check byte, eight 0xff and eight 0xed. The check byte is not compared.
\<close>

theorem udp_packet_format:
  assumes "length payload \<le> 128"
  shows "udp_packet_ok (rx_buf payload) = Inr True \<longleftrightarrow>
    (\<exists>cmd data crc rest. payload = udp_packet cmd data crc @ rest \<and> length data \<le> 101)"
proof
  assume "\<exists>cmd data crc rest. payload = udp_packet cmd data crc @ rest \<and> length data \<le> 101"
  then obtain cmd data crc rest where p: "payload = udp_packet cmd data crc @ rest" "length data \<le> 101" by blast
  with assms udp_packet_passes(1)[OF p(2), of "rest @ replicate (128 - length payload) 0" cmd crc]
  show "udp_packet_ok (rx_buf payload) = Inr True" by (simp add: rx_buf_def)
qed (use udp_packet_parse[OF assms] in \<open>simp add: is_packet_def\<close>)

theorem udp_packet_format_witness:
  "udp_packet_ok (rx_buf (udp_packet 6 [0x11, 0, 0, 0, 0, 0, 0, 0] 0x55)) = Inr True"
proof -
  let ?d = "[0x11, 0, 0, 0, 0, 0, 0, 0] :: u8 list"
  have "udp_packet 6 ?d 0x55 = udp_packet 6 ?d 0x55 @ [] \<and> length ?d \<le> 101" by simp
  then show ?thesis using udp_packet_format[of "udp_packet 6 ?d 0x55"] by fastforce
qed

text \<open>
  C26. A datagram that is not a packet is dropped without a reply and without effect, except where
  the callback runs past its 128-byte buffer: on more than 128 bytes, and on a correct header whose
  length byte is above 109, or above 101 with the eight 0xff in place.
\<close>

theorem udp_callback_rejects:
  assumes "udp_packet_ok (rx_buf payload) \<noteq> Inr True" "n = unat (rx_buf payload ! 9)"
  shows "udp_echoserver_receive_callback dev fuse payload s =
    (if 128 < length payload \<or> take 8 (rx_buf payload) = replicate 8 0xbe \<and>
        (109 < n \<or> 101 < n \<and> take 8 (drop (11 + n) (rx_buf payload)) = replicate 8 0xff)
     then Inl OutOfBounds else Inr (Some None, s))"
proof (cases "128 < length payload")
  case True
  then show ?thesis by (simp add: udp_echoserver_receive_callback_def store_bytes_def COMM_LEN_def)
next
  case False
  then have len: "length payload \<le> 128" by simp
  let ?C = "take 8 (rx_buf payload) = replicate 8 0xbe \<and>
    (109 < n \<or> 101 < n \<and> take 8 (drop (11 + n) (rx_buf payload)) = replicate 8 0xff)"
  have "udp_packet_ok (rx_buf payload) = (if ?C then Inl OutOfBounds else Inr False)"
    using assms(1) udp_packet_ok_cases[OF length_rx_buf[OF len] assms(2)] by (auto split: if_splits)
  then show ?thesis
    using len by (cases ?C) (simp_all add: udp_echoserver_receive_callback_def rx_store)
qed

theorem udp_callback_rejects_witness:
  "udp_echoserver_receive_callback nor_dev (\<lambda>_. True) (replicate 8 0xbe @ [6, 200]) sys0 = Inl OutOfBounds \<and>
   udp_echoserver_receive_callback nor_dev (\<lambda>_. True) [1, 2, 3] sys0 = Inr (Some None, sys0)"
proof -
  let ?p = "replicate 8 0xbe @ [6, 200] :: u8 list" and ?q = "[1, 2, 3] :: u8 list"
  have p: "length (rx_buf ?p) = 128" "rx_buf ?p ! 9 = 200" "take 8 (rx_buf ?p) = replicate 8 0xbe"
    by (simp_all add: rx_buf_def nth_append)
  have "take 8 (rx_buf ?q) ! 0 \<noteq> replicate 8 0xbe ! 0" by (simp add: rx_buf_def)
  then have q: "length (rx_buf ?q) = 128" "take 8 (rx_buf ?q) \<noteq> replicate 8 0xbe" by (simp, metis)
  have "udp_packet_ok (rx_buf ?p) = Inl OutOfBounds" "udp_packet_ok (rx_buf ?q) = Inr False"
    using udp_packet_ok_cases[OF p(1) refl] udp_packet_ok_cases[OF q(1) refl] p q by simp_all
  with udp_callback_rejects[of ?p _ nor_dev "\<lambda>_. True" sys0, OF _ refl]
    udp_callback_rejects[of ?q _ nor_dev "\<lambda>_. True" sys0, OF _ refl] p q show ?thesis by simp
qed

text \<open>
  C24. A relay packet is a session: the callback hands the 8-byte messages of the packet to the
  command handler in order and answers with the same packet, every message replaced by its reply.
\<close>

theorem relay_packet_is_session:
  assumes "sys_ok b0 s" "\<forall>m \<in> set ms. length m = 8" "length ms \<le> 12"
    and run: "udp_session dev fuse ms s = Inr (rs, s')" "length rs = length ms"
  shows "udp_echoserver_receive_callback dev fuse (udp_packet COMM_CMD_RELAY_FIU_ACT (concat ms) crc) s =
    Inr (Some (Some (udp_packet COMM_CMD_RELAY_FIU_ACT (concat rs) crc)), s') \<and> sys_ok b0 s'"
proof -
  let ?c = "COMM_CMD_RELAY_FIU_ACT" and ?d = "concat ms" and ?e = "concat rs"
  let ?p = "udp_packet ?c ?d crc" and ?z = "replicate (101 - 8 * length ms) (0 :: u8)"
  have cl: "length (concat xs) = 8 * length xs" if "\<forall>m \<in> set xs. length m = 8" for xs :: "u8 list list"
    using that by (induction xs) auto
  let ?xs = "replicate 8 0xbe @ [?c, of_nat (length ?d)]" and ?ys = "[crc] @ replicate 8 0xff @ replicate 8 0xed @ ?z"
  have d: "length ?d = 8 * length ms" using cl[OF assms(2)] .
  have b: "rx_buf ?p = ?xs @ ?d @ ?ys" using d by (simp add: rx_buf_def udp_packet_def)
  have "length ?xs = 10" by simp
  from uh.slice_loop_session[OF assms(1,2) run[unfolded udp_session_eq], of ?xs ?ys]
  have loop: "slice_loop (HostCanDataAnalysisNoLoopBuf dev fuse) (length ms) 10 (rx_buf ?p) s = Inr (Some (?xs @ ?e @ ?ys), s')"
    and ok: "sys_ok b0 s'" "\<forall>r \<in> set rs. length r = 8" unfolding b by simp_all
  have e: "length ?e = 8 * length ms" using cl[OF ok(2)] run(2) by simp
  have rx: "rx_buf ?p = ?p @ ?z" using d by (simp add: rx_buf_def)
  have fmt: "udp_packet_ok (rx_buf ?p) = Inr True" "rx_buf ?p ! 8 = ?c" "unat (rx_buf ?p ! 9) = length ?d"
    unfolding rx using udp_packet_passes[of ?d ?z ?c crc] d assms(3) by simp_all
  have "?xs @ ?e @ ?ys = udp_packet ?c ?e crc @ ?z" using d e by (simp add: udp_packet_def)
  then have reply: "take (27 + length ?d) (?xs @ ?e @ ?ys) = udp_packet ?c ?e crc" using d e by (simp only: take_append) simp
  have len: "length ?p \<le> 128" using d assms(3) by simp
  have cmds: "?c \<noteq> COMM_CMD_TEST" "?c \<noteq> COMM_CMD_UID" "?c \<noteq> COMM_CMD_SFRST"
    by (simp_all add: COMM_CMD_RELAY_FIU_ACT_def COMM_CMD_TEST_def COMM_CMD_UID_def COMM_CMD_SFRST_def)
  show ?thesis
    unfolding udp_echoserver_receive_callback_def rx_store[OF len] FiuRelayPinActive_def
    using fmt loop reply ok(1) cmds d by simp
qed

theorem relay_packet_is_session_witness:
  "\<exists>s'. udp_echoserver_receive_callback nor_dev (\<lambda>_. True) (udp_packet COMM_CMD_RELAY_FIU_ACT (reset_msg 0) 0x55) sys0 =
     Inr (Some (Some (udp_packet COMM_CMD_RELAY_FIU_ACT (reset_msg 0) 0x55)), s') \<and> view board0 (rel s') = idle_view"
proof -
  from udp_reset_msg[OF sys0_ok(1) refl, of "reset_msg 0" nor_dev "\<lambda>_. True"] sys0_ok(2,3) obtain s' where
    "HostCanDataAnalysisNoLoopBuf nor_dev (\<lambda>_. True) (reset_msg 0) sys0 = Inr (Some (reset_msg 0), s')"
    "view board0 (rel s') = idle_view" by (auto simp: reset_msg_def)
  then have "udp_session nor_dev (\<lambda>_. True) [reset_msg 0] sys0 = Inr ([reset_msg 0], s')" by simp
  from relay_packet_is_session[OF sys0_ok(1) _ _ this, of "0x55"] \<open>view board0 (rel s') = idle_view\<close>
  show ?thesis by (auto simp: reset_msg_def)
qed

text \<open>The test command.\<close>

lemma inc_bytes_run:
  "for_each [length xs..<length xs + length data] (\<lambda>i (buf, c).
      bind_res (arr_get buf i) (\<lambda>x. bind_res (arr_set buf i (x + 1)) (\<lambda>buf. Inr (buf, c + (x + 1))))) (xs @ data @ ys, c) =
    Inr (xs @ map (\<lambda>x. x + 1) data @ ys, c + sum_list (map (\<lambda>x. x + 1) data))"
proof (induction data arbitrary: xs c)
  case Nil
  then show ?case by simp
next
  case (Cons d data)
  have "[length xs..<length xs + length (d # data)] = length xs # [length (xs @ [d + 1])..<length (xs @ [d + 1]) + length data]"
    by (subst upt_conv_Cons) simp_all
  then show ?case using Cons[of "xs @ [d + 1]" "c + (d + 1)"] by (simp add: list_update_append ac_simps del: upt_Suc)
qed

text \<open>
  C27. The test command answers with every data byte incremented (modulo 256) and the 8-bit sum of
  the incremented bytes as check byte, and leaves the unit alone.
\<close>

theorem udp_test_echo:
  assumes "length data \<le> 101"
  shows "udp_echoserver_receive_callback dev fuse (udp_packet COMM_CMD_TEST data crc) s =
    Inr (Some (Some (udp_packet COMM_CMD_TEST (map (\<lambda>x. x + 1) data) (sum_list (map (\<lambda>x. x + 1) data)))), s)"
proof -
  let ?c = "COMM_CMD_TEST" and ?n = "length data" and ?z = "replicate (101 - length data) (0 :: u8)"
  let ?p = "udp_packet ?c data crc" and ?e = "map (\<lambda>x. x + 1) data"
  let ?xs = "replicate 8 0xbe @ [?c, of_nat ?n]" and ?ys = "[crc] @ replicate 8 0xff @ replicate 8 0xed @ ?z"
  have rx: "rx_buf ?p = ?p @ ?z" "rx_buf ?p = ?xs @ data @ ?ys" by (simp_all add: rx_buf_def udp_packet_def)
  have len: "length ?p \<le> 128" using assms by simp
  have fmt: "udp_packet_ok (rx_buf ?p) = Inr True" "rx_buf ?p ! 8 = ?c" "unat (rx_buf ?p ! 9) = ?n"
    unfolding rx(1) using udp_packet_passes[OF assms, of ?z ?c crc] assms by simp_all
  have "inc_bytes (rx_buf ?p) 10 (10 + ?n) = Inr (?xs @ ?e @ ?ys, sum_list ?e)"
    unfolding rx(2) using inc_bytes_run[of ?xs data ?ys 0] by (simp add: inc_bytes_def)
  moreover have "(?xs @ ?e @ ?ys)[10 + ?n := sum_list ?e] = udp_packet ?c ?e (sum_list ?e) @ ?z"
    by (simp add: udp_packet_def list_update_append)
  ultimately have test: "udp_test ?n (rx_buf ?p) = Inr (udp_packet ?c ?e (sum_list ?e) @ ?z)"
    by (simp add: udp_test_def)
  have "store_bytes ?p 0 (take (27 + ?n) (udp_packet ?c ?e (sum_list ?e) @ ?z)) = Inr (udp_packet ?c ?e (sum_list ?e))"
    by (simp add: store_bytes_def)
  with fmt test len show ?thesis by (simp add: udp_echoserver_receive_callback_def rx_store)
qed

theorem udp_test_echo_witness:
  "udp_echoserver_receive_callback nor_dev (\<lambda>_. True) (udp_packet COMM_CMD_TEST [3, 4] 7) sys0 =
    Inr (Some (Some (udp_packet COMM_CMD_TEST [4, 5] 9)), sys0)"
  using udp_test_echo[of "[3, 4]" nor_dev "\<lambda>_. True" 7 sys0] by simp

lemma ip_record_overflows:
  assumes "length tmp_buf = 128"
  shows "ip_record dev tmp_buf f = Inl OutOfBounds"
proof -
  have rd: "length (STMFLASH_Read dev f a n) = n" for a n by (induction n arbitrary: a) simp_all
  have hm: "length (fold (\<lambda>i t. t[2 * i := 0xaa, 2 * i + 1 := 0x55]) is t) = length t" for "is" and t :: "u8 list"
    by (induction "is" arbitrary: t) auto
  then have "length (head_mark (bytes_of_words (STMFLASH_Read dev f FLASH_PROCHEAD 16))) = 64"
    unfolding head_mark_def by (simp add: rd del: upt_Suc)
  then show ?thesis using assms by (simp add: ip_record_def ip_fields_def Let_def arr_set_Inl)
qed

text \<open>Outcomes that change nothing or run out of bounds, along the checks of the multicast callback.\<close>

definition kept_or_oob :: "'f \<Rightarrow> 'f res \<Rightarrow> bool" where
  "kept_or_oob f r \<longleftrightarrow> r = Inr f \<or> r = Inl OutOfBounds"

lemma kept_or_oob_simps [simp]: "kept_or_oob f (Inr f)" "kept_or_oob f (Inl OutOfBounds)"
  by (simp_all add: kept_or_oob_def)

lemma kept_or_oob_bind:
  "m = Inl OutOfBounds \<or> (\<exists>x. m = Inr x) \<Longrightarrow> (\<And>x. m = Inr x \<Longrightarrow> kept_or_oob f (g x)) \<Longrightarrow> kept_or_oob f (bind_res m g)"
  by auto

lemma kept_or_oob_if: "(c \<Longrightarrow> kept_or_oob f a) \<Longrightarrow> (\<not> c \<Longrightarrow> kept_or_oob f b) \<Longrightarrow> kept_or_oob f (if c then a else b)"
  by simp

lemma byte_loop_outcomes:
  "all_bytes buf a b v = Inl OutOfBounds \<or> (\<exists>x. all_bytes buf a b v = Inr x)"
  "sum_bytes buf a b = Inl OutOfBounds \<or> (\<exists>x. sum_bytes buf a b = Inr x)"
  "arr_get buf a = Inl OutOfBounds \<or> (\<exists>x. arr_get buf a = Inr x)"
  "store_bytes buf a src = Inl OutOfBounds \<or> (\<exists>x. store_bytes buf a src = Inr x)"
  by (simp_all add: all_bytes_eq sum_bytes_eq arr_get_def store_bytes_def)

lemma udp_server_rev_cases:
  assumes "length junk = 128"
  shows "kept_or_oob f (udp_server_rev dev junk uid p f)"
proof (cases p)
  case (Some payload)
  have len: "length t = 128" if "store_bytes junk 0 payload = Inr t" for t
    using that assms by (auto simp: store_bytes_def split: if_splits)
  show ?thesis
    unfolding udp_server_rev_def Some Let_def option.case
    by (intro kept_or_oob_if kept_or_oob_bind byte_loop_outcomes kept_or_oob_simps) (simp add: ip_record_overflows len)
qed (simp add: udp_server_rev_def)

text \<open>
  C28. Setting the address never works: its record of 64 bytes is written at index 64. The UDP command
  0xc8 always writes outside the array, and the multicast callback either leaves the flash alone
  or does the same.
\<close>

theorem address_never_set:
  assumes "length data \<le> 101" "length junk = 128"
  shows "udp_echoserver_receive_callback dev fuse (udp_packet COMM_CMD_IP data crc) s = Inl OutOfBounds \<and>
    (udp_server_rev dev junk uid p f = Inr f \<or> udp_server_rev dev junk uid p f = Inl OutOfBounds)"
proof (intro conjI)
  let ?p = "udp_packet COMM_CMD_IP data crc" and ?z = "replicate (101 - length data) (0 :: u8)"
  have rx: "rx_buf ?p = ?p @ ?z" by (simp add: rx_buf_def)
  have len: "length ?p \<le> 128" using assms by simp
  have fmt: "udp_packet_ok (rx_buf ?p) = Inr True" "rx_buf ?p ! 8 = COMM_CMD_IP"
    unfolding rx using udp_packet_passes[OF assms(1), of ?z COMM_CMD_IP crc] assms by simp_all
  have cmds: "COMM_CMD_IP \<noteq> COMM_CMD_TEST" "COMM_CMD_IP \<noteq> COMM_CMD_UID" "COMM_CMD_IP \<noteq> COMM_CMD_SFRST"
    "COMM_CMD_IP \<noteq> COMM_CMD_RELAY_FIU_ACT"
    by (simp_all add: COMM_CMD_RELAY_FIU_ACT_def COMM_CMD_TEST_def COMM_CMD_UID_def COMM_CMD_SFRST_def COMM_CMD_IP_def)
  show "udp_echoserver_receive_callback dev fuse ?p s = Inl OutOfBounds"
    using fmt cmds
    by (simp add: udp_echoserver_receive_callback_def rx_store[OF len] ip_record_overflows[OF length_rx_buf[OF len]] Let_def)
qed (rule udp_server_rev_cases[OF assms(2), unfolded kept_or_oob_def])

theorem address_never_set_witness:
  "udp_echoserver_receive_callback nor_dev (\<lambda>_. True) (udp_packet COMM_CMD_IP (replicate 14 7) 98) sys0 = Inl OutOfBounds"
  using address_never_set[of "replicate 14 7" "replicate 128 0" nor_dev "\<lambda>_. True" 98 sys0] by simp

text \<open>
  C29. The device description overflows its buffer: with the structure's 104 bytes the packet has 140
  bytes, and \<open>McuInfoInit\<close> writes them into a local array of 128.
\<close>

theorem McuInfoInit_overflows:
  assumes "length junk = 128" "mcuinfo_wf m"
  shows "McuInfoInit junk localPort buf m = Inl OutOfBounds"
proof -
  have fill: "fill_bytes a b v buf =
      (if a < b \<and> length buf < b then Inl OutOfBounds else Inr (fold (\<lambda>i buf. buf[i := v]) [a..<b] buf))" for a b v buf
  proof (induction b)
    case (Suc b)
    have "length (fold (\<lambda>i buf. buf[i := v]) is buf) = length buf" for "is" by (induction "is" arbitrary: buf) auto
    with Suc show ?case by (cases "a \<le> b") (auto simp: fill_bytes_def for_each_append arr_set_def)
  qed (simp add: fill_bytes_def)
  have len: "length (fold (\<lambda>i buf. buf[i := v]) is buf) = length buf" for "is" v and buf :: "u8 list"
    by (induction "is" arbitrary: buf) auto
  have "length (mcuinfo_bytes (describe localPort m)) = 104"
    using assms(2) by (simp add: mcuinfo_bytes_def describe_def mcuinfo_wf_def c_string_def)
  then show ?thesis
    using assms(1) unfolding McuInfoInit_def fill
    by (simp add: len store_bytes_def sum_bytes_eq fill Let_def del: upt_Suc)
qed

definition mcuinfo0 :: mcuinfo where
  "mcuinfo0 = \<lparr>devType = 0, port = 0, devName = replicate 32 0, devSN = replicate 16 0, mcuType = replicate 16 0,
     mcuUID = [1, 2, 3], mcuSV = [0, 0, 0], mcuIP = [0, 0, 0, 0], mcuNetMask = [0, 0, 0, 0], mcuGW = [0, 0, 0, 0],
     mcuMAC = [0, 0, 0, 0, 0, 0], mcuHV = [0, 0], reserve = [0]\<rparr>"

theorem McuInfoInit_overflows_witness:
  "McuInfoInit (replicate 128 0) 50099 (replicate 200 0) mcuinfo0 = Inl OutOfBounds"
  by (rule McuInfoInit_overflows) (simp_all add: mcuinfo_wf_def mcuinfo0_def)

end
