(* ===== verification/Malloc.thy ===== *)
theory Malloc
  imports Prelude
begin

text \<open>
  \<^verbatim>\<open>src/MALLOC/malloc.c\<close>: the memory manager. Three banks are cut into blocks of 64 bytes; a table
  holds for each block 0 if it is free and the number of blocks of its allocation otherwise.
  Allocation searches the table from the top for enough free blocks in a row. The operations are
  shown to implement a set of disjoint regions.
\<close>

section \<open>State and operations\<close>

text \<open>
  The tables, the ready flags, and the memory that \<open>myrealloc\<close> copies: the bytes of the pool arrays
  by address. There is nothing at other addresses, and an access there is a fault.
\<close>

record heap_st =
  memmap :: "u32 list list"
  memrdy :: "u8 list"
  mem :: "u32 \<rightharpoonup> u8"

definition memtblsize :: "u32 list" where "memtblsize = [1600, 462592, 960]"
definition memblksize :: "u32 list" where "memblksize = [64, 64, 64]"
definition memsize :: "u32 list" where "memsize = [102400, 29605888, 61440]"

text \<open>The pool of internal RAM is placed by the linker, at \<open>base1\<close>; the others are at fixed addresses.\<close>

definition membase :: "u32 \<Rightarrow> u32 list" where "membase base1 = [base1, 0xC01F4000, 0x10000000]"

primrec mymemcpy :: "u32 \<Rightarrow> u32 \<Rightarrow> nat \<Rightarrow> (u32 \<rightharpoonup> u8) \<Rightarrow> (u32 \<rightharpoonup> u8) res" where
  "mymemcpy xdes xsrc 0 m = Inr m"
| "mymemcpy xdes xsrc (Suc n) m =
     (case m xsrc of
        None \<Rightarrow> Inl OutOfBounds
      | Some v \<Rightarrow>
          if m xdes = None then Inl OutOfBounds
          else mymemcpy (xdes + 1) (xsrc + 1) n (m(xdes \<mapsto> v)))"

text \<open>The table is cleared by bytes; four zero bytes are a zero entry.\<close>

definition my_mem_init :: "u8 \<Rightarrow> heap_st \<Rightarrow> heap_st res" where
  "my_mem_init memx h =
     bind_res (arr_get memtblsize (unat memx)) (\<lambda>n.
     bind_res (arr_get (memmap h) (unat memx)) (\<lambda>tab.
     bind_res (for_each [0..<unat n] (\<lambda>i tab. arr_set tab i 0) tab) (\<lambda>tab.
     Inr (h\<lparr>memmap := (memmap h)[unat memx := tab], memrdy := (memrdy h)[unat memx := 1]\<rparr>))))"

definition my_mem_perused :: "u8 \<Rightarrow> heap_st \<Rightarrow> u16 res" where
  "my_mem_perused memx h =
     bind_res (arr_get memtblsize (unat memx)) (\<lambda>n.
     bind_res (arr_get (memmap h) (unat memx)) (\<lambda>tab.
     bind_res (for_each [0..<unat n] (\<lambda>i used. bind_res (arr_get tab i) (\<lambda>v. Inr (if v \<noteq> 0 then used + 1 else used))) 0) (\<lambda>used :: u32.
     Inr (ucast (used * 1000 div n)))))"

text \<open>The search from block \<open>k - 1\<close> down; \<open>cmemb\<close> counts free blocks in a row.\<close>

primrec malloc_loop :: "u32 \<Rightarrow> u32 list \<Rightarrow> u32 \<Rightarrow> nat \<Rightarrow> (nat \<times> u32 list) option res" where
  "malloc_loop nmemb tab cmemb 0 = Inr None"
| "malloc_loop nmemb tab cmemb (Suc offset) =
     bind_res (arr_get tab offset) (\<lambda>v.
     let cmemb = (if v = 0 then cmemb + 1 else 0) in
     if cmemb = nmemb then
       bind_res (for_each [0..<unat nmemb] (\<lambda>i tab. arr_set tab (offset + i) nmemb) tab) (\<lambda>tab. Inr (Some (offset, tab)))
     else malloc_loop nmemb tab cmemb offset)"

definition my_mem_malloc :: "u8 \<Rightarrow> u32 \<Rightarrow> heap_st \<Rightarrow> (u32 \<times> heap_st) res" where
  "my_mem_malloc memx sz h =
     bind_res (arr_get (memrdy h) (unat memx)) (\<lambda>rdy.
     bind_res (if rdy = 0 then my_mem_init memx h else Inr h) (\<lambda>h.
     if sz = 0 then Inr (0xFFFFFFFF, h)
     else
       bind_res (arr_get memblksize (unat memx)) (\<lambda>blk.
       let nmemb = sz div blk;
           nmemb = (if sz mod blk \<noteq> 0 then nmemb + 1 else nmemb) in
       bind_res (arr_get memtblsize (unat memx)) (\<lambda>n.
       bind_res (arr_get (memmap h) (unat memx)) (\<lambda>tab.
       bind_res (malloc_loop nmemb tab 0 (unat n)) (\<lambda>r.
       Inr (case r of None \<Rightarrow> (0xFFFFFFFF, h)
            | Some (offset, tab) \<Rightarrow> (of_nat offset * blk, h\<lparr>memmap := (memmap h)[unat memx := tab]\<rparr>))))))))"

definition my_mem_free :: "u8 \<Rightarrow> u32 \<Rightarrow> heap_st \<Rightarrow> (u8 \<times> heap_st) res" where
  "my_mem_free memx offset h =
     bind_res (arr_get (memrdy h) (unat memx)) (\<lambda>rdy.
     if rdy = 0 then bind_res (my_mem_init memx h) (\<lambda>h. Inr (1, h))
     else
       bind_res (arr_get memsize (unat memx)) (\<lambda>limit.
       if offset < limit then
         bind_res (arr_get memblksize (unat memx)) (\<lambda>blk.
         bind_res (arr_get (memmap h) (unat memx)) (\<lambda>tab.
         let index = unat (offset div blk) in
         bind_res (arr_get tab index) (\<lambda>nmemb.
         bind_res (for_each [0..<nat (sint nmemb)] (\<lambda>i tab. arr_set tab (index + i) 0) tab) (\<lambda>tab.
         Inr (0, h\<lparr>memmap := (memmap h)[unat memx := tab]\<rparr>)))))
       else Inr (2, h)))"

definition myfree :: "u32 \<Rightarrow> u8 \<Rightarrow> u32 \<Rightarrow> heap_st \<Rightarrow> heap_st res" where
  "myfree base1 memx ptr h =
     (if ptr = 0 then Inr h
      else
        bind_res (arr_get (membase base1) (unat memx)) (\<lambda>base.
        bind_res (my_mem_free memx (ptr - base) h) (\<lambda>(_, h). Inr h)))"

definition mymalloc :: "u32 \<Rightarrow> u8 \<Rightarrow> u32 \<Rightarrow> heap_st \<Rightarrow> (u32 \<times> heap_st) res" where
  "mymalloc base1 memx sz h =
     bind_res (my_mem_malloc memx sz h) (\<lambda>(offset, h).
     if offset = 0xFFFFFFFF then Inr (0, h)
     else bind_res (arr_get (membase base1) (unat memx)) (\<lambda>base. Inr (base + offset, h)))"

definition myrealloc :: "u32 \<Rightarrow> u8 \<Rightarrow> u32 \<Rightarrow> u32 \<Rightarrow> heap_st \<Rightarrow> (u32 \<times> heap_st) res" where
  "myrealloc base1 memx ptr sz h =
     bind_res (my_mem_malloc memx sz h) (\<lambda>(offset, h).
     if offset = 0xFFFFFFFF then Inr (0, h)
     else
       bind_res (arr_get (membase base1) (unat memx)) (\<lambda>base.
       bind_res (mymemcpy (base + offset) ptr (unat sz) (mem h)) (\<lambda>m.
       bind_res (myfree base1 memx ptr (h\<lparr>mem := m\<rparr>)) (\<lambda>h. Inr (base + offset, h)))))"

section \<open>Tables\<close>

text \<open>A table is a row of free blocks and of allocations, \<open>n\<close> entries with value \<open>n\<close> each.\<close>

function runs_ok :: "u32 list \<Rightarrow> bool" where
  "runs_ok [] \<longleftrightarrow> True"
| "runs_ok (v # vs) \<longleftrightarrow>
     (if v = 0 then runs_ok vs
      else unat v \<le> Suc (length vs) \<and> take (unat v) (v # vs) = replicate (unat v) v \<and> runs_ok (drop (unat v) (v # vs)))"
  by pat_completeness auto
termination
  by (relation "measure length") (auto simp: unat_eq_zero[symmetric] simp del: unat_eq_zero)

text \<open>The allocations: first block and number of blocks.\<close>

function allocs :: "nat \<Rightarrow> u32 list \<Rightarrow> (nat \<times> nat) set" where
  "allocs k [] = {}"
| "allocs k (v # vs) =
     (if v = 0 then allocs (Suc k) vs else insert (k, unat v) (allocs (k + unat v) (drop (unat v) (v # vs))))"
  by pat_completeness auto
termination
  by (relation "measure (length \<circ> snd)") (auto simp: unat_eq_zero[symmetric] simp del: unat_eq_zero)

lemma for_each_fill:
  "k + n \<le> length xs \<Longrightarrow> for_each [0..<n] (\<lambda>i xs. arr_set xs (k + i) v) xs = Inr (take k xs @ replicate n v @ drop (k + n) xs)"
proof (induction n)
  case (Suc n)
  have "(take k xs @ replicate n v @ drop (k + n) xs)[k + n := v] = take k xs @ replicate (Suc n) v @ drop (Suc (k + n)) xs"
    using Suc.prems by (simp add: list_update_append replicate_append_same[symmetric] Cons_nth_drop_Suc[symmetric])
  with Suc show ?case by (simp add: for_each_append)
qed simp

lemma runs_ok_append: "runs_ok xs \<Longrightarrow> runs_ok (xs @ ys) \<longleftrightarrow> runs_ok ys"
proof (induction xs rule: runs_ok.induct)
  case (2 v vs)
  show ?case
  proof (cases "v = 0")
    case False
    with 2 have v: "unat v \<le> Suc (length vs)" "take (unat v) (v # vs) = replicate (unat v) v"
      "runs_ok (drop (unat v) (v # vs))" by auto
    have "drop (unat v) (v # vs @ ys) = drop (unat v) (v # vs) @ ys" "take (unat v) (v # vs @ ys) = take (unat v) (v # vs)"
      using v(1) by (simp_all flip: append_Cons)
    with 2(2)[OF False v(3)] v False show ?thesis by simp
  qed (use 2 in simp)
qed simp

lemma allocs_append: "runs_ok xs \<Longrightarrow> allocs k (xs @ ys) = allocs k xs \<union> allocs (k + length xs) ys"
proof (induction k xs rule: allocs.induct)
  case (2 k v vs)
  show ?case
  proof (cases "v = 0")
    case False
    with 2 have v: "unat v \<le> Suc (length vs)" "runs_ok (drop (unat v) (v # vs))" by auto
    have "drop (unat v) (v # vs @ ys) = drop (unat v) (v # vs) @ ys" using v(1) by (simp flip: append_Cons)
    with 2(2)[OF False v(2)] v False show ?thesis by simp
  qed (use 2 in simp)
qed simp

text \<open>A free block is not inside an allocation, so it splits a table.\<close>

lemma runs_ok_split: "runs_ok (xs @ 0 # ys) \<Longrightarrow> runs_ok xs"
proof (induction xs rule: runs_ok.induct)
  case (2 v vs)
  show ?case
  proof (cases "v = 0")
    case False
    let ?n = "unat v" and ?zs = "v # vs @ 0 # ys"
    from 2(3) False have z: "?n \<le> length ?zs" "take ?n ?zs = replicate ?n v" "runs_ok (drop ?n ?zs)" by auto
    have n: "?n \<le> Suc (length vs)"
    proof (rule ccontr)
      assume "\<not> ?n \<le> Suc (length vs)"
      then have "take ?n ?zs ! Suc (length vs) = 0" "replicate ?n v ! Suc (length vs) = v" by simp_all
      with z(2) False show False by simp
    qed
    then have "drop ?n ?zs = drop ?n (v # vs) @ 0 # ys" "take ?n ?zs = take ?n (v # vs)"
      by (simp_all flip: append_Cons)
    with 2(2)[OF False] z n False show ?thesis by simp
  qed (use 2 in simp)
qed simp

lemma zeros_ok [simp]: "runs_ok (replicate n 0)" "allocs k (replicate n 0) = {}"
  by (induction n arbitrary: k) simp_all

lemma run_ok [simp]:
  assumes "0 < n" "n < 2 ^ 32"
  shows "runs_ok (replicate n (of_nat n))" "allocs k (replicate n (of_nat n)) = {(k, n)}"
proof -
  have u: "unat (of_nat n :: u32) = n" using assms by (simp add: unat_of_nat)
  then have nz: "(of_nat n :: u32) \<noteq> 0" using assms(1) by (metis less_numeral_extra(3) unat_0)
  obtain m where m: "n = Suc m" using assms(1) by (cases n) auto
  let ?v = "of_nat n :: u32"
  have e: "replicate n ?v = ?v # replicate m ?v" by (simp add: m)
  have "runs_ok (?v # replicate m ?v)" "allocs k (?v # replicate m ?v) = {(k, n)}"
    using nz u m by (simp_all add: u[unfolded m] del: of_nat_Suc)
  then show "runs_ok (replicate n ?v)" "allocs k (replicate n ?v) = {(k, n)}" by (simp_all only: e)
qed

text \<open>The allocations cover exactly the blocks whose entry is not 0.\<close>

lemma allocs_used:
  "runs_ok tab \<Longrightarrow> (\<exists>(a, n) \<in> allocs k tab. a \<le> i \<and> i < a + n) \<longleftrightarrow> k \<le> i \<and> i < k + length tab \<and> tab ! (i - k) \<noteq> 0"
proof (induction k tab rule: allocs.induct)
  case (2 k v vs)
  show ?case
  proof (cases "v = 0")
    case True
    with 2 show ?thesis by (cases "i = k") (auto simp: nth_Cons' Suc_le_eq)
  next
    case False
    let ?n = "unat v" and ?d = "drop (unat v) (v # vs)"
    from False 2(3) have v: "?n \<le> Suc (length vs)" "take ?n (v # vs) = replicate ?n v" "runs_ok ?d" by auto
    have "(v # vs) ! j = v" if "j < ?n" for j using that v(1,2) by (metis nth_replicate nth_take)
    then have here: "tab' \<noteq> 0" if "k \<le> i" "i < k + ?n" "tab' = (v # vs) ! (i - k)" for tab'
      using that False by simp
    have "?d ! (i - (k + ?n)) = (v # vs) ! (i - k)" if "k + ?n \<le> i" using that v(1) by simp
    with here 2(2)[OF False v(3)] v(1) False show ?thesis
      by (cases "i < k + ?n") (auto simp del: drop_Suc_Cons)
  qed
qed simp

lemma allocs_split:
  "runs_ok tab \<Longrightarrow> (a, n) \<in> allocs k tab \<Longrightarrow>
     \<exists>xs ys. tab = xs @ replicate n (of_nat n) @ ys \<and> a = k + length xs \<and> runs_ok xs \<and> runs_ok ys \<and> 0 < n \<and> n < 2 ^ 32"
proof (induction k tab rule: allocs.induct)
  case (2 k v vs)
  show ?case
  proof (cases "v = 0")
    case True
    with 2 obtain xs ys where "vs = xs @ replicate n (of_nat n) @ ys" "a = Suc k + length xs" "runs_ok xs" "runs_ok ys"
      "0 < n" "n < 2 ^ 32" by auto
    with True show ?thesis by (intro exI[of _ "0 # xs"] exI[of _ ys]) simp
  next
    case False
    let ?n = "unat v" and ?d = "drop (unat v) (v # vs)"
    from False 2(3) have v: "?n \<le> Suc (length vs)" "take ?n (v # vs) = replicate ?n v" "runs_ok ?d" by auto
    have vs: "v # vs = replicate ?n v @ ?d" using v(2) by (metis append_take_drop_id)
    have pos: "0 < ?n" "?n < 2 ^ 32" using False unsigned_less[of v, where ?'a = nat] by (simp_all add: unat_gt_0)
    show ?thesis
    proof (cases "(a, n) = (k, ?n)")
      case True
      with vs v(3) pos show ?thesis by (intro exI[of _ "[]"] exI[of _ ?d]) simp
    next
      case neq: False
      with False 2(4) have "(a, n) \<in> allocs (k + ?n) ?d" by auto
      from 2(2)[OF False v(3) this] obtain xs ys where
        xs: "?d = xs @ replicate n (of_nat n) @ ys" "a = k + ?n + length xs" "runs_ok xs" "runs_ok ys" "0 < n" "n < 2 ^ 32" by blast
      have "runs_ok (replicate ?n v @ xs)" using run_ok(1)[OF pos] xs(3) by (simp add: runs_ok_append)
      with xs vs show ?thesis by (intro exI[of _ "replicate ?n v @ xs"] exI[of _ ys]) simp
    qed
  qed
qed simp

text \<open>A row of \<open>n\<close> free blocks from block \<open>a\<close> on.\<close>

definition free_run :: "u32 list \<Rightarrow> nat \<Rightarrow> nat \<Rightarrow> bool" where
  "free_run tab n a \<longleftrightarrow> a + n \<le> length tab \<and> take n (drop a tab) = replicate n 0"

lemma free_run_nth: "free_run tab n a \<longleftrightarrow> a + n \<le> length tab \<and> (\<forall>i < n. tab ! (a + i) = 0)"
  by (auto simp: free_run_def list_eq_iff_nth_eq)

lemma free_run_split: "free_run tab n a \<Longrightarrow> tab = take a tab @ replicate n 0 @ drop (a + n) tab"
  unfolding free_run_def by (metis append_take_drop_id drop_drop add.commute)

definition mark :: "nat \<Rightarrow> nat \<Rightarrow> u32 \<Rightarrow> u32 list \<Rightarrow> u32 list" where
  "mark a n v tab = take a tab @ replicate n v @ drop (a + n) tab"

lemma length_mark [simp]: "a + n \<le> length tab \<Longrightarrow> length (mark a n v tab) = length tab"
  by (simp add: mark_def)

lemma mark_alloc:
  assumes "runs_ok tab" "free_run tab n a" "0 < n" "n < 2 ^ 32"
  shows "runs_ok (mark a n (of_nat n) tab)" "allocs 0 (mark a n (of_nat n) tab) = insert (a, n) (allocs 0 tab)"
proof -
  obtain m where m: "n = Suc m" using assms(3) by (cases n) auto
  let ?xs = "take a tab" and ?ys = "drop (a + n) tab"
  have tab: "tab = ?xs @ replicate n 0 @ ?ys" by (rule free_run_split[OF assms(2)])
  have len: "length ?xs = a" using assms(2) by (simp add: free_run_def)
  have x: "runs_ok ?xs" using assms(1) runs_ok_split[of ?xs "replicate m 0 @ ?ys"] tab by (simp add: m)
  have y: "runs_ok ?ys" using assms(1) x tab by (metis runs_ok_append zeros_ok(1))
  show "runs_ok (mark a n (of_nat n) tab)" using x y run_ok(1)[OF assms(3,4)] by (simp add: mark_def runs_ok_append)
  have "allocs 0 tab = allocs 0 ?xs \<union> allocs (a + n) ?ys"
    by (subst tab) (simp only: allocs_append[OF x] allocs_append[OF zeros_ok(1)] zeros_ok(2) len length_replicate add_0 Un_empty_left)
  then show "allocs 0 (mark a n (of_nat n) tab) = insert (a, n) (allocs 0 tab)"
    unfolding mark_def
    by (simp only: allocs_append[OF x] allocs_append[OF run_ok(1)[OF assms(3,4)]] run_ok(2)[OF assms(3,4)] len length_replicate add_0) blast
qed

lemma mark_free:
  assumes "runs_ok tab" "(a, n) \<in> allocs 0 tab"
  shows "runs_ok (mark a n 0 tab)" "allocs 0 (mark a n 0 tab) = allocs 0 tab - {(a, n)}" "a + n \<le> length tab"
    "tab ! a = of_nat n" "0 < n" "n < 2 ^ 32"
proof -
  from allocs_split[OF assms] obtain xs ys where
    t: "tab = xs @ replicate n (of_nat n) @ ys" "a = length xs" "runs_ok xs" "runs_ok ys" "0 < n" "n < 2 ^ 32" by auto
  have m: "mark a n 0 tab = xs @ replicate n 0 @ ys" using t(1,2) by (simp add: mark_def)
  then show "runs_ok (mark a n 0 tab)" using t(3,4) by (simp add: runs_ok_append)
  have lo: "b + n' \<le> a" if "(b, n') \<in> allocs 0 xs" for b n'
    using allocs_split[OF t(3) that] t(2) by auto
  have hi: "a + n \<le> b" if "(b, n') \<in> allocs (a + n) ys" for b n'
    using allocs_split[OF t(4) that] by auto
  have "(a, n) \<notin> allocs 0 xs" "(a, n) \<notin> allocs (a + n) ys" using lo[of a n] hi[of a n] t(5) by auto
  then show "allocs 0 (mark a n 0 tab) = allocs 0 tab - {(a, n)}"
    unfolding m using t(2,3,5,6) by (auto simp: t(1) allocs_append)
  show "a + n \<le> length tab" "tab ! a = of_nat n" "0 < n" "n < 2 ^ 32" using t by (simp_all add: nth_append)
qed

section \<open>The search\<close>

text \<open>The search finds the highest row of free blocks that is long enough.\<close>

definition top_fit :: "u32 list \<Rightarrow> nat \<Rightarrow> nat \<Rightarrow> nat option \<Rightarrow> bool" where
  "top_fit tab n k r \<longleftrightarrow>
     (case r of None \<Rightarrow> \<forall>a < k. \<not> free_run tab n a
      | Some a \<Rightarrow> a < k \<and> free_run tab n a \<and> (\<forall>b. a < b \<longrightarrow> b < k \<longrightarrow> \<not> free_run tab n b))"

lemma top_fit_Suc: "top_fit tab n k r \<Longrightarrow> \<not> free_run tab n k \<Longrightarrow> top_fit tab n (Suc k) r"
  by (auto simp: top_fit_def less_Suc_eq split: option.splits)

lemma malloc_loop_spec:
  assumes "unat nmemb = n" "unat cmemb < n" "k + unat cmemb \<le> length tab" "\<forall>i < unat cmemb. tab ! (k + i) = 0"
    "k + unat cmemb = length tab \<or> tab ! (k + unat cmemb) \<noteq> 0"
  shows "\<exists>r. top_fit tab n k r \<and>
    malloc_loop nmemb tab cmemb k = Inr (map_option (\<lambda>a. (a, mark a n nmemb tab)) r)"
  using assms(2-)
proof (induction k arbitrary: cmemb)
  case 0
  then show ?case by (intro exI[of _ None]) (simp add: top_fit_def)
next
  case (Suc k)
  let ?c = "unat cmemb"
  show ?case
  proof (cases "tab ! k = 0")
    case False
    then have "\<not> free_run tab n k" using Suc.prems(1) by (auto simp: free_run_nth intro: exI[of _ 0])
    moreover obtain r where "top_fit tab n k r" "malloc_loop nmemb tab 0 k = Inr (map_option (\<lambda>a. (a, mark a n nmemb tab)) r)"
      using Suc.IH[of 0] Suc.prems False by auto
    moreover have "nmemb \<noteq> 0" using Suc.prems(1) assms(1) by auto
    ultimately show ?thesis using Suc.prems False top_fit_Suc by (intro exI[of _ r]) (auto simp: Let_def)
  next
    case True
    have "Suc ?c \<le> unat nmemb" using Suc.prems(1) assms(1) by simp
    then have c1: "unat (cmemb + 1) = Suc ?c"
      using unsigned_less[of nmemb, where ?'a = nat] by (simp add: unat_word_ariths)
    have zeros: "\<forall>i < Suc ?c. tab ! (k + i) = 0" using True Suc.prems(3) by (auto simp: less_Suc_eq_0_disj)
    show ?thesis
    proof (cases "Suc ?c = n")
      case eq: True
      then have "cmemb + 1 = nmemb" using c1 assms(1) by (metis word_unat_eq_iff)
      moreover have "free_run tab n k" using zeros eq Suc.prems(2) by (auto simp: free_run_nth)
      moreover from this have "for_each [0..<n] (\<lambda>i tab. arr_set tab (k + i) nmemb) tab = Inr (mark k n nmemb tab)"
        unfolding mark_def by (intro for_each_fill) (simp add: free_run_def)
      ultimately show ?thesis using Suc.prems(2) True assms(1) by (intro exI[of _ "Some k"]) (auto simp: top_fit_def)
    next
      case neq: False
      then have "cmemb + 1 \<noteq> nmemb" using c1 assms(1) by auto
      moreover have "\<not> free_run tab n k"
      proof
        assume f: "free_run tab n k"
        have "Suc ?c < n" using neq Suc.prems(1) by simp
        with f have "tab ! (k + Suc ?c) = 0" "k + Suc ?c < length tab" by (auto simp: free_run_nth)
        with Suc.prems(4) show False by simp
      qed
      moreover obtain r where "top_fit tab n k r"
        "malloc_loop nmemb tab (cmemb + 1) k = Inr (map_option (\<lambda>a. (a, mark a n nmemb tab)) r)"
        using Suc.IH[of "cmemb + 1"] Suc.prems neq zeros c1 by auto
      ultimately show ?thesis using Suc.prems(2) True top_fit_Suc by (intro exI[of _ r]) (auto simp: Let_def)
    qed
  qed
qed

section \<open>The pools\<close>

definition heap_wf :: "heap_st \<Rightarrow> bool" where
  "heap_wf h \<longleftrightarrow> length (memmap h) = 3 \<and> length (memrdy h) = 3 \<and>
     (\<forall>m < 3. length (memmap h ! m) = unat (memtblsize ! m) \<and> (memrdy h ! m \<noteq> 0 \<longrightarrow> runs_ok (memmap h ! m)))"

definition regions :: "u8 \<Rightarrow> heap_st \<Rightarrow> (nat \<times> nat) set" where
  "regions memx h = (if memrdy h ! unat memx = 0 then {} else allocs 0 (memmap h ! unat memx))"

text \<open>The number of blocks of a request.\<close>

definition blocks :: "u32 \<Rightarrow> nat" where
  "blocks sz = (unat sz + 63) div 64"

text \<open>The tables have this many entries: the size of a pool over the block size.\<close>

lemma bank_consts:
  assumes "m < 3"
  shows "arr_get memtblsize m = Inr (memtblsize ! m)" "arr_get memblksize m = Inr 64" "arr_get memsize m = Inr (memsize ! m)"
    "arr_get (membase b) m = Inr (membase b ! m)" "memsize ! m = 64 * memtblsize ! m" "unat (memsize ! m) = 64 * unat (memtblsize ! m)"
    "0 < unat (memtblsize ! m)" "unat (memtblsize ! m) \<le> 462592"
proof -
  from assms have "m = 0 \<or> m = 1 \<or> m = 2" by auto
  then show "arr_get memtblsize m = Inr (memtblsize ! m)" "arr_get memblksize m = Inr 64" "arr_get memsize m = Inr (memsize ! m)"
    "arr_get (membase b) m = Inr (membase b ! m)" "memsize ! m = 64 * memtblsize ! m" "unat (memsize ! m) = 64 * unat (memtblsize ! m)"
    "0 < unat (memtblsize ! m)" "unat (memtblsize ! m) \<le> 462592"
    by (auto simp: memtblsize_def memblksize_def memsize_def membase_def)
qed

lemma my_mem_init_spec:
  assumes "heap_wf h" "memx < 3"
  defines "m \<equiv> unat memx"
  defines "h' \<equiv> h\<lparr>memmap := (memmap h)[m := replicate (unat (memtblsize ! m)) 0], memrdy := (memrdy h)[m := 1]\<rparr>"
  shows "my_mem_init memx h = Inr h'" "heap_wf h'" "regions memx h' = {}"
proof -
  have m: "m < 3" using assms(2) by (simp add: m_def word_less_nat_alt)
  then have len: "length (memmap h ! m) = unat (memtblsize ! m)" "m < length (memmap h)" using assms(1) by (auto simp: heap_wf_def)
  show "my_mem_init memx h = Inr h'"
    using len m for_each_fill[of 0 "unat (memtblsize ! m)" "memmap h ! m" 0]
    by (simp add: my_mem_init_def m_def[symmetric] bank_consts h'_def)
  show "heap_wf h'" "regions memx h' = {}"
    using assms(1) m by (auto simp: heap_wf_def h'_def nth_list_update regions_def m_def[symmetric])
qed

lemma unat_blocks: "unat (if sz mod 64 \<noteq> 0 then sz div 64 + 1 else sz div 64 :: u32) = blocks sz"
proof -
  have d: "unat (sz div 64) = unat sz div 64" "unat (sz mod 64) = unat sz mod 64" by (simp_all add: unat_div unat_mod)
  then have s: "unat (sz div 64 + 1) = unat sz div 64 + 1"
    using unsigned_less[of sz, where ?'a = nat] by (simp add: unat_word_ariths)
  have z: "sz mod 64 = 0 \<longleftrightarrow> unat sz mod 64 = 0" by (simp only: d(2)[symmetric] unat_eq_zero)
  have "(x + 63) div 64 = (if x mod 64 \<noteq> 0 then x div 64 + 1 else x div 64)" for x :: nat
  proof -
    have "(64 * (x div 64) + (x mod 64 + 63)) div 64 = x div 64 + (x mod 64 + 63) div 64" by (rule div_mult_self4) simp
    then have "(x + 63) div 64 = x div 64 + (x mod 64 + 63) div 64" by simp
    moreover have "(r + 63) div 64 = (if r \<noteq> 0 then 1 else 0)" if "r < 64" for r :: nat
      using that by (auto simp: div_nat_eqI)
    ultimately show ?thesis by simp
  qed
  then show ?thesis unfolding blocks_def by (simp only: if_distrib[of unat] s d z)
qed

lemma blocks_pos: "sz \<noteq> 0 \<Longrightarrow> 0 < blocks sz"
  by (simp add: blocks_def unat_gt_0 div_greater_zero_iff) (metis One_nat_def Suc_leI unat_gt_0)

lemma heap_wf_set:
  assumes "heap_wf h" "m < 3" "runs_ok tab" "length tab = length (memmap h ! m)"
  shows "heap_wf (h\<lparr>memmap := (memmap h)[m := tab]\<rparr>)"
  using assms by (auto simp: heap_wf_def nth_list_update)

text \<open>Making a pool ready does not change its regions.\<close>

lemma heap_ready:
  assumes "heap_wf h" "memx < 3"
  obtains h0 where "(if memrdy h ! unat memx = 0 then my_mem_init memx h else Inr h) = Inr h0" "heap_wf h0"
    "memrdy h0 ! unat memx \<noteq> 0" "regions memx h0 = regions memx h" "mem h0 = mem h"
    "\<forall>m. m \<noteq> unat memx \<longrightarrow> memmap h0 ! m = memmap h ! m \<and> memrdy h0 ! m = memrdy h ! m"
proof (cases "memrdy h ! unat memx = 0")
  case True
  have "unat memx < length (memrdy h)" using assms by (simp add: heap_wf_def word_less_nat_alt)
  with True my_mem_init_spec[OF assms] show ?thesis
    by (intro that[OF trans[OF if_P[OF True] my_mem_init_spec(1)[OF assms]]]) (auto simp: regions_def)
qed (use assms(1) in \<open>auto intro: that\<close>)

lemma my_mem_malloc_spec:
  assumes "heap_wf h" "memx < 3" "sz \<noteq> 0"
  defines "m \<equiv> unat memx"
  obtains r tab h' where "my_mem_malloc memx sz h = Inr (case r of None \<Rightarrow> 0xFFFFFFFF | Some a \<Rightarrow> of_nat (64 * a), h')"
    "top_fit tab (blocks sz) (length tab) r" "runs_ok tab" "length tab = unat (memtblsize ! m)" "allocs 0 tab = regions memx h"
    "heap_wf h'" "regions memx h' = (case r of None \<Rightarrow> regions memx h | Some a \<Rightarrow> insert (a, blocks sz) (regions memx h))"
    "mem h' = mem h"
proof -
  have m: "m < 3" using assms(2) by (simp add: m_def word_less_nat_alt)
  from heap_ready[OF assms(1,2)] obtain h0 where
    h0: "(if memrdy h ! m = 0 then my_mem_init memx h else Inr h) = Inr h0" "heap_wf h0" "memrdy h0 ! m \<noteq> 0"
    "regions memx h0 = regions memx h" "mem h0 = mem h" unfolding m_def by metis
  define nmemb :: u32 where "nmemb = (if sz mod 64 \<noteq> 0 then sz div 64 + 1 else sz div 64)"
  have n: "unat nmemb = blocks sz" using unat_blocks[of sz] by (simp only: nmemb_def)
  let ?tab = "memmap h0 ! m"
  have tab: "length ?tab = unat (memtblsize ! m)" "runs_ok ?tab" "m < length (memmap h0)" "allocs 0 ?tab = regions memx h"
    using h0(2,3,4) m by (auto simp: heap_wf_def regions_def m_def[symmetric])
  from malloc_loop_spec[OF n, of 0 "length ?tab" ?tab] blocks_pos[OF assms(3)] obtain r where
    r: "top_fit ?tab (blocks sz) (length ?tab) r"
    "malloc_loop nmemb ?tab 0 (unat (memtblsize ! m)) = Inr (map_option (\<lambda>a. (a, mark a (blocks sz) nmemb ?tab)) r)"
    using tab(1) by auto
  let ?h' = "case r of None \<Rightarrow> h0 | Some a \<Rightarrow> h0\<lparr>memmap := (memmap h0)[m := mark a (blocks sz) nmemb ?tab]\<rparr>"
  have "my_mem_malloc memx sz h = Inr (case r of None \<Rightarrow> 0xFFFFFFFF | Some a \<Rightarrow> of_nat (64 * a), ?h')"
    using h0(1) assms(1,3) m r(2) tab(3)
    by (simp add: my_mem_malloc_def m_def[symmetric] bank_consts heap_wf_def nmemb_def[symmetric] Let_def mult.commute
        split: option.splits)
  moreover have "heap_wf ?h' \<and> regions memx ?h' = (case r of None \<Rightarrow> regions memx h | Some a \<Rightarrow> insert (a, blocks sz) (regions memx h)) \<and>
      mem ?h' = mem h"
  proof (cases r)
    case (Some a)
    with r(1) have f: "free_run ?tab (blocks sz) a" by (simp add: top_fit_def)
    have nm: "nmemb = of_nat (blocks sz)" by (simp flip: n)
    have bl: "0 < blocks sz" "blocks sz < 2 ^ 32"
      using blocks_pos[OF assms(3)] unsigned_less[of nmemb, where ?'a = nat] by (simp_all add: n)
    from mark_alloc[OF tab(2) f bl] have
      mk: "runs_ok (mark a (blocks sz) nmemb ?tab)" "allocs 0 (mark a (blocks sz) nmemb ?tab) = insert (a, blocks sz) (allocs 0 ?tab)"
      by (simp_all only: nm)
    have "length (mark a (blocks sz) nmemb ?tab) = length ?tab" using f by (simp add: free_run_def)
    from heap_wf_set[OF h0(2) m mk(1) this] mk(2) tab(3,4) h0(3,5) Some show ?thesis
      by (simp add: regions_def m_def[symmetric])
  qed (use h0 in simp)
  ultimately show ?thesis using that r(1) tab by blast
qed

lemma my_mem_free_spec:
  assumes "heap_wf h" "memx < 3" "(a, n) \<in> regions memx h"
  obtains h' where "my_mem_free memx (of_nat (64 * a)) h = Inr (0, h')" "heap_wf h'" "regions memx h' = regions memx h - {(a, n)}"
    "mem h' = mem h" "64 * (a + n) \<le> unat (memsize ! unat memx)" "0 < n"
proof -
  define m where "m = unat memx"
  have m: "m < 3" using assms(2) by (simp add: m_def word_less_nat_alt)
  let ?tab = "memmap h ! m"
  have t: "memrdy h ! m \<noteq> 0" "(a, n) \<in> allocs 0 ?tab" "runs_ok ?tab" "length ?tab = unat (memtblsize ! m)" "m < length (memmap h)"
    using assms(1,3) m by (auto simp: regions_def heap_wf_def m_def[symmetric] split: if_splits)
  note f = mark_free[OF t(3,2)]
  have b: "a + n \<le> 462592" "64 * (a + n) \<le> unat (memsize ! m)" using f(3) t(4) bank_consts(6,8)[OF m] by simp_all
  then have u: "unat (of_nat (64 * a) :: u32) = 64 * a" by (subst unat_of_nat) simp
  have "(of_nat (64 * a) :: u32) < memsize ! m" unfolding word_less_nat_alt u using b(2) f(5) by simp
  moreover have "unat ((of_nat (64 * a) :: u32) div 64) = a" unfolding unat_div u by simp
  moreover have "nat (sint (of_nat n :: u32)) = n"
    using b(1) by (simp add: sint_uint uint_nat unat_of_nat signed_take_bit_eq_if_positive bit_take_bit_iff) (simp add: signed_take_bit_int_eq_self)
  moreover have "for_each [0..<n] (\<lambda>i tab. arr_set tab (a + i) 0) ?tab = Inr (mark a n 0 ?tab)"
    unfolding mark_def using f(3) by (rule for_each_fill)
  ultimately have "my_mem_free memx (of_nat (64 * a)) h = Inr (0, h\<lparr>memmap := (memmap h)[m := mark a n 0 ?tab]\<rparr>)"
    using t f(3,4,5) assms(1) m by (simp add: my_mem_free_def m_def[symmetric] bank_consts heap_wf_def Let_def)
  moreover have "heap_wf (h\<lparr>memmap := (memmap h)[m := mark a n 0 ?tab]\<rparr>)"
    by (rule heap_wf_set[OF assms(1) m f(1)]) (use f(3) in simp)
  moreover have "regions memx (h\<lparr>memmap := (memmap h)[m := mark a n 0 ?tab]\<rparr>) = regions memx h - {(a, n)}"
    using t f(2) by (simp add: regions_def m_def[symmetric])
  ultimately show ?thesis using b(2) f(5) that by (simp add: m_def)
qed

section \<open>Clients of a pool\<close>

text \<open>
  What clients rely on: a successful request adds one region, large enough and apart from all
  others; an unsuccessful one returns a null pointer and changes nothing; releasing a pointer removes its region.
\<close>

primrec malloc_all :: "(u32 \<Rightarrow> 's \<Rightarrow> (u32 \<times> 's) res) \<Rightarrow> u32 list \<Rightarrow> 's \<Rightarrow> (u32 list \<times> 's) res" where
  "malloc_all malloc [] s = Inr ([], s)"
| "malloc_all malloc (sz # szs) s =
     bind_res (malloc sz s) (\<lambda>(p, s). bind_res (malloc_all malloc szs s) (\<lambda>(ps, s). Inr (p # ps, s)))"

definition apart :: "nat \<times> nat \<Rightarrow> nat \<times> nat \<Rightarrow> bool" where
  "apart r q \<longleftrightarrow> fst r + snd r \<le> fst q \<or> fst q + snd q \<le> fst r"

definition got :: "(nat \<times> nat) option list \<Rightarrow> (nat \<times> nat) set" where
  "got rs = {r. Some r \<in> set rs}"

lemma got_simps [simp]: "got [] = {}" "got (None # rs) = got rs" "got (Some r # rs) = insert r (got rs)"
  by (auto simp: got_def)

locale region_pool =
  fixes malloc :: "u32 \<Rightarrow> 's \<Rightarrow> (u32 \<times> 's) res"
    and free :: "u32 \<Rightarrow> 's \<Rightarrow> 's res"
    and regs :: "'s \<Rightarrow> (nat \<times> nat) set"
    and ok :: "'s \<Rightarrow> bool"
    and addr :: "nat \<Rightarrow> u32"
  assumes malloc_law: "ok s \<Longrightarrow> \<exists>p s'. malloc sz s = Inr (p, s') \<and> ok s' \<and> (p = 0 \<and> regs s' = regs s \<or>
      (\<exists>a n. p = addr a \<and> p \<noteq> 0 \<and> 0 < n \<and> unat sz \<le> 64 * n \<and> regs s' = insert (a, n) (regs s) \<and> (\<forall>r \<in> regs s. apart r (a, n))))"
    and free_law: "ok s \<Longrightarrow> (a, n) \<in> regs s \<Longrightarrow> \<exists>s'. free (addr a) s = Inr s' \<and> ok s' \<and> regs s' = regs s - {(a, n)}"
    and free_null: "free 0 s = Inr s"
begin

definition ptr :: "(nat \<times> nat) option \<Rightarrow> u32" where
  "ptr r = (case r of None \<Rightarrow> 0 | Some (a, n) \<Rightarrow> addr a)"

lemma malloc_all_law:
  assumes "ok s"
  shows "\<exists>rs s'. malloc_all malloc szs s = Inr (map ptr rs, s') \<and> length rs = length szs \<and> ok s' \<and> regs s' = regs s \<union> got rs \<and>
    got rs \<inter> regs s = {} \<and> distinct (filter (\<lambda>r. r \<noteq> None) rs)"
  using assms
proof (induction szs arbitrary: s)
  case Nil
  then show ?case by simp
next
  case (Cons sz szs)
  from malloc_law[OF Cons.prems] obtain p s1 where
    p: "malloc sz s = Inr (p, s1)" "ok s1" "p = 0 \<and> regs s1 = regs s \<or>
      (\<exists>a n. p = addr a \<and> 0 < n \<and> regs s1 = insert (a, n) (regs s) \<and> (\<forall>r \<in> regs s. apart r (a, n)))" by blast
  from Cons.IH[OF p(2)] obtain rs s' where
    rs: "malloc_all malloc szs s1 = Inr (map ptr rs, s')" "length rs = length szs" "ok s'" "regs s' = regs s1 \<union> got rs"
    "got rs \<inter> regs s1 = {}" "distinct (filter (\<lambda>r. r \<noteq> None) rs)" by blast
  from p(3) obtain r where r: "p = ptr r" "regs s1 = regs s \<union> got [r]" "got [r] \<inter> regs s = {}"
  proof
    assume "\<exists>a n. p = addr a \<and> 0 < n \<and> regs s1 = insert (a, n) (regs s) \<and> (\<forall>r \<in> regs s. apart r (a, n))"
    then obtain a n where a: "p = addr a" "0 < n" "regs s1 = insert (a, n) (regs s)" "\<forall>r \<in> regs s. apart r (a, n)" by blast
    then have "(a, n) \<notin> regs s" by (auto simp: apart_def)
    with a that[of "Some (a, n)"] show thesis by (simp add: ptr_def)
  qed (use that[of None] in \<open>simp add: ptr_def\<close>)
  with p(1) rs show ?case by (intro exI[of _ "r # rs"] exI[of _ s']) (cases r; auto simp: got_def)
qed

lemma free_all_law:
  assumes "ok s" "got rs \<subseteq> regs s" "distinct (filter (\<lambda>r. r \<noteq> None) rs)"
  shows "\<exists>s'. for_each (map ptr rs) free s = Inr s' \<and> ok s' \<and> regs s' = regs s - got rs"
  using assms
proof (induction rs arbitrary: s)
  case (Cons r rs)
  show ?case
  proof (cases r)
    case None
    with Cons show ?thesis by (simp add: ptr_def free_null)
  next
    case (Some q)
    obtain a n where q: "q = (a, n)" by fastforce
    with Some Cons.prems have "(a, n) \<in> regs s" "(a, n) \<notin> got rs" by (auto simp: got_def)
    with free_law[OF Cons.prems(1)] obtain s1 where
      s1: "free (addr a) s = Inr s1" "ok s1" "regs s1 = regs s - {(a, n)}" by blast
    have "got rs \<subseteq> regs s1" using Cons.prems(2) Some q s1(3) \<open>(a, n) \<notin> got rs\<close> by auto
    with Cons.IH[OF s1(2)] Cons.prems(3) Some q s1 show ?thesis by (auto simp: ptr_def)
  qed
qed simp

text \<open>Releasing all pointers of a series of requests, null or not, undoes them.\<close>

lemma free_all_undoes:
  assumes "ok s" "malloc_all malloc szs s = Inr (ps, s')"
  shows "\<exists>s''. for_each ps free s' = Inr s'' \<and> ok s'' \<and> regs s'' = regs s"
proof -
  from malloc_all_law[OF assms(1), of szs] assms(2) obtain rs where
    "ps = map ptr rs" "ok s'" "regs s' = regs s \<union> got rs" "got rs \<inter> regs s = {}" "distinct (filter (\<lambda>r. r \<noteq> None) rs)" by auto
  with free_all_law[of s' rs] show ?thesis by auto
qed

end

section \<open>The pools as pools\<close>

text \<open>The pool of internal RAM lies in the 192 KB from 0x20000000 on.\<close>

definition pool_ok :: "u32 \<Rightarrow> u8 \<Rightarrow> heap_st \<Rightarrow> bool" where
  "pool_ok base1 memx h \<longleftrightarrow> memx < 3 \<and> heap_wf h \<and> 0x20000000 \<le> base1 \<and> base1 \<le> 0x20017000"

definition block_addr :: "u32 \<Rightarrow> u8 \<Rightarrow> nat \<Rightarrow> u32" where
  "block_addr base1 memx a = membase base1 ! unat memx + of_nat (64 * a)"

lemma block_addr_nonzero:
  assumes "pool_ok base1 memx h" "64 * a < unat (memsize ! unat memx)"
  shows "block_addr base1 memx a \<noteq> 0"
proof -
  have "unat memx < 3" using assms(1) by (simp add: pool_ok_def word_less_nat_alt)
  then consider "unat memx = 0" | "unat memx = 1" | "unat memx = 2" by linarith
  then have b: "unat (membase base1 ! unat memx) + unat (memsize ! unat memx) < 2 ^ 32" "0 < unat (membase base1 ! unat memx)"
    using assms(1) by (cases; simp add: pool_ok_def membase_def memsize_def word_le_nat_alt)+
  have "unat (of_nat (64 * a) :: u32) = 64 * a" using assms(2) b(1) by (subst unat_of_nat) simp
  then have "unat (block_addr base1 memx a) = unat (membase base1 ! unat memx) + 64 * a"
    unfolding block_addr_def unat_word_ariths(1) using assms(2) b(1) by simp
  with b(2) show ?thesis by auto
qed

lemma mymalloc_spec:
  assumes "pool_ok base1 memx h"
  obtains r tab h' where "mymalloc base1 memx sz h = Inr (case r of None \<Rightarrow> 0 | Some a \<Rightarrow> block_addr base1 memx a, h')"
    "my_mem_malloc memx sz h = Inr (case r of None \<Rightarrow> 0xFFFFFFFF | Some a \<Rightarrow> of_nat (64 * a), h')"
    "sz \<noteq> 0 \<Longrightarrow> top_fit tab (blocks sz) (length tab) r" "sz = 0 \<Longrightarrow> r = None"
    "runs_ok tab" "length tab = unat (memtblsize ! unat memx)" "allocs 0 tab = regions memx h" "pool_ok base1 memx h'"
    "regions memx h' = (case r of None \<Rightarrow> regions memx h | Some a \<Rightarrow> insert (a, blocks sz) (regions memx h))" "mem h' = mem h"
proof -
  have h: "heap_wf h" "memx < 3" and m: "unat memx < 3" using assms by (simp_all add: pool_ok_def word_less_nat_alt)
  show ?thesis
  proof (cases "sz = 0")
    case True
    from heap_ready[OF h] obtain h0 where
      h0: "(if memrdy h ! unat memx = 0 then my_mem_init memx h else Inr h) = Inr h0" "heap_wf h0" "memrdy h0 ! unat memx \<noteq> 0"
      "regions memx h0 = regions memx h" "mem h0 = mem h" by metis
    then have "mymalloc base1 memx sz h = Inr (0, h0)" "my_mem_malloc memx sz h = Inr (0xFFFFFFFF, h0)"
      using True h m by (simp_all add: mymalloc_def my_mem_malloc_def heap_wf_def)
    with h0 True assms m show ?thesis
      by (intro that[of None h0 "memmap h0 ! unat memx"]) (auto simp: pool_ok_def heap_wf_def regions_def)
  next
    case False
    from my_mem_malloc_spec[OF h False] obtain r tab h' where
      r: "my_mem_malloc memx sz h = Inr (case r of None \<Rightarrow> 0xFFFFFFFF | Some a \<Rightarrow> of_nat (64 * a), h')"
      "top_fit tab (blocks sz) (length tab) r" "runs_ok tab" "length tab = unat (memtblsize ! unat memx)" "allocs 0 tab = regions memx h"
      "heap_wf h'" "regions memx h' = (case r of None \<Rightarrow> regions memx h | Some a \<Rightarrow> insert (a, blocks sz) (regions memx h))"
      "mem h' = mem h" by metis
    have "(of_nat (64 * a) :: u32) \<noteq> 0xFFFFFFFF" if "r = Some a" for a
    proof -
      have "a \<le> 462592" using r(2,4) bank_consts(8)[OF m] that by (simp add: top_fit_def free_run_def)
      then have "unat (of_nat (64 * a) :: u32) = 64 * a" by (subst unat_of_nat) simp
      moreover have "64 * a < unat (0xFFFFFFFF :: u32)" using \<open>a \<le> 462592\<close> by simp
      ultimately show ?thesis by (metis less_irrefl)
    qed
    with r False assms m show ?thesis
      by (intro that[of r h' tab])
        (auto simp: pool_ok_def mymalloc_def bank_consts block_addr_def split: option.splits simp del: of_nat_mult)
  qed
qed

text \<open>Room for \<open>n\<close> blocks at block \<open>a\<close> of a pool of \<open>lim\<close> blocks.\<close>

definition room :: "(nat \<times> nat) set \<Rightarrow> nat \<Rightarrow> nat \<Rightarrow> nat \<Rightarrow> bool" where
  "room R lim n a \<longleftrightarrow> a + n \<le> lim \<and> (\<forall>r \<in> R. apart r (a, n))"

lemma free_run_room:
  assumes "runs_ok tab" "0 < n"
  shows "free_run tab n a \<longleftrightarrow> room (allocs 0 tab) (length tab) n a"
proof -
  have pos: "0 < k" if "(b, k) \<in> allocs 0 tab" for b k using mark_free(5)[OF assms(1) that] .
  have used: "(\<exists>(b, k) \<in> allocs 0 tab. b \<le> i \<and> i < b + k) \<longleftrightarrow> i < length tab \<and> tab ! i \<noteq> 0" for i
    using allocs_used[OF assms(1), of 0 i] by simp
  have "(\<forall>i < n. tab ! (a + i) = 0) \<longleftrightarrow> (\<forall>(b, k) \<in> allocs 0 tab. apart (b, k) (a, n))" if "a + n \<le> length tab"
  proof (intro iffI ballI, clarify)
    fix b k assume z: "\<forall>i < n. tab ! (a + i) = 0" and b: "(b, k) \<in> allocs 0 tab"
    show "apart (b, k) (a, n)"
    proof (rule ccontr)
      assume "\<not> apart (b, k) (a, n)"
      then have o: "a \<le> max a b" "max a b < a + n" "b \<le> max a b" "max a b < b + k"
        using pos[OF b] assms(2) by (auto simp: apart_def)
      with b used[of "max a b"] have "tab ! max a b \<noteq> 0" by blast
      moreover have "max a b - a < n" using o(1,2) by arith
      then have "tab ! max a b = 0" using z o(1) by (metis le_add_diff_inverse)
      ultimately show False by simp
    qed
  next
    assume d: "\<forall>(b, k) \<in> allocs 0 tab. apart (b, k) (a, n)"
    show "\<forall>i < n. tab ! (a + i) = 0"
    proof (intro allI impI, rule ccontr)
      fix i assume i: "i < n" "tab ! (a + i) \<noteq> 0"
      with that used[of "a + i"] obtain b k where "(b, k) \<in> allocs 0 tab" "b \<le> a + i" "a + i < b + k" by auto
      with d i(1) show False by (fastforce simp: apart_def)
    qed
  qed
  then show ?thesis unfolding free_run_nth room_def by auto
qed

lemma myfree_spec:
  assumes "pool_ok base1 memx h" "(a, n) \<in> regions memx h"
  obtains h' where "myfree base1 memx (block_addr base1 memx a) h = Inr h'" "pool_ok base1 memx h'"
    "regions memx h' = regions memx h - {(a, n)}" "mem h' = mem h"
proof -
  have h: "heap_wf h" "memx < 3" and m: "unat memx < 3" using assms by (simp_all add: pool_ok_def word_less_nat_alt)
  from my_mem_free_spec[OF h assms(2)] obtain h' where
    h': "my_mem_free memx (of_nat (64 * a)) h = Inr (0, h')" "heap_wf h'" "regions memx h' = regions memx h - {(a, n)}"
    "mem h' = mem h" "64 * (a + n) \<le> unat (memsize ! unat memx)" "0 < n" by blast
  have nz: "block_addr base1 memx a \<noteq> 0" by (rule block_addr_nonzero[OF assms(1)]) (use h'(5,6) in simp)
  have "block_addr base1 memx a - membase base1 ! unat memx = of_nat (64 * a)" by (simp add: block_addr_def)
  then have "myfree base1 memx (block_addr base1 memx a) h = Inr h'"
    unfolding myfree_def using nz h'(1) by (simp only: bank_consts(4)[OF m] bind_res_simps if_False case_prod_conv)
  then show ?thesis using that h' assms(1) by (simp add: pool_ok_def)
qed

text \<open>Allocation against the abstract pool: the highest place with room, or none.\<close>

lemma mymalloc_room:
  assumes "pool_ok base1 memx h" "sz \<noteq> 0"
  defines "fits \<equiv> room (regions memx h) (unat (memtblsize ! unat memx)) (blocks sz)"
  obtains (null) h' where "mymalloc base1 memx sz h = Inr (0, h')" "my_mem_malloc memx sz h = Inr (0xFFFFFFFF, h')"
      "\<forall>a. \<not> fits a" "pool_ok base1 memx h'"
      "regions memx h' = regions memx h" "mem h' = mem h"
  | (place) a h' where "mymalloc base1 memx sz h = Inr (block_addr base1 memx a, h')" "block_addr base1 memx a \<noteq> 0" "fits a"
      "\<forall>b. fits b \<longrightarrow> b \<le> a" "pool_ok base1 memx h'" "regions memx h' = insert (a, blocks sz) (regions memx h)" "mem h' = mem h"
proof -
  from mymalloc_spec[OF assms(1), of sz] obtain r tab h' where
    r: "mymalloc base1 memx sz h = Inr (case r of None \<Rightarrow> 0 | Some a \<Rightarrow> block_addr base1 memx a, h')"
    "my_mem_malloc memx sz h = Inr (case r of None \<Rightarrow> 0xFFFFFFFF | Some a \<Rightarrow> of_nat (64 * a), h')"
    "top_fit tab (blocks sz) (length tab) r" "runs_ok tab" "length tab = unat (memtblsize ! unat memx)"
    "allocs 0 tab = regions memx h" "pool_ok base1 memx h'"
    "regions memx h' = (case r of None \<Rightarrow> regions memx h | Some a \<Rightarrow> insert (a, blocks sz) (regions memx h))" "mem h' = mem h"
    using assms(2) by metis
  note pos = blocks_pos[OF assms(2)]
  have f: "free_run tab (blocks sz) a \<longleftrightarrow> fits a" for a
    unfolding fits_def using free_run_room[OF r(4) pos] r(5,6) by simp
  have lt: "a < length tab" if "fits a" for a using that pos r(5) by (simp add: fits_def room_def)
  have m: "unat memx < 3" using assms(1) by (simp add: pool_ok_def word_less_nat_alt)
  have nz: "block_addr base1 memx a \<noteq> 0" if "fits a" for a
    using that pos bank_consts(6)[OF m] by (intro block_addr_nonzero[OF assms(1)]) (simp add: fits_def room_def)
  show ?thesis
  proof (cases r)
    case None
    with r(3) lt have "\<forall>a. \<not> fits a" by (auto simp: top_fit_def f)
    with None r null show ?thesis by simp
  next
    case (Some a)
    with r(3) have a: "fits a" "\<And>b. a < b \<Longrightarrow> b < length tab \<Longrightarrow> \<not> fits b" by (auto simp: top_fit_def f)
    with lt have "\<forall>b. fits b \<longrightarrow> b \<le> a" by (metis not_le_imp_less)
    with Some r a(1) nz[OF a(1)] place show ?thesis by simp
  qed
qed

interpretation pool: region_pool "mymalloc base1 memx" "myfree base1 memx" "regions memx" "pool_ok base1 memx" "block_addr base1 memx"
  for base1 memx
proof unfold_locales
  fix sz h assume ok: "pool_ok base1 memx h"
  show "\<exists>p h'. mymalloc base1 memx sz h = Inr (p, h') \<and> pool_ok base1 memx h' \<and> (p = 0 \<and> regions memx h' = regions memx h \<or>
    (\<exists>a n. p = block_addr base1 memx a \<and> p \<noteq> 0 \<and> 0 < n \<and> unat sz \<le> 64 * n \<and> regions memx h' = insert (a, n) (regions memx h) \<and>
      (\<forall>r \<in> regions memx h. apart r (a, n))))"
  proof (cases "sz = 0")
    case True
    from mymalloc_spec[OF ok, of sz] True show ?thesis by (metis option.case(1))
  next
    case False
    have sz: "unat sz \<le> 64 * blocks sz" unfolding blocks_def by presburger
    show ?thesis
    proof (cases rule: mymalloc_room[OF ok False, case_names null place])
      case (place a h')
      with sz blocks_pos[OF False] show ?thesis by (auto simp: room_def)
    qed auto
  qed
next
  fix h a n assume "pool_ok base1 memx h" "(a, n) \<in> regions memx h"
  then show "\<exists>h'. myfree base1 memx (block_addr base1 memx a) h = Inr h' \<and> pool_ok base1 memx h' \<and> regions memx h' = regions memx h - {(a, n)}"
    by (metis myfree_spec)
qed (simp add: myfree_def)

text \<open>A copy that stays inside the memory, and when it does.\<close>

primrec copied :: "u32 \<Rightarrow> u32 \<Rightarrow> nat \<Rightarrow> (u32 \<rightharpoonup> u8) \<Rightarrow> (u32 \<rightharpoonup> u8)" where
  "copied d s 0 m = m"
| "copied d s (Suc n) m = copied (d + 1) (s + 1) n (m(d := m s))"

lemma mymemcpy_eq:
  "mymemcpy d s n m =
     (if \<forall>j < n. s + of_nat j \<in> dom m \<and> d + of_nat j \<in> dom m then Inr (copied d s n m) else Inl OutOfBounds)"
proof (induction n arbitrary: d s m)
  case (Suc n)
  have all: "(\<forall>j < Suc n. s + of_nat j \<in> dom m \<and> d + of_nat j \<in> dom m) \<longleftrightarrow>
      s \<in> dom m \<and> d \<in> dom m \<and> (\<forall>j < n. s + 1 + of_nat j \<in> dom m \<and> d + 1 + of_nat j \<in> dom m)"
    by (simp only: All_less_Suc2) (simp add: add.assoc)
  show ?case
  proof (cases "s \<in> dom m \<and> d \<in> dom m")
    case True
    then obtain v where v: "m s = Some v" "m d \<noteq> None" by auto
    have dm: "dom (m(d \<mapsto> v)) = dom m" using v(2) by auto
    have "mymemcpy d s (Suc n) m = mymemcpy (d + 1) (s + 1) n (m(d \<mapsto> v))" "copied d s (Suc n) m = copied (d + 1) (s + 1) n (m(d \<mapsto> v))"
      using v by auto
    then show ?thesis unfolding all Suc.IH[of "d + 1" "s + 1" "m(d \<mapsto> v)"] dm using True by simp
  next
    case False
    then show ?thesis unfolding all by (auto split: option.splits)
  qed
qed simp

lemma copied_other:
  "\<forall>j < n. x \<noteq> d + of_nat j \<Longrightarrow> copied d s n m x = m x"
proof (induction n arbitrary: d s m)
  case (Suc n)
  have "x \<noteq> d" using Suc.prems[rule_format, of 0] by simp
  moreover have "\<forall>j < n. x \<noteq> d + 1 + of_nat j"
    using Suc.prems by (metis Suc_less_eq add.assoc of_nat_Suc)
  ultimately show ?case using Suc.IH[of "d + 1"] by simp
qed simp

text \<open>A copy delivers every source byte that the copy has not overwritten before.\<close>

lemma copied_copies:
  assumes "i < n" "n \<le> 2 ^ 32" "\<forall>j < i. s + of_nat i \<noteq> d + of_nat j"
  shows "copied d s n m (d + of_nat i) = m (s + of_nat i)"
  using assms
proof (induction n arbitrary: d s m i)
  case (Suc n)
  show ?case
  proof (cases i)
    case 0
    have "\<forall>j < n. d \<noteq> d + 1 + of_nat j"
    proof (intro allI impI notI)
      fix j assume j: "j < n" "d = d + 1 + of_nat j"
      then have "(of_nat (Suc j) :: u32) = 0" by (simp add: add.assoc)
      then have "unat (of_nat (Suc j) :: u32) = 0" by (simp only: unat_0)
      then have "Suc j mod 2 ^ 32 = 0" unfolding unat_of_nat by simp
      moreover have "Suc j < 2 ^ 32" using j(1) Suc.prems(2) by simp
      ultimately show False by simp
    qed
    then show ?thesis using 0 by (simp add: copied_other)
  next
    case (Suc i')
    have neq: "s + 1 + of_nat i' \<noteq> d" using Suc.prems(3)[rule_format, of 0] Suc by (simp add: add.assoc)
    have ahead: "\<forall>j < i'. s + 1 + of_nat i' \<noteq> d + 1 + of_nat j"
    proof (intro allI impI)
      fix j assume "j < i'"
      then have "s + of_nat (Suc i') \<noteq> d + of_nat (Suc j)" using Suc.prems(3) Suc by blast
      then show "s + 1 + of_nat i' \<noteq> d + 1 + of_nat j" by (simp add: add.assoc)
    qed
    have "copied d s (Suc n) m (d + of_nat i) = copied (d + 1) (s + 1) n (m(d := m s)) (d + 1 + of_nat i')"
      by (simp add: Suc add.assoc)
    also have "\<dots> = (m(d := m s)) (s + 1 + of_nat i')"
      by (rule Suc.IH) (use Suc.prems(1,2) Suc ahead in simp_all)
    also have "\<dots> = m (s + of_nat i)" using neq by (simp add: Suc add.assoc)
    finally show ?thesis .
  qed
qed simp

text \<open>\<open>myrealloc\<close> in terms of \<open>mymalloc\<close>.\<close>

lemma pool_mem [simp]:
  "regions memx (h\<lparr>mem := m\<rparr>) = regions memx h" "pool_ok base1 memx (h\<lparr>mem := m\<rparr>) \<longleftrightarrow> pool_ok base1 memx h"
  by (simp_all add: regions_def pool_ok_def heap_wf_def)

lemma myrealloc_eq:
  assumes "unat memx < 3" "mymalloc base1 memx sz h = Inr (q, h1)" "q \<noteq> 0"
  shows "myrealloc base1 memx p sz h =
    bind_res (mymemcpy q p (unat sz) (mem h1)) (\<lambda>m. bind_res (myfree base1 memx p (h1\<lparr>mem := m\<rparr>)) (\<lambda>h. Inr (q, h)))"
  using assms(2,3) by (auto simp: mymalloc_def myrealloc_def bank_consts(4)[OF assms(1)] split: if_splits)

text \<open>The memory holds the bytes of the pool, and its array ends with the last of them.\<close>

definition pool_bytes :: "u32 \<Rightarrow> u8 \<Rightarrow> heap_st \<Rightarrow> bool" where
  "pool_bytes base1 memx h \<longleftrightarrow>
     (\<forall>i < unat (memsize ! unat memx). membase base1 ! unat memx + of_nat i \<in> dom (mem h)) \<and>
     membase base1 ! unat memx + memsize ! unat memx \<notin> dom (mem h)"

text \<open>Bytes of two different blocks of a pool have different addresses.\<close>

lemma block_bytes_neq:
  assumes "pool_ok base1 memx h" "x \<noteq> y" "x < unat (memsize ! unat memx)" "y < unat (memsize ! unat memx)"
  shows "membase base1 ! unat memx + of_nat x \<noteq> membase base1 ! unat memx + of_nat y"
proof -
  have "unat memx < 3" using assms(1) by (simp add: pool_ok_def word_less_nat_alt)
  from bank_consts(6,8)[OF this] have "x < 2 ^ 32" "y < 2 ^ 32" using assms(3,4) by simp_all
  then have "unat (of_nat x :: u32) = x" "unat (of_nat y :: u32) = y" by (simp_all add: unat_of_nat)
  with assms(2) show ?thesis by (metis add_left_cancel)
qed

section \<open>Properties\<close>

text \<open>The memory as it is at power-up.\<close>

definition heap0 :: heap_st where
  "heap0 = \<lparr>memmap = map (\<lambda>n. replicate (unat n) 0) memtblsize, memrdy = [0, 0, 0],
     mem = (\<lambda>x. if x - 0x20000000 < 102400 \<or> x - 0xC01F4000 < 29605888 \<or> x - 0x10000000 < 61440 then Some 0 else None)\<rparr>"

lemma heap0_ok: "pool_ok 0x20000000 0 heap0" "regions 0 heap0 = {}"
proof -
  have "memrdy heap0 ! m = 0" if "m < 3" for m using that by (auto simp: heap0_def less_Suc_eq numeral_eq_Suc)
  moreover have "length memtblsize = 3" by (simp add: memtblsize_def)
  ultimately show "pool_ok 0x20000000 0 heap0" by (simp add: pool_ok_def heap_wf_def) (simp add: heap0_def)
  show "regions 0 heap0 = {}" by (simp add: regions_def heap0_def)
qed

lemma heap0_bytes: "pool_bytes 0x20000000 0 heap0"
proof -
  have "unat (of_nat i :: u32) = i" if "i < 102400" for i using that by (simp add: unat_of_nat)
  then have "(of_nat i :: u32) < 102400" if "i < 102400" for i using that by (simp add: word_less_nat_alt)
  then show ?thesis by (auto simp: pool_bytes_def membase_def memsize_def heap0_def)
qed

text \<open>
  C30. Allocation refines the abstract pool: a request gets the highest place of the pool where its
  blocks are apart from all regions in use, and a null pointer exactly when there is no such place; one
  region is added and the others stay.
\<close>

theorem mymalloc_refines:
  assumes "pool_ok base1 memx h" "sz \<noteq> 0" "fits = room (regions memx h) (unat (memtblsize ! unat memx)) (blocks sz)"
  shows "\<exists>p h'. mymalloc base1 memx sz h = Inr (p, h') \<and> pool_ok base1 memx h' \<and>
    (if \<forall>a. \<not> fits a then p = 0 \<and> regions memx h' = regions memx h
     else \<exists>a. fits a \<and> (\<forall>b. fits b \<longrightarrow> b \<le> a) \<and> p = block_addr base1 memx a \<and> p \<noteq> 0 \<and>
       regions memx h' = insert (a, blocks sz) (regions memx h))"
proof (cases rule: mymalloc_room[OF assms(1,2), case_names null place])
  case (null h')
  then show ?thesis using assms(3) by (intro exI[of _ 0] exI[of _ h']) simp
next
  case (place a h')
  then show ?thesis using assms(3) by (intro exI[of _ "block_addr base1 memx a"] exI[of _ h']) auto
qed

theorem mymalloc_refines_witness:
  "\<exists>h'. mymalloc 0x20000000 0 100 heap0 = Inr (0x20018F80, h') \<and> regions 0 h' = {(1598, 2)}"
proof -
  let ?fits = "room {} 1600 2"
  have f: "?fits a \<longleftrightarrow> a \<le> 1598" for a by (auto simp: room_def)
  have c: "room (regions 0 heap0) (unat (memtblsize ! unat (0 :: u8))) (blocks 100) = ?fits"
    by (simp add: heap0_ok(2) memtblsize_def blocks_def)
  from mymalloc_refines[OF heap0_ok(1) _ c[symmetric]] obtain p h' where
    p: "mymalloc 0x20000000 0 100 heap0 = Inr (p, h')"
    "if \<forall>a. \<not> ?fits a then p = 0 \<and> regions 0 h' = regions 0 heap0
     else \<exists>a. ?fits a \<and> (\<forall>b. ?fits b \<longrightarrow> b \<le> a) \<and> p = block_addr 0x20000000 0 a \<and> p \<noteq> 0 \<and>
       regions 0 h' = insert (a, blocks 100) (regions 0 heap0)" by auto
  from f have "\<not> (\<forall>a. \<not> ?fits a)" by blast
  with p(2) obtain a where "a \<le> 1598" "1598 \<le> a" "p = block_addr 0x20000000 0 a" "regions 0 h' = insert (a, blocks 100) (regions 0 heap0)"
    unfolding f by auto
  with p(1) show ?thesis by (simp add: block_addr_def membase_def blocks_def heap0_ok(2))
qed

text \<open>
  C31. Releasing undoes allocation: after any series of requests, releasing the pointers returned,
  null or not, in the same order gives back exactly the regions before.
\<close>

theorem myfree_undoes_mymalloc:
  assumes "pool_ok base1 memx h" "malloc_all (mymalloc base1 memx) szs h = Inr (ps, h')"
  shows "\<exists>h''. for_each ps (myfree base1 memx) h' = Inr h'' \<and> pool_ok base1 memx h'' \<and> regions memx h'' = regions memx h"
  using assms by (rule pool.free_all_undoes)

theorem myfree_undoes_mymalloc_witness:
  "\<exists>ps h' h''. malloc_all (mymalloc 0x20000000 0) [100, 200000, 64] heap0 = Inr (ps, h') \<and>
     for_each ps (myfree 0x20000000 0) h' = Inr h'' \<and> regions 0 h'' = {}"
proof -
  from pool.malloc_all_law[OF heap0_ok(1), of "[100, 200000, 64]"] obtain ps h' where
    "malloc_all (mymalloc 0x20000000 0) [100, 200000, 64] heap0 = Inr (ps, h')" by blast
  with myfree_undoes_mymalloc[OF heap0_ok(1) this] heap0_ok(2) show ?thesis by auto
qed

text \<open>
  C32. Reallocation, exactly. Without room for the new region nothing changes and the result is null.
  Otherwise the copy reads as many bytes as the new size from the old block on: if these lie in the
  pool, the new region, at the highest fit, replaces the old one and its bytes are the old
  ones as far as both regions go; if they do not, the copy runs past the end of the pool.
\<close>

theorem myrealloc_outcome:
  assumes "pool_ok base1 memx h" "pool_bytes base1 memx h" "(a, n) \<in> regions memx h" "sz \<noteq> 0" "p = block_addr base1 memx a"
    and "fits = room (regions memx h) (unat (memtblsize ! unat memx)) (blocks sz)"
  shows "if \<forall>b. \<not> fits b
    then \<exists>h'. myrealloc base1 memx p sz h = Inr (0, h') \<and> pool_ok base1 memx h' \<and> regions memx h' = regions memx h \<and> mem h' = mem h
    else if 64 * a + unat sz \<le> unat (memsize ! unat memx)
    then \<exists>b q h'. fits b \<and> (\<forall>c. fits c \<longrightarrow> c \<le> b) \<and> q = block_addr base1 memx b \<and> myrealloc base1 memx p sz h = Inr (q, h') \<and>
      pool_ok base1 memx h' \<and> regions memx h' = insert (b, blocks sz) (regions memx h - {(a, n)}) \<and>
      (\<forall>i. i < 64 * n \<longrightarrow> i < unat sz \<longrightarrow> mem h' (q + of_nat i) = mem h (p + of_nat i))
    else myrealloc base1 memx p sz h = Inl OutOfBounds"
proof -
  have m: "unat memx < 3" and h: "heap_wf h" "memx < 3" using assms(1) by (simp_all add: pool_ok_def word_less_nat_alt)
  let ?base = "membase base1 ! unat memx" and ?lim = "unat (memsize ! unat memx)"
  have sz: "unat sz \<le> 64 * blocks sz" unfolding blocks_def by presburger
  have e: "block_addr base1 memx c + of_nat j = ?base + of_nat (64 * c + j)" for c j by (simp add: block_addr_def add.assoc)
  show ?thesis
  proof (cases rule: mymalloc_room[OF assms(1,4), case_names null place])
    case (null h1)
    then have "myrealloc base1 memx p sz h = Inr (0, h1)" by (simp add: myrealloc_def)
    with null assms(6) show ?thesis by auto
  next
    case (place b h1)
    have fit: "fits b" "\<forall>c. fits c \<longrightarrow> c \<le> b" using place(3,4) assms(6) by simp_all
    have ap: "apart (a, n) (b, blocks sz)" and lim: "64 * (b + blocks sz) \<le> ?lim" "64 * (a + n) \<le> ?lim" "0 < n"
      using place(3) assms(3) bank_consts(6)[OF m] my_mem_free_spec[OF h assms(3)] by (auto simp: room_def)
    have in_pool: "block_addr base1 memx c + of_nat j \<in> dom (mem h1)" if "64 * c + j < ?lim" for c j
      unfolding e place(7) using assms(2) that unfolding pool_bytes_def by blast
    note run = myrealloc_eq[OF m place(1,2), of p]
    show ?thesis
    proof (cases "64 * a + unat sz \<le> ?lim")
      case True
      then have "\<forall>j < unat sz. p + of_nat j \<in> dom (mem h1) \<and> block_addr base1 memx b + of_nat j \<in> dom (mem h1)"
        unfolding assms(5) using lim(1) sz by (intro allI impI conjI in_pool) simp_all
      then have cp: "mymemcpy (block_addr base1 memx b) p (unat sz) (mem h1) = Inr (copied (block_addr base1 memx b) p (unat sz) (mem h1))"
        unfolding mymemcpy_eq by simp
      let ?h2 = "h1\<lparr>mem := copied (block_addr base1 memx b) p (unat sz) (mem h1)\<rparr>"
      have h2: "pool_ok base1 memx ?h2" "regions memx ?h2 = insert (b, blocks sz) (regions memx h)"
        using place(5,6) by simp_all
      with assms(3) have "(a, n) \<in> regions memx ?h2" by simp
      from myfree_spec[OF h2(1) this] obtain h3 where
        h3: "myfree base1 memx p ?h2 = Inr h3" "pool_ok base1 memx h3" "regions memx h3 = regions memx ?h2 - {(a, n)}" "mem h3 = mem ?h2"
        using assms(5) by metis
      have copy: "mem h3 (block_addr base1 memx b + of_nat i) = mem h (p + of_nat i)" if i: "i < 64 * n" "i < unat sz" for i
      proof -
        have "p + of_nat i \<noteq> block_addr base1 memx b + of_nat j" if "j < i" for j
          unfolding assms(5) e using that i sz lim ap by (intro block_bytes_neq[OF assms(1)]) (auto simp: apart_def)
        then show ?thesis
          using h3(4) place(7) i(2) unsigned_less[of sz, where ?'a = nat] copied_copies[of i "unat sz" p "block_addr base1 memx b" "mem h1"]
          by simp
      qed
      have "(b, blocks sz) \<noteq> (a, n)" using ap lim(3) by (auto simp: apart_def)
      then have reg: "regions memx h3 = insert (b, blocks sz) (regions memx h - {(a, n)})" using h3(3) h2(2) by auto
      have "myrealloc base1 memx p sz h = Inr (block_addr base1 memx b, h3)" using run cp h3(1) by simp
      with reg fit h3(2) copy True show ?thesis by auto
    next
      case False
      define j where "j = ?lim - 64 * a"
      have j: "j < unat sz" "64 * a + j = ?lim" using False lim(2,3) by (simp_all add: j_def)
      have "p + of_nat j \<notin> dom (mem h1)"
        unfolding assms(5) e j(2) place(7) using assms(2) by (simp add: pool_bytes_def)
      with j(1) have "mymemcpy (block_addr base1 memx b) p (unat sz) (mem h1) = Inl OutOfBounds"
        unfolding mymemcpy_eq by auto
      with run fit False show ?thesis by auto
    qed
  qed
qed

theorem myrealloc_outcome_witness:
  "\<exists>h1. mymalloc 0x20000000 0 100 heap0 = Inr (0x20018F80, h1) \<and> myrealloc 0x20000000 0 0x20018F80 200 h1 = Inl OutOfBounds \<and>
     (\<exists>b q h'. myrealloc 0x20000000 0 0x20018F80 50 h1 = Inr (q, h') \<and> regions 0 h' = {(b, 1)})"
proof -
  have c: "room {} 1600 2 a \<longleftrightarrow> a \<le> 1598" for a by (auto simp: room_def)
  have "\<exists>h1. mymalloc 0x20000000 0 100 heap0 = Inr (block_addr 0x20000000 0 1598, h1) \<and> pool_ok 0x20000000 0 h1 \<and>
      regions 0 h1 = {(1598, 2)} \<and> mem h1 = mem heap0"
  proof (cases rule: mymalloc_room[OF heap0_ok(1), of 100, case_names nz null place])
    case (null h1)
    then show ?thesis using c[of 0] by (simp add: heap0_ok(2) memtblsize_def blocks_def)
  next
    case (place a h1)
    then have "a = 1598" using c by (auto simp: heap0_ok(2) memtblsize_def blocks_def intro: le_antisym)
    with place show ?thesis by (simp add: heap0_ok(2) blocks_def)
  qed simp
  then obtain h1 where h1: "mymalloc 0x20000000 0 100 heap0 = Inr (block_addr 0x20000000 0 1598, h1)" "pool_ok 0x20000000 0 h1"
    "regions 0 h1 = {(1598, 2)}" "mem h1 = mem heap0" by blast
  have p: "block_addr 0x20000000 0 1598 = 0x20018F80" by (simp add: block_addr_def membase_def)
  have bytes: "pool_bytes 0x20000000 0 h1" using heap0_bytes by (simp add: pool_bytes_def h1(4))
  have room: "room {(1598, 2)} 1600 k 0" if "k \<le> 1598" for k using that by (auto simp: room_def apart_def)
  note out = myrealloc_outcome[OF h1(2) bytes, of 1598 2 _ "0x20018F80", OF _ _ p[symmetric] refl]
  have "myrealloc 0x20000000 0 0x20018F80 200 h1 = Inl OutOfBounds"
    using out[of 200] room[of 4] by (auto simp: h1(3) memtblsize_def memsize_def blocks_def split: if_splits)
  moreover have "\<exists>b q h'. myrealloc 0x20000000 0 0x20018F80 50 h1 = Inr (q, h') \<and> regions 0 h' = {(b, 1)}"
    using out[of 50] room[of 1] by (auto simp: h1(3) memtblsize_def memsize_def blocks_def split: if_splits)
  ultimately show ?thesis using h1(1) p by auto
qed

end
