(* ===== verification/NetMem.thy ===== *)
theory NetMem
  imports UdpComm Malloc
begin

text \<open>
  Memory of the network stack: \<open>ETH_Mem_Malloc\<close> and \<open>ETH_Mem_Free\<close> of
  \<^verbatim>\<open>src/HARDWARE/LAN8720/lan8720.c\<close>, \<open>lwip_comm_mem_malloc\<close>, \<open>lwip_comm_mem_free\<close>,
  \<open>lwip_comm_default_ip_set\<close> and \<open>EthMemAlloc\<close> of
  \<^verbatim>\<open>src/LWIP/lwip_app/lwip_comm/lwip_comm.c\<close>. The size of lwIP's pools (\<open>memp_get_memorysize\<close>)
  is an argument.
\<close>

section \<open>State and operations\<close>

record net_mem =
  DMARxDscrTab :: u32
  DMATxDscrTab :: u32
  Rx_Buff :: u32
  Tx_Buff :: u32
  memp_memory :: u32
  ram_heap :: u32
  TCPIP_THREAD_TASK_STK :: u32
  LWIP_DHCP_TASK_STK :: u32

definition SRAMIN :: u8 where "SRAMIN = 0"
definition ETH_RXBUFNB :: u32 where "ETH_RXBUFNB = 10"
definition ETH_TXBUFNB :: u32 where "ETH_TXBUFNB = 5"
definition ETH_MAX_PACKET_SIZE :: u32 where "ETH_MAX_PACKET_SIZE = 1524"
definition sizeof_ETH_DMADescTypeDef :: u32 where "sizeof_ETH_DMADescTypeDef = 32"

definition ETH_Mem_Free :: "u32 \<Rightarrow> net_mem \<Rightarrow> heap_st \<Rightarrow> heap_st res" where
  "ETH_Mem_Free base1 g h =
     bind_res (myfree base1 SRAMIN (DMARxDscrTab g) h) (\<lambda>h.
     bind_res (myfree base1 SRAMIN (DMATxDscrTab g) h) (\<lambda>h.
     bind_res (myfree base1 SRAMIN (Rx_Buff g) h) (\<lambda>h.
     myfree base1 SRAMIN (Tx_Buff g) h)))"

text \<open>The code tests the addresses of the four global variables, \<open>glob\<close>, in place of their values.\<close>

definition ETH_Mem_Malloc :: "u32 \<Rightarrow> u32 list \<Rightarrow> net_mem \<Rightarrow> heap_st \<Rightarrow> (u8 \<times> net_mem \<times> heap_st) res" where
  "ETH_Mem_Malloc base1 glob g h =
     bind_res (mymalloc base1 SRAMIN (ETH_RXBUFNB * sizeof_ETH_DMADescTypeDef) h) (\<lambda>(p, h).
     let g = g\<lparr>DMARxDscrTab := p\<rparr> in
     bind_res (mymalloc base1 SRAMIN (ETH_TXBUFNB * sizeof_ETH_DMADescTypeDef) h) (\<lambda>(p, h).
     let g = g\<lparr>DMATxDscrTab := p\<rparr> in
     bind_res (mymalloc base1 SRAMIN (ETH_MAX_PACKET_SIZE * ETH_RXBUFNB) h) (\<lambda>(p, h).
     let g = g\<lparr>Rx_Buff := p\<rparr> in
     bind_res (mymalloc base1 SRAMIN (ETH_MAX_PACKET_SIZE * ETH_TXBUFNB) h) (\<lambda>(p, h).
     let g = g\<lparr>Tx_Buff := p\<rparr> in
     if 0 \<in> set glob then bind_res (ETH_Mem_Free base1 g h) (\<lambda>h. Inr (1, g, h))
     else Inr (0, g, h)))))"

definition LWIP_MEM_ALIGN_SIZE :: "u32 \<Rightarrow> u32" where
  "LWIP_MEM_ALIGN_SIZE sz = (sz + 4 - 1) AND NOT (4 - 1)"

definition ramheapsize :: u32 where
  "ramheapsize = LWIP_MEM_ALIGN_SIZE 16000 + 2 * LWIP_MEM_ALIGN_SIZE (4 * 3) + 4"

definition lwip_comm_mem_free :: "u32 \<Rightarrow> net_mem \<Rightarrow> heap_st \<Rightarrow> heap_st res" where
  "lwip_comm_mem_free base1 g h =
     bind_res (myfree base1 SRAMIN (memp_memory g) h) (\<lambda>h.
     bind_res (myfree base1 SRAMIN (ram_heap g) h) (\<lambda>h.
     bind_res (myfree base1 SRAMIN (TCPIP_THREAD_TASK_STK g) h) (\<lambda>h.
     myfree base1 SRAMIN (LWIP_DHCP_TASK_STK g) h)))"

definition lwip_comm_mem_malloc :: "u32 \<Rightarrow> u32 \<Rightarrow> net_mem \<Rightarrow> heap_st \<Rightarrow> (u8 \<times> net_mem \<times> heap_st) res" where
  "lwip_comm_mem_malloc base1 mempsize g h =
     bind_res (mymalloc base1 SRAMIN mempsize h) (\<lambda>(p, h).
     let g = g\<lparr>memp_memory := p\<rparr> in
     bind_res (mymalloc base1 SRAMIN ramheapsize h) (\<lambda>(p, h).
     let g = g\<lparr>ram_heap := p\<rparr> in
     bind_res (mymalloc base1 SRAMIN (2048 * 4) h) (\<lambda>(p, h).
     let g = g\<lparr>TCPIP_THREAD_TASK_STK := p\<rparr> in
     bind_res (mymalloc base1 SRAMIN (128 * 4) h) (\<lambda>(p, h).
     let g = g\<lparr>LWIP_DHCP_TASK_STK := p\<rparr> in
     if memp_memory g = 0 \<or> ram_heap g = 0 \<or> TCPIP_THREAD_TASK_STK g = 0 \<or> LWIP_DHCP_TASK_STK g = 0
     then bind_res (lwip_comm_mem_free base1 g h) (\<lambda>h. Inr (1, g, h))
     else Inr (0, g, h)))))"

record lwip_dev =
  mac :: "u8 list"
  ip :: "u8 list"
  netmask :: "u8 list"
  gateway :: "u8 list"
  dhcpstatus :: u8

text \<open>\<open>sn\<close> is the unique identifier of the processor, three words.\<close>

definition lwip_comm_default_ip_set :: "u32 \<times> u32 \<times> u32 \<Rightarrow> net_st \<Rightarrow> lwip_dev \<times> mcuinfo \<Rightarrow> lwip_dev \<times> mcuinfo" where
  "lwip_comm_default_ip_set sn n dm =
     (let (d, m) = dm; (sn0, sn1, sn2) = sn;
          d = d\<lparr>mac := [2, 0, ucast (drop_bit 24 sn0 AND 0xFF), ucast (drop_bit 16 sn0 AND 0xFF), ucast (drop_bit 8 sn0 AND 0xFFF),
                ucast (sn0 AND 0xFF)],
              ip := g_IP_ADDR n, netmask := g_NETMASK_ADDR n, gateway := g_GW_ADDR n, dhcpstatus := 0\<rparr> in
      (d, m\<lparr>mcuUID := [sn0, sn1, sn2], mcuMAC := mac d, mcuIP := ip d, mcuNetMask := netmask d, mcuGW := gateway d\<rparr>))"

definition EthMemAlloc ::
  "u32 \<Rightarrow> u32 list \<Rightarrow> u32 \<Rightarrow> u32 \<times> u32 \<times> u32 \<Rightarrow> net_st \<Rightarrow> net_mem \<Rightarrow> lwip_dev \<times> mcuinfo \<Rightarrow> heap_st \<Rightarrow>
    (u8 \<times> net_mem \<times> (lwip_dev \<times> mcuinfo) \<times> heap_st) res" where
  "EthMemAlloc base1 glob mempsize sn n g dm h =
     bind_res (ETH_Mem_Malloc base1 glob g h) (\<lambda>(rt, g, h).
     if rt \<noteq> 0 then Inr (1, g, dm, h)
     else
       bind_res (lwip_comm_mem_malloc base1 mempsize g h) (\<lambda>(rt, g, h).
       if rt \<noteq> 0 then
         bind_res (if 0 \<in> set glob then ETH_Mem_Free base1 g h else Inr h) (\<lambda>h. Inr (2, g, dm, h))
       else Inr (0, g, lwip_comm_default_ip_set sn n dm, h)))"

section \<open>Allocating from a packed pool\<close>

text \<open>A pool whose blocks from \<open>k\<close> on are in use and all others free.\<close>

definition packed :: "nat \<Rightarrow> (nat \<times> nat) set \<Rightarrow> bool" where
  "packed k R \<longleftrightarrow> (\<forall>n a. 0 < n \<longrightarrow> (room R 1600 n a \<longleftrightarrow> a + n \<le> k))"

lemma packed_empty: "packed 1600 {}"
  by (simp add: packed_def room_def)

lemma packed_insert: "packed k R \<Longrightarrow> 0 < n \<Longrightarrow> n \<le> k \<Longrightarrow> packed (k - n) (insert (k - n, n) R)"
  unfolding packed_def
proof (intro allI impI)
  fix m a :: nat assume p: "\<forall>n a. 0 < n \<longrightarrow> (room R 1600 n a \<longleftrightarrow> a + n \<le> k)" and n: "0 < n" "n \<le> k" "0 < m"
  have "room (insert (k - n, n) R) 1600 m a \<longleftrightarrow> a + m \<le> k \<and> apart (k - n, n) (a, m)"
    using p n(3) by (auto simp: room_def)
  then show "room (insert (k - n, n) R) 1600 m a \<longleftrightarrow> a + m \<le> k - n" using n by (auto simp: apart_def)
qed

lemma malloc_packed:
  assumes "pool_ok base1 SRAMIN h" "packed k (regions SRAMIN h)" "sz \<noteq> 0"
  obtains (null) h' where "k < blocks sz" "mymalloc base1 SRAMIN sz h = Inr (0, h')" "pool_ok base1 SRAMIN h'" "regions SRAMIN h' = regions SRAMIN h"
  | (place) h' where "blocks sz \<le> k" "mymalloc base1 SRAMIN sz h = Inr (block_addr base1 SRAMIN (k - blocks sz), h')"
      "block_addr base1 SRAMIN (k - blocks sz) \<noteq> 0" "pool_ok base1 SRAMIN h'"
      "regions SRAMIN h' = insert (k - blocks sz, blocks sz) (regions SRAMIN h)" "packed (k - blocks sz) (regions SRAMIN h')"
proof -
  have lim: "unat (memtblsize ! unat SRAMIN) = 1600" by (simp add: SRAMIN_def memtblsize_def)
  note pos = blocks_pos[OF assms(3)]
  have fits: "room (regions SRAMIN h) 1600 (blocks sz) a \<longleftrightarrow> a + blocks sz \<le> k" for a using assms(2) pos by (simp add: packed_def)
  show ?thesis
  proof (cases rule: mymalloc_room[OF assms(1,3), unfolded lim, case_names null place])
    case (null h')
    have "k < blocks sz" using null(3)[rule_format, of 0] fits[of 0] by simp
    with null that(1) show ?thesis by blast
  next
    case (place a h')
    from place(3) fits have a: "a + blocks sz \<le> k" by blast
    moreover have "k - blocks sz \<le> a" using place(4)[rule_format, of "k - blocks sz"] fits[of "k - blocks sz"] a by simp
    ultimately have "a = k - blocks sz" "blocks sz \<le> k" by simp_all
    with place that(2) packed_insert[OF assms(2) pos] show ?thesis by simp
  qed
qed

section \<open>Properties\<close>

text \<open>The requests as lists of sizes.\<close>

definition eth_sizes :: "u32 list" where
  "eth_sizes = [320, 160, 15240, 7620]"

definition lwip_sizes :: "u32 \<Rightarrow> u32 list" where
  "lwip_sizes mempsize = [mempsize, 16028, 8192, 512]"

text \<open>From a packed pool with room for all, the requests are placed one below the other.\<close>

primrec stacked :: "nat \<Rightarrow> u32 list \<Rightarrow> (nat \<times> nat) list" where
  "stacked k [] = []"
| "stacked k (sz # szs) = (k - blocks sz, blocks sz) # stacked (k - blocks sz) szs"

lemma malloc_all_packed:
  assumes "pool_ok base1 SRAMIN h" "packed k (regions SRAMIN h)" "0 \<notin> set szs" "sum_list (map blocks szs) \<le> k"
  shows "\<exists>h'. malloc_all (mymalloc base1 SRAMIN) szs h = Inr (map (block_addr base1 SRAMIN \<circ> fst) (stacked k szs), h') \<and>
    pool_ok base1 SRAMIN h' \<and> regions SRAMIN h' = regions SRAMIN h \<union> set (stacked k szs) \<and>
    packed (k - sum_list (map blocks szs)) (regions SRAMIN h') \<and> (\<forall>q \<in> set (stacked k szs). block_addr base1 SRAMIN (fst q) \<noteq> 0)"
  using assms
proof (induction szs arbitrary: h k)
  case Nil
  then show ?case by simp
next
  case (Cons sz szs)
  then have sz: "sz \<noteq> 0" "blocks sz \<le> k" by auto
  from malloc_packed[OF Cons.prems(1,2) sz(1)] sz(2) obtain h1 where
    h1: "mymalloc base1 SRAMIN sz h = Inr (block_addr base1 SRAMIN (k - blocks sz), h1)" "block_addr base1 SRAMIN (k - blocks sz) \<noteq> 0"
    "pool_ok base1 SRAMIN h1" "regions SRAMIN h1 = insert (k - blocks sz, blocks sz) (regions SRAMIN h)"
    "packed (k - blocks sz) (regions SRAMIN h1)" by (metis not_le)
  from Cons.IH[OF h1(3,5)] Cons.prems(3,4) h1 show ?case by (auto simp: o_def)
qed

lemma malloc_all4:
  "malloc_all f [a, b, c, d] s = Inr (ps, s') \<Longrightarrow> \<exists>p0 s0 p1 s1 p2 s2 p3. f a s = Inr (p0, s0) \<and> f b s0 = Inr (p1, s1) \<and>
     f c s1 = Inr (p2, s2) \<and> f d s2 = Inr (p3, s') \<and> ps = [p0, p1, p2, p3]"
  by auto

lemma ETH_Mem_Malloc_run:
  assumes "malloc_all (mymalloc base1 SRAMIN) eth_sizes h = Inr (ps, h')" "0 \<notin> set glob"
  shows "ETH_Mem_Malloc base1 glob g h =
    Inr (0, g\<lparr>DMARxDscrTab := ps ! 0, DMATxDscrTab := ps ! 1, Rx_Buff := ps ! 2, Tx_Buff := ps ! 3\<rparr>, h')"
  using malloc_all4[OF assms(1)[unfolded eth_sizes_def]] assms(2)
  by (auto simp: ETH_Mem_Malloc_def ETH_RXBUFNB_def ETH_TXBUFNB_def ETH_MAX_PACKET_SIZE_def sizeof_ETH_DMADescTypeDef_def)

lemma ramheapsize_eq: "ramheapsize = 16028"
  by (simp add: ramheapsize_def LWIP_MEM_ALIGN_SIZE_def)

lemma lwip_comm_mem_malloc_run:
  assumes "malloc_all (mymalloc base1 SRAMIN) (lwip_sizes mempsize) h = Inr (ps, h')"
    "for_each ps (myfree base1 SRAMIN) h' = Inr h''"
  shows "lwip_comm_mem_malloc base1 mempsize g h =
    Inr (if 0 \<in> set ps then 1 else 0,
      g\<lparr>memp_memory := ps ! 0, ram_heap := ps ! 1, TCPIP_THREAD_TASK_STK := ps ! 2, LWIP_DHCP_TASK_STK := ps ! 3\<rparr>,
      if 0 \<in> set ps then h'' else h')"
  using malloc_all4[OF assms(1)[unfolded lwip_sizes_def]] assms(2)
  by (auto simp: lwip_comm_mem_malloc_def ramheapsize_eq lwip_comm_mem_free_def)

lemma malloc_all_null:
  assumes "pool_ok base1 SRAMIN h" "packed k (regions SRAMIN h)" "0 \<notin> set szs" "k < sum_list (map blocks szs)"
    "malloc_all (mymalloc base1 SRAMIN) szs h = Inr (ps, h')"
  shows "0 \<in> set ps"
  using assms
proof (induction szs arbitrary: h k ps)
  case (Cons sz szs)
  then have sz: "sz \<noteq> 0" by auto
  show ?case
  proof (cases rule: malloc_packed[OF Cons.prems(1,2) sz, case_names null place])
    case (null h1)
    with Cons.prems(5) show ?thesis by auto
  next
    case (place h1)
    with Cons.IH[OF place(4,6)] Cons.prems show ?thesis by auto
  qed
qed simp

text \<open>
  C33. The memory of the network stack: with the internal pool empty, \<open>EthMemAlloc\<close> succeeds exactly if
  lwIP's pools need at most 54144 bytes, and then the eight areas lie one below the other from
  the top of the pool; otherwise it reports 2, lwIP's areas are released and the four areas of
  the Ethernet driver stay allocated, although the code means to release them.
\<close>

theorem EthMemAlloc_outcome:
  assumes "pool_ok base1 SRAMIN h" "regions SRAMIN h = {}" "0 \<notin> set glob" "mempsize \<noteq> 0"
  shows "\<exists>rt g' dm' h'. EthMemAlloc base1 glob mempsize sn n g dm h = Inr (rt, g', dm', h') \<and> pool_ok base1 SRAMIN h' \<and>
    (if mempsize \<le> 54144
     then rt = 0 \<and> dm' = lwip_comm_default_ip_set sn n dm \<and> regions SRAMIN h' = set (stacked 1600 (eth_sizes @ lwip_sizes mempsize)) \<and>
       0 \<notin> {DMARxDscrTab g', DMATxDscrTab g', Rx_Buff g', Tx_Buff g', memp_memory g', ram_heap g', TCPIP_THREAD_TASK_STK g', LWIP_DHCP_TASK_STK g'}
     else rt = 2 \<and> dm' = dm \<and> regions SRAMIN h' = set (stacked 1600 eth_sizes))"
proof -
  have eb: "sum_list (map blocks eth_sizes) = 367" "0 \<notin> set eth_sizes" by (simp_all add: eth_sizes_def blocks_def)
  from malloc_all_packed[OF assms(1) _ eb(2), of 1600] assms(2) packed_empty eb(1) obtain h1 where
    h1: "malloc_all (mymalloc base1 SRAMIN) eth_sizes h = Inr (map (block_addr base1 SRAMIN \<circ> fst) (stacked 1600 eth_sizes), h1)"
    "pool_ok base1 SRAMIN h1" "regions SRAMIN h1 = set (stacked 1600 eth_sizes)" "packed 1233 (regions SRAMIN h1)"
    "\<forall>q \<in> set (stacked 1600 eth_sizes). block_addr base1 SRAMIN (fst q) \<noteq> 0" by auto
  have nz: "0 \<notin> set (lwip_sizes mempsize)" using assms(4) by (simp add: lwip_sizes_def)
  have lb: "sum_list (map blocks (lwip_sizes mempsize)) \<le> 1233 \<longleftrightarrow> mempsize \<le> 54144"
  proof -
    have "sum_list (map blocks (lwip_sizes mempsize)) = blocks mempsize + 387" by (simp add: lwip_sizes_def blocks_def)
    moreover have "blocks mempsize < 847 \<longleftrightarrow> unat mempsize + 63 < 847 * 64"
      unfolding blocks_def by (rule div_less_iff_less_mult) simp
    moreover have "mempsize \<le> 54144 \<longleftrightarrow> unat mempsize \<le> 54144" by (simp add: word_le_nat_alt)
    ultimately show ?thesis by arith
  qed
  from pool.malloc_all_law[OF h1(2), of "lwip_sizes mempsize"] obtain ps h2 where
    h2: "malloc_all (mymalloc base1 SRAMIN) (lwip_sizes mempsize) h1 = Inr (ps, h2)" "pool_ok base1 SRAMIN h2" by auto
  from pool.free_all_undoes[OF h1(2) h2(1)] obtain h3 where
    h3: "for_each ps (myfree base1 SRAMIN) h2 = Inr h3" "pool_ok base1 SRAMIN h3" "regions SRAMIN h3 = regions SRAMIN h1" by blast
  note run = EthMemAlloc_def ETH_Mem_Malloc_run[OF h1(1) assms(3)] lwip_comm_mem_malloc_run[OF h2(1) h3(1)]
  have st: "stacked 1600 (eth_sizes @ lwip_sizes mempsize) = stacked 1600 eth_sizes @ stacked 1233 (lwip_sizes mempsize)"
    by (simp add: eth_sizes_def blocks_def)
  show ?thesis
  proof (cases "mempsize \<le> 54144")
    case True
    with malloc_all_packed[OF h1(2,4) nz] lb h2 have
      ps: "ps = map (block_addr base1 SRAMIN \<circ> fst) (stacked 1233 (lwip_sizes mempsize))"
      "regions SRAMIN h2 = regions SRAMIN h1 \<union> set (stacked 1233 (lwip_sizes mempsize))"
      "\<forall>q \<in> set (stacked 1233 (lwip_sizes mempsize)). block_addr base1 SRAMIN (fst q) \<noteq> 0" by auto
    then have ps0: "0 \<notin> set ps" by auto
    let ?es = "map (block_addr base1 SRAMIN \<circ> fst) (stacked 1600 eth_sizes)"
    have es0: "0 \<notin> set ?es" using h1(5) by auto
    from malloc_all4[OF h1(1)[unfolded eth_sizes_def]] obtain e0 e1 e2 e3 where es: "?es = [e0, e1, e2, e3]"
      unfolding eth_sizes_def by metis
    from malloc_all4[OF h2(1)[unfolded lwip_sizes_def]] obtain p0 p1 p2 p3 where ps4: "ps = [p0, p1, p2, p3]" by blast
    show ?thesis
      using True h2(2) h1(3) ps(2) st ps0 es0 by (simp add: run es ps4 del: list.map)
  next
    case False
    with lb malloc_all_null[OF h1(2,4) nz _ h2(1)] have "0 \<in> set ps" by (simp add: not_le)
    with False h3 h1(3) assms(3) show ?thesis by (simp add: run)
  qed
qed

definition net_mem0 :: net_mem where
  "net_mem0 = \<lparr>DMARxDscrTab = 0, DMATxDscrTab = 0, Rx_Buff = 0, Tx_Buff = 0, memp_memory = 0, ram_heap = 0,
     TCPIP_THREAD_TASK_STK = 0, LWIP_DHCP_TASK_STK = 0\<rparr>"

definition lwip_dev0 :: lwip_dev where
  "lwip_dev0 = \<lparr>mac = replicate 6 0, ip = replicate 4 0, netmask = replicate 4 0, gateway = replicate 4 0, dhcpstatus = 0\<rparr>"

theorem EthMemAlloc_outcome_witness:
  "\<exists>g' dm' h'. EthMemAlloc 0x20000000 [0x20020000, 0x20020004, 0x20020008, 0x2002000C] 20000 (1, 2, 3) net0 net_mem0 (lwip_dev0, mcuinfo0) heap0 =
     Inr (0, g', dm', h') \<and> Tx_Buff g' \<noteq> 0"
  using EthMemAlloc_outcome[where mempsize = 20000 and ?base1.0 = "0x20000000" and h = heap0 and sn = "(1, 2, 3)" and n = net0 and g = net_mem0
      and dm = "(lwip_dev0, mcuinfo0)" and glob = "[0x20020000, 0x20020004, 0x20020008, 0x2002000C]"] heap0_ok
  by (auto simp: SRAMIN_def)

end
