(* ===== verification/SysArch.thy ===== *)
theory SysArch
  imports Prelude
begin

text \<open>
  \<^verbatim>\<open>src/LWIP/arch/sys_arch.c\<close>: the time accounting of lwIP's port to uC/OS-II. The clock
  (\<open>OSTimeGet\<close>, 1000 ticks per second) before and after waiting and the outcome of waiting
  (\<open>OSQPend\<close>, \<open>OSSemPend\<close>) are arguments. lwIP always asks for the message.
\<close>

section \<open>Operations\<close>

definition OS_TICKS_PER_SEC :: u32 where "OS_TICKS_PER_SEC = 1000"
definition SYS_ARCH_TIMEOUT :: u32 where "SYS_ARCH_TIMEOUT = 0xffffffff"
definition OS_ERR_TIMEOUT :: u8 where "OS_ERR_TIMEOUT = 10"

text \<open>Milliseconds to ticks, at least one; 0 waits for ever.\<close>

definition ucos_timeout :: "u32 \<Rightarrow> u32" where
  "ucos_timeout timeout =
     (if timeout \<noteq> 0 then
        (let t = timeout * OS_TICKS_PER_SEC div 1000 in if t < 1 then 1 else t)
      else 0)"

text \<open>The address of \<open>pvNullPointer\<close> stands for a null message in the queue.\<close>

definition mbox_encode :: "u32 \<Rightarrow> u32 \<Rightarrow> u32" where
  "mbox_encode pvNull msg = (if msg = 0 then pvNull else msg)"

text \<open>\<open>OSQPost\<close> yields 0 on success; \<open>ERR_MEM\<close> is -1.\<close>

definition sys_mbox_trypost :: "u32 \<Rightarrow> (u32 \<Rightarrow> u8) \<Rightarrow> u32 \<Rightarrow> int" where
  "sys_mbox_trypost pvNull OSQPost msg = (if OSQPost (mbox_encode pvNull msg) \<noteq> 0 then -1 else 0)"

definition mbox_decode :: "u32 \<Rightarrow> u32 \<Rightarrow> u32" where
  "mbox_decode pvNull temp = (if temp = pvNull then 0 else temp)"

definition sys_arch_mbox_fetch ::
  "u32 \<Rightarrow> (u16 \<Rightarrow> u32 \<times> u8) \<Rightarrow> u32 \<Rightarrow> u32 \<Rightarrow> u32 \<Rightarrow> u32 \<times> u32" where
  "sys_arch_mbox_fetch pvNull OSQPend time0 time1 timeout =
     (let (temp, ucErr) = OSQPend (ucast (ucos_timeout timeout));
          msg = mbox_decode pvNull temp in
      if ucErr = OS_ERR_TIMEOUT then (SYS_ARCH_TIMEOUT, msg)
      else
        (let timeout_new = (if time1 > time0 then time1 - time0 else 0xffffffff - time0 + time1) in
         (timeout_new * 1000 div OS_TICKS_PER_SEC + 1, msg)))"

definition sys_arch_mbox_tryfetch :: "u32 \<Rightarrow> (u16 \<Rightarrow> u32 \<times> u8) \<Rightarrow> u32 \<Rightarrow> u32 \<Rightarrow> u32 \<times> u32" where
  "sys_arch_mbox_tryfetch pvNull OSQPend time0 time1 = sys_arch_mbox_fetch pvNull OSQPend time0 time1 1"

definition sys_arch_sem_wait :: "(u16 \<Rightarrow> u8) \<Rightarrow> u32 \<Rightarrow> u32 \<Rightarrow> u32 \<Rightarrow> u32" where
  "sys_arch_sem_wait OSSemPend time0 time1 timeout =
     (let ucErr = OSSemPend (ucast (ucos_timeout timeout)) in
      if ucErr = OS_ERR_TIMEOUT then SYS_ARCH_TIMEOUT
      else
        (let timeout_new = (if time1 \<ge> time0 then time1 - time0 else 0xffffffff - time0 + time1) in
         timeout_new * 1000 div OS_TICKS_PER_SEC + 1))"

definition sys_now :: "u32 \<Rightarrow> u32" where
  "sys_now ucos_time = ucos_time * 1000 div OS_TICKS_PER_SEC + 1"

section \<open>Properties\<close>

lemma mbox_null: "msg \<noteq> pvNull \<Longrightarrow> mbox_decode pvNull (mbox_encode pvNull msg) = msg"
  by (simp add: mbox_encode_def mbox_decode_def)

lemma ticks_to_ms: "unat d \<le> 4294967 \<Longrightarrow> d * 1000 div OS_TICKS_PER_SEC = d"
proof -
  assume "unat d \<le> 4294967"
  then have "unat (d * 1000) = unat d * 1000" by (simp add: unat_word_ariths)
  then have "unat (d * 1000 div OS_TICKS_PER_SEC) = unat d" by (simp add: unat_div OS_TICKS_PER_SEC_def)
  then show ?thesis by (simp add: word_unat_eq_iff)
qed

text \<open>
  C37. Waiting times: where the clock has advanced by \<open>d\<close> ticks, 0 < \<open>d\<close> \<le> 4294967, without
  wrap-around, both a mailbox fetch and a semaphore wait report \<open>d\<close> + 1 milliseconds. A semaphore
  obtained within the same tick reports 1 millisecond, but a message obtained within the same tick
  reports 4294967, over 71 minutes.
\<close>

theorem wait_times:
  assumes "snd (OSQPend (ucast (ucos_timeout timeout))) \<noteq> OS_ERR_TIMEOUT" "OSSemPend (ucast (ucos_timeout timeout)) \<noteq> OS_ERR_TIMEOUT"
    "time0 \<le> time0 + d" "unat d \<le> 4294967"
  shows "sys_arch_sem_wait OSSemPend time0 (time0 + d) timeout = d + 1 \<and>
    fst (sys_arch_mbox_fetch pvNull OSQPend time0 (time0 + d) timeout) = (if d = 0 then 4294967 else d + 1)"
proof (cases "d = 0")
  case True
  then show ?thesis using assms(1,2)
    by (simp add: sys_arch_sem_wait_def sys_arch_mbox_fetch_def case_prod_beta OS_TICKS_PER_SEC_def Let_def)
next
  case False
  then have "time0 < time0 + d" using assms(3) by (metis add_cancel_left_right order_le_less)
  then show ?thesis using assms False ticks_to_ms[OF assms(4)]
    by (simp add: sys_arch_sem_wait_def sys_arch_mbox_fetch_def case_prod_beta Let_def)
qed

theorem wait_times_witness:
  "sys_arch_sem_wait (\<lambda>_. 0) 500 500 250 = 1 \<and> fst (sys_arch_mbox_fetch 0x08001000 (\<lambda>_. (0x20000100, 0)) 500 500 250) = 4294967"
  using wait_times[of "\<lambda>_. (0x20000100, 0)" 250 "\<lambda>_. 0" 500 0 "0x08001000"] by (simp add: OS_ERR_TIMEOUT_def)

end
