(* ===== verification/Usart.thy ===== *)
theory Usart
  imports Prelude
begin

text \<open>
  \<^verbatim>\<open>src/SYSTEM/usart/usart.c\<close>: the receive callback of the serial port, which collects a line
  ended by carriage return and line feed. Bit 15 of \<open>USART_RX_STA\<close> marks a complete line, bit 14 a
  carriage return, the other bits count the bytes.
\<close>

section \<open>The callback\<close>

record usart_st =
  USART_RX_BUF :: "u8 list"
  USART_RX_STA :: u16

definition USART_REC_LEN :: u16 where "USART_REC_LEN = 200"

definition HAL_UART_RxCpltCallback :: "bool \<Rightarrow> u8 \<Rightarrow> usart_st \<Rightarrow> usart_st res" where
  "HAL_UART_RxCpltCallback is_usart1 aRxBuffer u =
     (if is_usart1 \<and> USART_RX_STA u AND 0x8000 = 0 then
        if USART_RX_STA u AND 0x4000 \<noteq> 0 then
          if aRxBuffer \<noteq> 0x0a then Inr (u\<lparr>USART_RX_STA := 0\<rparr>)
          else Inr (u\<lparr>USART_RX_STA := USART_RX_STA u OR 0x8000\<rparr>)
        else if aRxBuffer = 0x0d then Inr (u\<lparr>USART_RX_STA := USART_RX_STA u OR 0x4000\<rparr>)
        else
          bind_res (arr_set (USART_RX_BUF u) (unat (USART_RX_STA u AND 0x3FFF)) aRxBuffer) (\<lambda>b.
          let sta = USART_RX_STA u + 1 in
          Inr (u\<lparr>USART_RX_BUF := b, USART_RX_STA := if sta > USART_REC_LEN - 1 then 0 else sta\<rparr>))
      else Inr u)"

section \<open>Lines\<close>

text \<open>The three phases of a line with \<open>n\<close> bytes.\<close>

definition usart_wf :: "usart_st \<Rightarrow> bool" where
  "usart_wf u \<longleftrightarrow> length (USART_RX_BUF u) = 200 \<and>
     (\<exists>n < 200. USART_RX_STA u = n \<or> USART_RX_STA u = n OR 0x4000 \<or> USART_RX_STA u = n OR 0xC000)"

lemma small_sta:
  fixes n :: u16
  assumes "n < 200"
  shows "n AND 0x8000 = 0" "n AND 0x4000 = 0" "n AND 0x3FFF = n" "(n OR 0x4000) AND 0x8000 = 0" "(n OR 0x4000) AND 0x4000 \<noteq> 0"
    "(n OR 0xC000) AND 0x8000 \<noteq> 0" "(n OR 0x4000) OR 0x8000 = n OR 0xC000"
proof -
  have "unat n < 2 ^ 8" using assms by (simp add: word_less_nat_alt)
  then have "unat (take_bit 8 n) = unat n" by (simp add: unsigned_take_bit_eq take_bit_nat_eq_self)
  then have "take_bit 8 n = n" by (simp only: word_unat_eq_iff)
  then have n: "n = n AND 0xFF" by (simp add: take_bit_eq_mask mask_eq_exp_minus_1)
  have c: "n AND c = n AND (0xFF AND c)" for c by (subst n) (simp only: and.assoc)
  show a: "n AND 0x8000 = 0" "n AND 0x4000 = 0" by (simp_all add: c[of "0x8000"] c[of "0x4000"])
  show "n AND 0x3FFF = n" using n by (simp add: c[of "0x3FFF"])
  show "(n OR 0x4000) AND 0x8000 = 0" "(n OR 0x4000) AND 0x4000 \<noteq> 0" "(n OR 0xC000) AND 0x8000 \<noteq> 0"
    by (simp_all add: bit.conj_disj_distrib2 a)
  show "(n OR 0x4000) OR 0x8000 = n OR 0xC000" by (simp add: or.assoc)
qed

lemma usart_byte:
  assumes "length (USART_RX_BUF u) = 200" "USART_RX_STA u = of_nat n" "n < 200" "b \<noteq> 0x0d"
  shows "HAL_UART_RxCpltCallback True b u =
    Inr (u\<lparr>USART_RX_BUF := (USART_RX_BUF u)[n := b], USART_RX_STA := if n = 199 then 0 else of_nat (Suc n)\<rparr>)"
proof -
  have u: "unat (of_nat n :: u16) = n" using assms(3) by (simp add: unat_of_nat)
  have small: "(of_nat n :: u16) < 200" using u assms(3) by (simp add: word_less_nat_alt)
  have "unat (1 + of_nat n :: u16) = Suc n" using u assms(3) by (simp add: unat_word_ariths)
  then have "USART_REC_LEN - 1 < 1 + of_nat n \<longleftrightarrow> n = 199"
    using assms(3) by (auto simp: word_less_nat_alt USART_REC_LEN_def)
  then show ?thesis
    using assms small_sta[OF small] u by (simp add: HAL_UART_RxCpltCallback_def Let_def add.commute)
qed

lemma usart_wf_step:
  assumes "usart_wf u"
  shows "\<exists>u'. HAL_UART_RxCpltCallback inst b u = Inr u' \<and> usart_wf u'"
proof (cases inst)
  case True
  from assms obtain n where n: "length (USART_RX_BUF u) = 200" "n < 200"
    "USART_RX_STA u = n \<or> USART_RX_STA u = n OR 0x4000 \<or> USART_RX_STA u = n OR 0xC000" by (auto simp: usart_wf_def)
  from n(3) show ?thesis
  proof (elim disjE)
    assume sta: "USART_RX_STA u = n"
    show ?thesis
    proof (cases "b = 0x0d")
      case False
      have k: "unat n < 200" "USART_RX_STA u = of_nat (unat n)" using n(2) sta by (simp_all add: word_less_nat_alt)
      have "of_nat (Suc (unat n)) < (200 :: u16)" if "unat n \<noteq> 199"
        using k(1) that by (simp only: word_less_nat_alt unat_of_nat) simp
      then have "\<exists>m < 200. (if unat n = 199 then 0 else of_nat (Suc (unat n))) = (m :: u16)" by simp
      with usart_byte[OF n(1) k(2,1) False] n(1) True show ?thesis unfolding usart_wf_def by fastforce
    qed (use True n sta small_sta[OF n(2)] in \<open>auto simp: HAL_UART_RxCpltCallback_def usart_wf_def\<close>)
  next
    assume sta: "USART_RX_STA u = n OR 0x4000"
    with True small_sta[OF n(2)] have "HAL_UART_RxCpltCallback inst b u = Inr (u\<lparr>USART_RX_STA := if b = 0x0a then n OR 0xC000 else 0\<rparr>)"
      by (simp add: HAL_UART_RxCpltCallback_def)
    moreover have "\<exists>m < 200. (0 :: u16) = m" by simp
    ultimately show ?thesis using n(1,2) unfolding usart_wf_def by (cases "b = 0x0a") fastforce+
  next
    assume sta: "USART_RX_STA u = n OR 0xC000"
    with True assms small_sta[OF n(2)] show ?thesis by (simp add: HAL_UART_RxCpltCallback_def)
  qed
qed (use assms in \<open>simp add: HAL_UART_RxCpltCallback_def\<close>)

lemma usart_bytes:
  assumes "length (USART_RX_BUF u) = 200" "USART_RX_STA u = of_nat n" "n + length line < 200" "0x0d \<notin> set line"
  shows "for_each line (HAL_UART_RxCpltCallback True) u =
    Inr (u\<lparr>USART_RX_BUF := take n (USART_RX_BUF u) @ line @ drop (n + length line) (USART_RX_BUF u), USART_RX_STA := of_nat (n + length line)\<rparr>)"
  using assms
proof (induction line arbitrary: n u)
  case Nil
  then show ?case by simp
next
  case (Cons b line)
  let ?u = "u\<lparr>USART_RX_BUF := (USART_RX_BUF u)[n := b], USART_RX_STA := of_nat (Suc n)\<rparr>"
  have "HAL_UART_RxCpltCallback True b u = Inr ?u" using usart_byte[of u n b] Cons.prems by auto
  moreover have "take (Suc n) ((USART_RX_BUF u)[n := b]) = take n (USART_RX_BUF u) @ [b]"
    using Cons.prems by (simp add: take_Suc_conv_app_nth)
  ultimately show ?case using Cons.IH[of ?u "Suc n"] Cons.prems by simp
qed

section \<open>Properties\<close>

text \<open>
  C36. The serial port: no sequence of bytes makes the callback leave its 200-byte buffer; and from
  the empty state a line of fewer than 200 bytes without a carriage return, ended by carriage
  return and line feed, is delivered unchanged, with its length and the completion marks in
  \<open>USART_RX_STA\<close>, and stays until that is cleared, whatever is received afterwards.
\<close>

theorem usart_collects_lines:
  assumes "usart_wf u"
  shows "(\<exists>u'. for_each bytes (HAL_UART_RxCpltCallback inst) u = Inr u' \<and> usart_wf u') \<and>
    (USART_RX_STA u = 0 \<longrightarrow> length line < 200 \<longrightarrow> 0x0d \<notin> set line \<longrightarrow>
      (\<exists>u'. for_each (line @ [0x0d, 0x0a] @ later) (HAL_UART_RxCpltCallback True) u = Inr u' \<and>
        USART_RX_STA u' = of_nat (length line) OR 0xC000 \<and> take (length line) (USART_RX_BUF u') = line))"
proof (intro conjI impI)
  show "\<exists>u'. for_each bytes (HAL_UART_RxCpltCallback inst) u = Inr u' \<and> usart_wf u'" using assms
  proof (induction bytes arbitrary: u)
    case (Cons b bytes)
    from usart_wf_step[OF Cons.prems] obtain u1 where "HAL_UART_RxCpltCallback inst b u = Inr u1" "usart_wf u1" by blast
    with Cons.IH[of u1] show ?case by auto
  qed simp
next
  assume l: "USART_RX_STA u = 0" "length line < 200" "0x0d \<notin> set line"
  let ?n = "of_nat (length line) :: u16"
  have small: "?n < 200" using l(2) by (simp add: word_less_nat_alt unat_of_nat)
  note st = small_sta[OF small]
  let ?u = "u\<lparr>USART_RX_BUF := line @ drop (length line) (USART_RX_BUF u), USART_RX_STA := ?n OR 0xC000\<rparr>"
  have "for_each line (HAL_UART_RxCpltCallback True) u = Inr (?u\<lparr>USART_RX_STA := ?n\<rparr>)"
    using usart_bytes[of u 0 line] assms l by (simp add: usart_wf_def)
  then have "for_each (line @ [0x0d, 0x0a]) (HAL_UART_RxCpltCallback True) u = Inr ?u"
    using st by (simp add: for_each_append HAL_UART_RxCpltCallback_def)
  moreover have "for_each later (HAL_UART_RxCpltCallback True) ?u = Inr ?u"
    using st by (induction later) (simp_all add: HAL_UART_RxCpltCallback_def)
  ultimately show "\<exists>u'. for_each (line @ [0x0d, 0x0a] @ later) (HAL_UART_RxCpltCallback True) u = Inr u' \<and>
      USART_RX_STA u' = ?n OR 0xC000 \<and> take (length line) (USART_RX_BUF u') = line"
    by (simp only: append_assoc[symmetric] for_each_append) simp
qed

definition usart0 :: usart_st where
  "usart0 = \<lparr>USART_RX_BUF = replicate 200 0, USART_RX_STA = 0\<rparr>"

theorem usart_collects_lines_witness:
  "\<exists>u'. for_each [0x66, 0x69, 0x75, 0x0d, 0x0a, 0x21] (HAL_UART_RxCpltCallback True) usart0 = Inr u' \<and>
     USART_RX_STA u' = 0xC003 \<and> take 3 (USART_RX_BUF u') = [0x66, 0x69, 0x75]"
proof -
  have "(0 :: u16) < 200" by simp
  then have "usart_wf usart0" unfolding usart_wf_def usart0_def by fastforce
  from usart_collects_lines[OF this, of "[]" True "[0x66, 0x69, 0x75]" "[0x21]"] show ?thesis by (auto simp: usart0_def numeral_3_eq_3)
qed

end
