(* ===== verification/Iic.thy ===== *)
theory Iic
  imports Prelude
begin

text \<open>
  \<^verbatim>\<open>src/HARDWARE/IIC/myiic.c\<close> and \<^verbatim>\<open>src/HARDWARE/PCF8574/pcf8574.c\<close>: the I2C bus driven pin by pin,
  and the port expander behind it, which carries the temperature inputs and the front panel
  lamps. The code's actions are a log of wire events; what an input reads is a function of the
  log. The log is decoded into bus symbols, in which the frames of the expander are specified.
\<close>

section \<open>The bus\<close>

datatype iic_event = SdaDir bool | Sda bool | Scl bool | DelayUs nat | ReadSda | WaitMs nat

type_synonym iic_log = "iic_event list"

text \<open>\<open>SDA_OUT\<close> is \<open>SdaDir True\<close>, \<open>SDA_IN\<close> is \<open>SdaDir False\<close>.\<close>

definition IIC_Init :: "iic_log \<Rightarrow> iic_log" where
  "IIC_Init l = l @ [SdaDir True, Sda True, Scl True]"

definition IIC_Start :: "iic_log \<Rightarrow> iic_log" where
  "IIC_Start l = l @ [SdaDir True, Sda True, Scl True, DelayUs 4, Sda False, DelayUs 4, Scl False]"

definition IIC_Stop :: "iic_log \<Rightarrow> iic_log" where
  "IIC_Stop l = l @ [SdaDir True, Scl False, Sda False, DelayUs 4, Scl True, Sda True, DelayUs 4]"

function wait_ack_loop :: "(iic_log \<Rightarrow> bool) \<Rightarrow> u8 \<Rightarrow> iic_log \<Rightarrow> u8 \<times> iic_log" where
  "wait_ack_loop sda ucErrTime l =
     (if sda l then
        (if ucErrTime + 1 > 250 then (1, IIC_Stop (l @ [ReadSda]))
         else wait_ack_loop sda (ucErrTime + 1) (l @ [ReadSda]))
      else (0, l @ [ReadSda, Scl False]))"
  by pat_completeness auto
termination
proof (relation "measure (\<lambda>(sda, uc, l). if uc = 255 then 300 else 255 - unat uc)", goal_cases)
  case (2 sda uc l)
  have "unat uc \<le> 255" using unsigned_less[of uc, where ?'a = nat] by simp
  then have "unat (uc + 1) = unat uc + 1" if "unat uc \<noteq> 255" using that by (simp add: unat_word_ariths)
  moreover have "uc = 255 \<longleftrightarrow> unat uc = 255" "uc + 1 = 255 \<longleftrightarrow> unat (uc + 1) = 255" by (simp_all add: word_unat_eq_iff)
  moreover have "\<not> 250 < unat (uc + 1)" using 2(2) by (simp add: word_less_nat_alt)
  ultimately show ?case using \<open>unat uc \<le> 255\<close> by auto
qed simp

declare wait_ack_loop.simps [simp del]

definition IIC_Wait_Ack :: "(iic_log \<Rightarrow> bool) \<Rightarrow> iic_log \<Rightarrow> u8 \<times> iic_log" where
  "IIC_Wait_Ack sda l = wait_ack_loop sda 0 (l @ [SdaDir False, Sda True, DelayUs 1, Scl True, DelayUs 1])"

definition IIC_Ack :: "iic_log \<Rightarrow> iic_log" where
  "IIC_Ack l = l @ [Scl False, SdaDir True, Sda False, DelayUs 2, Scl True, DelayUs 2, Scl False]"

definition IIC_NAck :: "iic_log \<Rightarrow> iic_log" where
  "IIC_NAck l = l @ [Scl False, SdaDir True, Sda True, DelayUs 2, Scl True, DelayUs 2, Scl False]"

primrec send_loop :: "nat \<Rightarrow> u8 \<Rightarrow> iic_log \<Rightarrow> iic_log" where
  "send_loop 0 txd l = l"
| "send_loop (Suc n) txd l =
     send_loop n (push_bit 1 txd)
       (l @ [Sda (drop_bit 7 (txd AND 0x80) = 1), DelayUs 2, Scl True, DelayUs 2, Scl False, DelayUs 2])"

definition IIC_Send_Byte :: "u8 \<Rightarrow> iic_log \<Rightarrow> iic_log" where
  "IIC_Send_Byte txd l = send_loop 8 txd (l @ [SdaDir True, Scl False])"

primrec read_loop :: "(iic_log \<Rightarrow> bool) \<Rightarrow> nat \<Rightarrow> u8 \<Rightarrow> iic_log \<Rightarrow> u8 \<times> iic_log" where
  "read_loop sda 0 receive l = (receive, l)"
| "read_loop sda (Suc n) receive l =
     (let l = l @ [Scl False, DelayUs 2, Scl True];
          receive = push_bit 1 receive;
          receive = (if sda l then receive + 1 else receive) in
      read_loop sda n receive (l @ [ReadSda, DelayUs 1]))"

definition IIC_Read_Byte :: "(iic_log \<Rightarrow> bool) \<Rightarrow> bool \<Rightarrow> iic_log \<Rightarrow> u8 \<times> iic_log" where
  "IIC_Read_Byte sda ack l =
     (let (receive, l) = read_loop sda 8 0 (l @ [SdaDir False]) in
      (receive, if \<not> ack then IIC_NAck l else IIC_Ack l))"

section \<open>The port expander\<close>

definition PCF8574_ADDR :: u8 where "PCF8574_ADDR = 0x40"

definition PCF8574_ReadOneByte :: "(iic_log \<Rightarrow> bool) \<Rightarrow> iic_log \<Rightarrow> u8 \<times> iic_log" where
  "PCF8574_ReadOneByte sda l =
     (let l = IIC_Send_Byte (PCF8574_ADDR OR 1) (IIC_Start l);
          (_, l) = IIC_Wait_Ack sda l;
          (temp, l) = IIC_Read_Byte sda False l in
      (temp, IIC_Stop l))"

definition PCF8574_WriteOneByte :: "(iic_log \<Rightarrow> bool) \<Rightarrow> u8 \<Rightarrow> iic_log \<Rightarrow> iic_log" where
  "PCF8574_WriteOneByte sda DataToWrite l =
     (let l = IIC_Send_Byte (PCF8574_ADDR OR 0) (IIC_Start l);
          (_, l) = IIC_Wait_Ack sda l;
          l = IIC_Send_Byte DataToWrite l;
          (_, l) = IIC_Wait_Ack sda l in
      IIC_Stop l @ [WaitMs 10])"

definition PCF8574_Init :: "(iic_log \<Rightarrow> bool) \<Rightarrow> iic_log \<Rightarrow> u8 \<times> iic_log" where
  "PCF8574_Init sda l =
     (let l = IIC_Send_Byte PCF8574_ADDR (IIC_Start (IIC_Init l));
          (temp, l) = IIC_Wait_Ack sda l in
      (temp, PCF8574_WriteOneByte sda 0xFF (IIC_Stop l)))"

definition PCF8574_WriteBit :: "(iic_log \<Rightarrow> bool) \<Rightarrow> nat \<Rightarrow> bool \<Rightarrow> iic_log \<Rightarrow> iic_log" where
  "PCF8574_WriteBit sda n sta l =
     (let (data, l) = PCF8574_ReadOneByte sda l;
          data = (if \<not> sta then data AND NOT (push_bit n 1) else data OR push_bit n 1) in
      PCF8574_WriteOneByte sda data l)"

definition PCF8574_ReadBit :: "(iic_log \<Rightarrow> bool) \<Rightarrow> nat \<Rightarrow> iic_log \<Rightarrow> bool \<times> iic_log" where
  "PCF8574_ReadBit sda n l =
     (let (data, l) = PCF8574_ReadOneByte sda l in (data AND push_bit n 1 \<noteq> 0, l))"

section \<open>Symbols on the bus\<close>

text \<open>
  The master pulls SDA low when it drives and the latch is 0. A change of that while SCL is high is a
  start or a stop; otherwise each clock pulse is a bit, written by the master or listened to.
\<close>

datatype symbol = START | STOP | Wr bool | Rd

record wire =
  w_scl :: bool
  w_sda :: bool
  w_out :: bool
  w_slot :: "symbol option"
  w_syms :: "symbol list"

definition drive :: "bool \<Rightarrow> bool \<Rightarrow> wire \<Rightarrow> wire" where
  "drive sda out w =
     (let was = w_out w \<and> \<not> w_sda w; now = out \<and> \<not> sda; w = w\<lparr>w_sda := sda, w_out := out\<rparr> in
      if w_scl w \<and> was \<noteq> now then w\<lparr>w_slot := None, w_syms := w_syms w @ [if now then START else STOP]\<rparr> else w)"

fun wire_step :: "iic_event \<Rightarrow> wire \<Rightarrow> wire" where
  "wire_step (SdaDir out) w = drive (w_sda w) out w"
| "wire_step (Sda v) w = drive v (w_out w) w"
| "wire_step (Scl v) w =
     (if v = w_scl w then w
      else if v then w\<lparr>w_scl := True, w_slot := Some (if w_out w then Wr (w_sda w) else Rd)\<rparr>
      else w\<lparr>w_scl := False, w_slot := None, w_syms := w_syms w @ (case w_slot w of None \<Rightarrow> [] | Some x \<Rightarrow> [x])\<rparr>)"
| "wire_step _ w = w"

text \<open>At reset the lines are released.\<close>

definition wire0 :: wire where
  "wire0 = \<lparr>w_scl = True, w_sda = True, w_out = True, w_slot = None, w_syms = []\<rparr>"

definition wire_of :: "iic_log \<Rightarrow> wire" where
  "wire_of l = fold wire_step l wire0"

definition syms :: "iic_log \<Rightarrow> symbol list" where
  "syms l = w_syms (wire_of l)"

text \<open>The bus at rest, and with the clock held low.\<close>

definition idle :: "iic_log \<Rightarrow> bool" where
  "idle l \<longleftrightarrow> w_scl (wire_of l) \<and> w_sda (wire_of l) \<and> w_slot (wire_of l) = None"

definition held :: "iic_log \<Rightarrow> bool" where
  "held l \<longleftrightarrow> \<not> w_scl (wire_of l)"

lemma wire_of_append [simp]: "wire_of (l @ es) = fold wire_step es (wire_of l)"
  by (simp add: wire_of_def)

lemma IIC_Start_wire: "idle l \<Longrightarrow> held (IIC_Start l) \<and> syms (IIC_Start l) = syms l @ [START]"
  by (simp add: idle_def held_def syms_def IIC_Start_def drive_def Let_def)

lemma IIC_Stop_wire: "held l \<Longrightarrow> idle (IIC_Stop l) \<and> syms (IIC_Stop l) = syms l @ [STOP]"
  by (simp add: idle_def held_def syms_def IIC_Stop_def drive_def Let_def)

lemma bit_shift: "bit (w * 2) k \<longleftrightarrow> 0 < k \<and> k < 8 \<and> bit w (k - 1)" for w :: u8
proof -
  have "bit (push_bit 1 w) k \<longleftrightarrow> 0 < k \<and> k < 8 \<and> bit w (k - 1)" by (auto simp only: bit_push_bit_iff possible_bit_word) auto
  then show ?thesis by simp
qed

lemma send_loop_wire:
  "held l \<Longrightarrow> w_out (wire_of l) \<Longrightarrow> n \<le> 8 \<Longrightarrow> held (send_loop n txd l) \<and> w_out (wire_of (send_loop n txd l)) \<and>
     syms (send_loop n txd l) = syms l @ map (\<lambda>i. Wr (bit txd (7 - i))) [0..<n]"
proof (induction n arbitrary: txd l)
  case (Suc n)
  let ?l = "l @ [Sda (drop_bit 7 (txd AND 0x80) = 1), DelayUs 2, Scl True, DelayUs 2, Scl False, DelayUs 2]"
  have l: "held ?l" "w_out (wire_of ?l)" "syms ?l = syms l @ [Wr (bit txd 7)]"
    using Suc.prems(1,2) by (simp_all add: held_def syms_def drive_def Let_def drop_bit_and_1_eq)
  have "map (\<lambda>i. Wr (bit (push_bit 1 txd) (7 - i))) [0..<n] = map (\<lambda>i. Wr (bit txd (7 - Suc i))) [0..<n]"
    using Suc.prems(3) by (auto simp: bit_shift)
  with Suc.IH[OF l(1,2), of "push_bit 1 txd"] Suc.prems(3) l(3) show ?case
    by (simp add: upt_conv_Cons map_Suc_upt[symmetric] del: upt_Suc)
qed simp

definition byte_syms :: "u8 \<Rightarrow> symbol list" where
  "byte_syms b = map (\<lambda>i. Wr (bit b (7 - i))) [0..<8]"

lemma IIC_Send_Byte_wire: "held l \<Longrightarrow> held (IIC_Send_Byte b l) \<and> syms (IIC_Send_Byte b l) = syms l @ byte_syms b"
  using send_loop_wire[of "l @ [SdaDir True, Scl False]" 8 b]
  by (simp add: IIC_Send_Byte_def byte_syms_def held_def syms_def drive_def Let_def del: upt_Suc)

text \<open>What the expander does on SDA: \<open>level ss\<close> is the level in the slot after the symbols \<open>ss\<close>.\<close>

definition driven_by :: "(symbol list \<Rightarrow> bool) \<Rightarrow> (iic_log \<Rightarrow> bool) \<Rightarrow> bool" where
  "driven_by level sda \<longleftrightarrow> (\<forall>l. sda l = level (syms l))"

lemma IIC_Wait_Ack_wire:
  assumes "held l" "driven_by level sda" "\<not> level (syms l)"
  shows "\<exists>l'. IIC_Wait_Ack sda l = (0, l') \<and> held l' \<and> syms l' = syms l @ [Rd]"
proof -
  let ?l = "l @ [SdaDir False, Sda True, DelayUs 1, Scl True, DelayUs 1]"
  have "syms ?l = syms l" "w_scl (wire_of ?l)" "w_slot (wire_of ?l) = Some Rd"
    using assms(1) by (simp_all add: held_def syms_def drive_def Let_def)
  with assms(2,3) show ?thesis
    by (simp add: IIC_Wait_Ack_def wait_ack_loop.simps[of sda] driven_by_def held_def syms_def del: wire_of_append)
      (simp add: wire_of_def)
qed

lemma read_slot:
  assumes "w_out (wire_of l) = False" "l1 = l @ [Scl False, DelayUs 2, Scl True]"
  shows "syms l1 = syms (l @ [Scl False])" "w_scl (wire_of l1)" "w_slot (wire_of l1) = Some Rd" "w_out (wire_of l1) = False"
  using assms by (auto simp: syms_def)

text \<open>
  Inside the loop a slot may still be open: \<open>syms (l @ [Scl False])\<close> are the symbols up to it.
\<close>

lemma read_loop_wire:
  assumes "w_out (wire_of l) = False" "driven_by level sda" "n \<le> 8"
    "\<forall>i < n. level (syms (l @ [Scl False]) @ replicate i Rd) = bit v (n - 1 - i)"
  shows "\<exists>l'. read_loop sda n receive l = (push_bit n receive OR take_bit n v, l') \<and> w_out (wire_of l') = False \<and>
    syms (l' @ [Scl False]) = syms (l @ [Scl False]) @ replicate n Rd"
  using assms(1,3,4)
proof (induction n arbitrary: l receive)
  case (Suc n)
  let ?l = "l @ [Scl False, DelayUs 2, Scl True]" and ?l1 = "(l @ [Scl False, DelayUs 2, Scl True]) @ [ReadSda, DelayUs 1]"
  note r = read_slot[OF Suc.prems(1) refl]
  have s1: "syms (?l1 @ [Scl False]) = syms (l @ [Scl False]) @ [Rd]" "w_out (wire_of ?l1) = False"
    using r by (simp_all add: syms_def)
  have v: "sda ?l = bit v n" using assms(2) r(1) Suc.prems(3)[rule_format, of 0] by (simp add: driven_by_def)
  have lv: "\<forall>i < n. level (syms (?l1 @ [Scl False]) @ replicate i Rd) = bit v (n - 1 - i)"
    unfolding s1(1) using Suc.prems(3) by (auto dest: spec[of _ "Suc _"])
  let ?r = "if sda ?l then push_bit 1 receive + 1 else push_bit 1 receive"
  from Suc.IH[OF s1(2) _ lv, of ?r] Suc.prems(2) obtain l' where
    l': "read_loop sda n ?r ?l1 = (push_bit n ?r OR take_bit n v, l')" "w_out (wire_of l') = False"
    "syms (l' @ [Scl False]) = syms (?l1 @ [Scl False]) @ replicate n Rd" by auto
  have "push_bit 1 receive + 1 = push_bit 1 receive OR (1 :: u8)" by (rule disjunctive_add) (auto simp: bit_simps bit_shift)
  then have eq: "push_bit n ?r OR take_bit n v = push_bit (Suc n) receive OR take_bit (Suc n) v"
    using v by (intro bit_word_eqI) (auto simp: bit_simps bit_shift less_Suc_eq)
  have step: "read_loop sda (Suc n) receive l = read_loop sda n ?r ?l1" by (simp only: read_loop.simps Let_def)
  have "syms (l' @ [Scl False]) = syms (l @ [Scl False]) @ replicate (Suc n) Rd" using l'(3) s1(1) by simp
  with l'(2) show ?case unfolding step l'(1) eq by blast
qed (auto intro: exI[of _ l])

lemma IIC_Read_Byte_wire:
  assumes "held l" "driven_by level sda" "\<forall>i < 8. level (syms l @ replicate i Rd) = bit v (7 - i)"
  shows "\<exists>l'. IIC_Read_Byte sda False l = (v, l') \<and> held l' \<and> syms l' = syms l @ replicate 8 Rd @ [Wr True]"
proof -
  let ?l = "l @ [SdaDir False]"
  have s: "syms (?l @ [Scl False]) = syms l" "w_out (wire_of ?l) = False"
    using assms(1) by (simp_all add: held_def syms_def drive_def Let_def)
  from read_loop_wire[OF s(2) assms(2), of 8 v 0] assms(3) obtain l' where
    l': "read_loop sda 8 0 ?l = (take_bit 8 v, l')" "w_out (wire_of l') = False" "syms (l' @ [Scl False]) = syms l @ replicate 8 Rd"
    unfolding s(1) by auto
  have "take_bit 8 v = v" by (rule take_bit_word_eq_self) simp
  moreover have "held (IIC_NAck l') \<and> syms (IIC_NAck l') = syms (l' @ [Scl False]) @ [Wr True]"
    by (simp add: IIC_NAck_def held_def syms_def drive_def Let_def)
  ultimately show ?thesis using l'(1,3) by (simp add: IIC_Read_Byte_def)
qed

section \<open>Frames of the expander\<close>

definition read_frame :: "symbol list" where
  "read_frame = [START] @ byte_syms (PCF8574_ADDR OR 1) @ [Rd] @ replicate 8 Rd @ [Wr True, STOP]"

definition write_frame :: "u8 \<Rightarrow> symbol list" where
  "write_frame b = [START] @ byte_syms PCF8574_ADDR @ [Rd] @ byte_syms b @ [Rd, STOP]"

text \<open>
  The expander with its pins at \<open>pins\<close>: it acknowledges its address in either direction, then sends its pins,
  highest first, or acknowledges the byte it is sent, and otherwise leaves the line high.
\<close>

definition expander :: "u8 \<Rightarrow> symbol list \<Rightarrow> bool" where
  "expander pins ss =
     (let f = rev (takeWhile (\<lambda>x. x \<noteq> START) (rev ss)); n = length f in
      if take 8 f = byte_syms (PCF8574_ADDR OR 1) then n \<noteq> 8 \<and> (n \<in> {9..16} \<longrightarrow> bit pins (16 - n))
      else if take 8 f = byte_syms PCF8574_ADDR then n \<noteq> 8 \<and> n \<noteq> 17
      else True)"

lemma byte_syms_simps [simp]: "length (byte_syms b) = 8" "START \<notin> set (byte_syms b)"
  by (auto simp: byte_syms_def)

lemma last_frame: "START \<notin> set f \<Longrightarrow> rev (takeWhile (\<lambda>x. x \<noteq> START) (rev (ss @ START # f))) = f"
  by (auto simp: takeWhile_append)

lemma expander_frame:
  "START \<notin> set f \<Longrightarrow> expander pins (ss @ START # byte_syms (PCF8574_ADDR OR 1) @ f) =
     (f \<noteq> [] \<and> (length f \<in> {1..8} \<longrightarrow> bit pins (8 - length f)))"
  "START \<notin> set f \<Longrightarrow> expander pins (ss @ START # byte_syms PCF8574_ADDR @ f) = (f \<noteq> [] \<and> length f \<noteq> 9)"
proof -
  have ne: "byte_syms PCF8574_ADDR \<noteq> byte_syms (PCF8574_ADDR OR 1)"
    by (simp add: byte_syms_def PCF8574_ADDR_def upt_conv_Cons)
  assume f: "START \<notin> set f"
  then show "expander pins (ss @ START # byte_syms (PCF8574_ADDR OR 1) @ f) =
     (f \<noteq> [] \<and> (length f \<in> {1..8} \<longrightarrow> bit pins (8 - length f)))"
    unfolding expander_def by (subst last_frame) (auto simp: Let_def)
  show "expander pins (ss @ START # byte_syms PCF8574_ADDR @ f) = (f \<noteq> [] \<and> length f \<noteq> 9)"
    unfolding expander_def using f ne by (subst last_frame) (auto simp: Let_def)
qed

lemma PCF8574_ReadOneByte_wire:
  assumes "idle l" "driven_by (expander pins) sda"
  shows "\<exists>l'. PCF8574_ReadOneByte sda l = (pins, l') \<and> idle l' \<and> syms l' = syms l @ read_frame"
proof -
  let ?a = "PCF8574_ADDR OR 1" and ?l1 = "IIC_Send_Byte (PCF8574_ADDR OR 1) (IIC_Start l)"
  have l1: "held ?l1" "syms ?l1 = syms l @ START # byte_syms ?a"
    using IIC_Start_wire[OF assms(1)] IIC_Send_Byte_wire[of "IIC_Start l" ?a] by simp_all
  have "\<not> expander pins (syms ?l1)" using expander_frame(1)[of "[]" pins "syms l"] l1(2) by simp
  from IIC_Wait_Ack_wire[OF l1(1) assms(2) this] obtain l2 where
    l2: "IIC_Wait_Ack sda ?l1 = (0, l2)" "held l2" "syms l2 = syms l @ START # byte_syms ?a @ [Rd]" using l1(2) by auto
  have "expander pins (syms l2 @ replicate i Rd) = bit pins (7 - i)" if "i < 8" for i
    using expander_frame(1)[of "Rd # replicate i Rd" pins "syms l"] that l2(3) by auto
  with IIC_Read_Byte_wire[OF l2(2) assms(2)] obtain l3 where
    l3: "IIC_Read_Byte sda False l2 = (pins, l3)" "held l3" "syms l3 = syms l2 @ replicate 8 Rd @ [Wr True]" by blast
  with l2 IIC_Stop_wire[OF l3(2)] show ?thesis by (simp add: PCF8574_ReadOneByte_def read_frame_def)
qed

lemma PCF8574_WriteOneByte_wire:
  assumes "idle l" "driven_by (expander pins) sda"
  shows "idle (PCF8574_WriteOneByte sda b l) \<and> syms (PCF8574_WriteOneByte sda b l) = syms l @ write_frame b"
proof -
  let ?a = "PCF8574_ADDR OR 0" and ?l1 = "IIC_Send_Byte (PCF8574_ADDR OR 0) (IIC_Start l)"
  have l1: "held ?l1" "syms ?l1 = syms l @ START # byte_syms PCF8574_ADDR"
    using IIC_Start_wire[OF assms(1)] IIC_Send_Byte_wire[of "IIC_Start l" ?a] by simp_all
  have "\<not> expander pins (syms ?l1)" using expander_frame(2)[of "[]" pins "syms l"] l1(2) by simp
  from IIC_Wait_Ack_wire[OF l1(1) assms(2) this] obtain l2 where
    l2: "IIC_Wait_Ack sda ?l1 = (0, l2)" "held l2" "syms l2 = syms l @ START # byte_syms PCF8574_ADDR @ [Rd]" using l1(2) by auto
  let ?l3 = "IIC_Send_Byte b l2"
  have l3: "held ?l3" "syms ?l3 = syms l @ START # byte_syms PCF8574_ADDR @ (Rd # byte_syms b)"
    using IIC_Send_Byte_wire[OF l2(2), of b] l2(3) by simp_all
  have "\<not> expander pins (syms ?l3)" using expander_frame(2)[of "Rd # byte_syms b" pins "syms l"] l3(2) by simp
  from IIC_Wait_Ack_wire[OF l3(1) assms(2) this] obtain l4 where
    l4: "IIC_Wait_Ack sda ?l3 = (0, l4)" "held l4" "syms l4 = syms ?l3 @ [Rd]" by blast
  have "idle (IIC_Stop l4 @ [WaitMs 10]) \<and> syms (IIC_Stop l4 @ [WaitMs 10]) = syms l4 @ [STOP]"
    using IIC_Stop_wire[OF l4(2)] by (simp add: idle_def syms_def)
  with l2(1) l3(2) l4(1,3) show ?thesis by (simp add: PCF8574_WriteOneByte_def write_frame_def)
qed

section \<open>Properties\<close>

text \<open>
  C34. The port expander: with the bus idle and the chip answering, reading returns the level of its
  pins, bit by bit, with one read frame on the bus; and setting a bit puts one read frame and one write frame
  on the bus, whose data is the byte read with only that bit changed. The bus is idle afterwards.
\<close>

theorem PCF8574_frames:
  assumes "idle l" "driven_by (expander pins) sda" "n < 8"
  shows "(\<exists>l'. PCF8574_ReadBit sda n l = (bit pins n, l') \<and> idle l' \<and> syms l' = syms l @ read_frame) \<and>
    (\<exists>b. syms (PCF8574_WriteBit sda n v l) = syms l @ read_frame @ write_frame b \<and> (\<forall>i. bit b i \<longleftrightarrow> (if i = n then v else bit pins i))) \<and>
    idle (PCF8574_WriteBit sda n v l)"
proof -
  from PCF8574_ReadOneByte_wire[OF assms(1,2)] obtain l' where
    l': "PCF8574_ReadOneByte sda l = (pins, l')" "idle l'" "syms l' = syms l @ read_frame" by blast
  have "pins AND push_bit n 1 \<noteq> 0 \<longleftrightarrow> bit pins n" using assms(3) by (simp add: bit_iff_and_push_bit_not_eq_0)
  with l' have r: "\<exists>l'. PCF8574_ReadBit sda n l = (bit pins n, l') \<and> idle l' \<and> syms l' = syms l @ read_frame"
    by (simp add: PCF8574_ReadBit_def)
  let ?b = "if \<not> v then pins AND NOT (push_bit n 1) else pins OR push_bit n 1"
  have b: "bit ?b i \<longleftrightarrow> (if i = n then v else bit pins i)" for i
    using assms(3) by (cases v; cases "i < 8") (auto simp: bit_simps dest: bit_imp_le_length)
  have "PCF8574_WriteBit sda n v l = PCF8574_WriteOneByte sda ?b l'" by (simp add: PCF8574_WriteBit_def l'(1))
  with PCF8574_WriteOneByte_wire[OF l'(2) assms(2), of ?b] l'(3) b r show ?thesis by (intro conjI exI[of _ ?b]) simp_all
qed

theorem PCF8574_frames_witness:
  "fst (PCF8574_ReadBit (\<lambda>l. expander 0x0B (syms l)) 3 []) \<and>
   syms (PCF8574_WriteBit (\<lambda>l. expander 0x0B (syms l)) 2 True []) = read_frame @ write_frame 0x0F"
proof -
  have i: "idle []" "syms [] = []" by (simp_all add: idle_def syms_def wire_of_def wire0_def)
  have d: "driven_by (expander 0x0B) (\<lambda>l. expander 0x0B (syms l))" by (simp add: driven_by_def)
  from PCF8574_frames[OF i(1) d, of 2 True] obtain b where
    b: "syms (PCF8574_WriteBit (\<lambda>l. expander 0x0B (syms l)) 2 True []) = read_frame @ write_frame b"
    "\<forall>i. bit b i \<longleftrightarrow> (if i = 2 then True else bit (0x0B :: u8) i)" by (auto simp: i(2))
  have "b = 0x0F"
  proof (rule bit_word_eqI)
    fix i assume "i < LENGTH(8)"
    then consider "i = 0" | "i = 1" | "i = 2" | "i = 3" | "i = 4" | "i = 5" | "i = 6" | "i = 7" by fastforce
    then show "bit b i \<longleftrightarrow> bit (0x0F :: u8) i" by cases (simp_all add: b(2))
  qed
  with b(1) PCF8574_frames[OF i(1) d, of 3 True] show ?thesis by auto
qed

lemma wait_ack_loop_ends:
  assumes "c \<le> 250"
  shows "\<exists>k l'. c + k \<le> 250 \<and> l' = l @ replicate k ReadSda \<and> (\<forall>j < k. sda (l @ replicate j ReadSda)) \<and>
    (\<not> sda l' \<and> wait_ack_loop sda (of_nat c) l = (0, l' @ [ReadSda, Scl False]) \<or>
     c + k = 250 \<and> sda l' \<and> wait_ack_loop sda (of_nat c) l = (1, IIC_Stop (l' @ [ReadSda])))"
  using assms
proof (induction "250 - c" arbitrary: c l)
  case 0
  then have "c = 250" by simp
  then show ?case by (cases "sda l") (auto simp: wait_ack_loop.simps[of sda 250] intro!: exI[of _ 0])
next
  case (Suc d)
  then have c: "Suc c \<le> 250" "d = 250 - Suc c" by simp_all
  show ?case
  proof (cases "sda l")
    case False
    then show ?thesis using Suc.prems by (intro exI[of _ 0] exI[of _ l]) (simp add: wait_ack_loop.simps[of sda "of_nat c"])
  next
    case True
    have "unat (of_nat c + 1 :: u8) = Suc c" using c(1) by (simp add: unat_word_ariths unat_of_nat)
    then have "\<not> (250 :: u8) < of_nat c + 1" using c(1) by (simp add: word_less_nat_alt)
    with True have w: "wait_ack_loop sda (of_nat c) l = wait_ack_loop sda (of_nat (Suc c)) (l @ [ReadSda])"
      by (subst wait_ack_loop.simps) (simp add: add.commute)
    from Suc.hyps(1)[OF c(2) c(1), of "l @ [ReadSda]"] obtain k l' where
      k: "Suc c + k \<le> 250" "l' = l @ replicate (Suc k) ReadSda" "\<forall>j < k. sda (l @ replicate (Suc j) ReadSda)"
      "\<not> sda l' \<and> wait_ack_loop sda (of_nat c) l = (0, l' @ [ReadSda, Scl False]) \<or>
       Suc c + k = 250 \<and> sda l' \<and> wait_ack_loop sda (of_nat c) l = (1, IIC_Stop (l' @ [ReadSda]))"
      unfolding w by auto
    moreover have "\<forall>j < Suc k. sda (l @ replicate j ReadSda)" using k(3) True by (auto simp: less_Suc_eq_0_disj)
    ultimately show ?thesis by (intro exI[of _ "Suc k"] exI[of _ l']) auto
  qed
qed

text \<open>
  C35. Waiting for an acknowledge ends, whatever the line does: the answer is 0 after the first read
  that finds the line low, if that is among the first 251 reads, and otherwise 1 with a stop
  condition on the bus.
\<close>

theorem IIC_Wait_Ack_ends:
  "\<exists>k l' l0. l0 = l @ [SdaDir False, Sda True, DelayUs 1, Scl True, DelayUs 1] \<and> k \<le> 250 \<and> l' = l0 @ replicate k ReadSda \<and>
    (\<forall>j < k. sda (l0 @ replicate j ReadSda)) \<and>
    (\<not> sda l' \<and> IIC_Wait_Ack sda l = (0, l' @ [ReadSda, Scl False]) \<or>
     k = 250 \<and> sda l' \<and> IIC_Wait_Ack sda l = (1, IIC_Stop (l' @ [ReadSda])))"
  using wait_ack_loop_ends[of 0 "l @ [SdaDir False, Sda True, DelayUs 1, Scl True, DelayUs 1]" sda]
  unfolding IIC_Wait_Ack_def by auto

theorem IIC_Wait_Ack_ends_witness:
  "fst (IIC_Wait_Ack (\<lambda>_. True) []) = 1 \<and> fst (IIC_Wait_Ack (\<lambda>l. length l < 20) []) = 0"
proof
  show "fst (IIC_Wait_Ack (\<lambda>_. True) []) = 1" using IIC_Wait_Ack_ends[of "[]" "\<lambda>_. True"] by auto
  from IIC_Wait_Ack_ends[of "[]" "\<lambda>l. length l < 20"] show "fst (IIC_Wait_Ack (\<lambda>l. length l < 20) []) = 0" by auto
qed

end
