(* ===== verification/Protect.thy ===== *)
theory Protect
  imports UdpComm
begin

text \<open>
  The protection relay, PH3: set by \<open>LED_Init\<close> of \<^verbatim>\<open>src/HARDWARE/LED/led.c\<close> and dropped by
  \<open>Error_loop\<close> of \<^verbatim>\<open>src/USER/main.c\<close>. PH3 is not a line of the four output groups, so no frame moves it.
\<close>

definition PROTECT :: pin where
  "PROTECT = (GPIOH, 3)"

definition protect :: "board \<Rightarrow> relay_st \<Rightarrow> bool" where
  "protect b0 r = level (board_of b0 r) PROTECT"

text \<open>Events that leave its level.\<close>

definition spares_ev :: "io_event \<Rightarrow> bool" where
  "spares_ev e \<longleftrightarrow> (\<forall>l. level_step e l PROTECT = l PROTECT)"

lemma neutral_spares [simp]: "neutral e \<Longrightarrow> spares_ev e"
  by (simp add: neutral_def spares_ev_def)

lemma spares_ev_pin [simp]:
  "snd p < 16 \<Longrightarrow> spares_ev (write_pin p v) \<longleftrightarrow> p \<noteq> PROTECT"
  "spares_ev (Pout p w) \<longleftrightarrow> p \<noteq> PROTECT"
  unfolding spares_ev_def by (auto simp: level_step_write_pin fun_upd_def) (metis+)?

lemma frame_event_spares: "frame_event e \<Longrightarrow> spares_ev e"
proof -
  have "PROTECT \<notin> set tab_pins"
    by (simp add: PROTECT_def tab_pins_def CHCLK_tab_def RELAYEN_tab_def CTRLBUS_tab_def RESCTRL_tab_def)
  moreover assume "frame_event e"
  ultimately show ?thesis using tab_pins_16 by (auto simp: frame_event_def)
qed

lemma levels_spared: "\<forall>e \<in> set es. spares_ev e \<Longrightarrow> levels_of es l PROTECT = l PROTECT"
  by (induction es arbitrary: l) (simp_all add: spares_ev_def)

lemma protect_emit [simp]: "\<forall>e \<in> set es. spares_ev e \<Longrightarrow> protect b0 (emit es r) = protect b0 r"
  by (simp add: protect_def levels_spared)

lemma protect_extends:
  assumes "extends r r'"
  shows "protect b0 r' = protect b0 r"
proof -
  from assms obtain es where "io r' = io r @ es" "\<forall>e \<in> set es. spares_ev e"
    using frame_event_spares by (auto elim!: extendsE)
  then show ?thesis by (simp add: protect_def board_of_def levels_spared)
qed

end
