(* ===== verification/System.thy ===== *)
theory System
  imports Protect
begin

text \<open>
  \<^verbatim>\<open>src/USER/main.c\<close>: start-up and the tasks. \<open>main_init\<close> is \<open>main\<close> up to the start of the tasks or the
  error stop; \<open>unit_step\<close> is what can happen then, in any order: a UDP packet, a CAN interrupt, a
  round of the CAN, LED or network task, the end of a timed fault. A step that restarts the
  processor (command 0x1C, packet 0xca) or that is undefined ends the run: after a restart, \<open>main\<close>
  begins again with the globals of power-on. Pins and lamps are
  read as arguments; diagnostic output is left out.
\<close>

section \<open>Start-up\<close>

text \<open>\<open>Error_loop\<close> up to its endless loop, which blinks a lamp and leaves the rest of the unit alone.\<close>

definition enter_error :: "'f sys_st \<Rightarrow> 'f sys_st" where
  "enter_error s = sys_emit (Error_loop 0) (s\<lparr>g_Error := 1\<rparr>)"

text \<open>
  The result tells whether the tasks are started; \<open>temp1\<close>, \<open>temp2\<close> are the temperature inputs. The
  set-up of clock, HAL, delay timer, serial port, SDRAM and CAN controller are calls of the vendor
  library; \<open>PCF8574_Init\<close>, \<open>my_mem_init\<close> and \<open>EthMemAlloc\<close> act on the states of the theories
  \<^verbatim>\<open>Iic\<close>, \<^verbatim>\<open>Malloc\<close> and \<^verbatim>\<open>NetMem\<close> and are not repeated here.
\<close>

definition main_init ::
  "'f flash_dev \<Rightarrow> (nat \<Rightarrow> bool) \<Rightarrow> bool \<Rightarrow> bool \<Rightarrow> 'f sys_st \<Rightarrow> (bool \<times> 'f sys_st) res" where
  "main_init dev fuse temp1 temp2 s =
     (let s = set_host (\<lambda>h. GlobalDataInit (ErrorNumInit h)) s in
      bind_res (LED_Init (rel s)) (\<lambda>r.
      let s = s\<lparr>rel := r\<rparr>;
          (rt, es) = Fuse_check fuse;
          s = sys_emit es s in
      if rt \<noteq> 0 then Inr (False, enter_error s)
      else if \<not> temp1 \<or> \<not> temp2 then Inr (False, enter_error s)
      else
        (let s = s\<lparr>net := CanModifiedCheck dev (flash s) (net s)\<rparr>;
             s = s\<lparr>net := IpModifiedCheck dev (flash s) (net s)\<rparr> in
         Inr (True, s))))"

section \<open>Tasks\<close>

definition LED_MCU :: pin where
  "LED_MCU = (GPIOA, 3)"

text \<open>One round of \<open>led_task\<close>; \<open>lamp\<close> is the level of the lamp's output.\<close>

definition led_round :: "bool \<Rightarrow> bool \<Rightarrow> bool \<Rightarrow> 'f sys_st \<Rightarrow> 'f sys_st" where
  "led_round lamp temp1 temp2 s =
     (let s = sys_emit [Pout LED_MCU (of_bool (\<not> lamp))] s in
      if \<not> temp1 \<or> \<not> temp2 then enter_error s else s)"

text \<open>\<open>n\<close> rounds of \<open>CanDataDealTask\<close>; a restart ends them.\<close>

primrec CanDataDealTask :: "(nat \<Rightarrow> bool) \<Rightarrow> nat \<Rightarrow> 'f sys_st \<Rightarrow> 'f sys_st res" where
  "CanDataDealTask fuse 0 s = Inr s"
| "CanDataDealTask fuse (Suc n) s =
     bind_res (HostCanDataAnalysis fuse s) (\<lambda>(r, s). case r of None \<Rightarrow> Inr s | Some _ \<Rightarrow> CanDataDealTask fuse n s)"

text \<open>
  \<open>netinit_task\<close>: bringing the network up, and one round of its loop. \<open>rt\<close> is the result of
  \<open>lwip_comm_init\<close> (0 is \<open>HAL_OK\<close>), \<open>link\<close> the link bit of the PHY, \<open>sftrst\<close> the soft-reset flag of the
  processor; the calls that hand packets and callbacks to lwIP leave the unit's state alone.
\<close>

definition SOFTRSTLED_IO :: nat where
  "SOFTRSTLED_IO = 4"

record netinit_st =
  g_NetInitFine :: u8
  g_arMcuInfoData :: "u8 list"
  g_arMcuInfoDataLen :: u16
  dev_info :: mcuinfo

definition netinit_up :: "u8 \<Rightarrow> u8 list \<Rightarrow> u16 \<Rightarrow> netinit_st \<Rightarrow> netinit_st res" where
  "netinit_up rt junk localPort t =
     (if rt \<noteq> 0 then Inr t
      else
        bind_res (McuInfoInit junk localPort (g_arMcuInfoData t) (dev_info t)) (\<lambda>((buf, len), m).
        Inr (t\<lparr>g_NetInitFine := 1, g_arMcuInfoData := buf, g_arMcuInfoDataLen := of_nat len, dev_info := m\<rparr>)))"

definition netinit_round ::
  "bool \<Rightarrow> u8 \<Rightarrow> bool \<Rightarrow> u8 list \<Rightarrow> netinit_st \<Rightarrow> 'f sys_st \<Rightarrow> (netinit_st \<times> 'f sys_st) res" where
  "netinit_round link rt sftrst junk t s =
     (if g_NetInitFine t = 0 then
        (if \<not> link then Inr (t, s)
         else bind_res (netinit_up rt junk (g_LocalUdpPort (net s)) t) (\<lambda>t. Inr (t, s)))
      else if sftrst then
        Inr (t, sys_emit [Pcf8574Bit SOFTRSTLED_IO True, write_pin (GPIOB, 12) True, DelayMs 500,
          Pcf8574Bit SOFTRSTLED_IO True, write_pin (GPIOB, 12) False] s)
      else Inr (t, s))"

inductive unit_step :: "'f flash_dev \<Rightarrow> 'f sys_st \<Rightarrow> 'f sys_st \<Rightarrow> bool" for dev where
  udp_packet: "udp_echoserver_receive_callback dev fuse payload s = Inr (Some r, s') \<Longrightarrow> unit_step dev s s'"
| can_receive: "HAL_CAN_RxCpltCallback hi (g_LocalCanId_r (net s)) ext data (can s) = Inr c \<Longrightarrow> unit_step dev s (s\<lparr>can := c\<rparr>)"
| can_task: "HostCanDataAnalysis fuse s = Inr (Some r, s') \<Longrightarrow> unit_step dev s s'"
| led_task: "g_Error s = 0 \<Longrightarrow> unit_step dev s (led_round lamp temp1 temp2 s)"
| netinit_task: "netinit_round link rt sftrst junk t s = Inr (t', s') \<Longrightarrow> unit_step dev s s'"
| tim2: "unit_step dev s (tim2_expired s)"

inductive_cases unit_stepE: "unit_step dev s s'"

section \<open>What the branches leave alone\<close>

text \<open>The error flag, the CAN ring and the protection relay.\<close>

definition same_guard :: "'f sys_st \<Rightarrow> 'f sys_st \<Rightarrow> bool" where
  "same_guard s s' \<longleftrightarrow> g_Error s' = g_Error s \<and> can s' = can s \<and> (\<forall>b0. protect b0 (rel s') = protect b0 (rel s))"

definition keeps_unit :: "('f sys_st \<Rightarrow> 'f sys_st res) \<Rightarrow> bool" where
  "keeps_unit f \<longleftrightarrow> (\<forall>s s'. f s = Inr s' \<longrightarrow> same_guard s s')"

named_theorems keeps_intros "routines that leave the error flag, the ring and the protection relay alone"

lemma keeps_unitD: "keeps_unit f \<Longrightarrow> f s = Inr s' \<Longrightarrow> same_guard s s'"
  by (simp add: keeps_unit_def)

lemma same_guard_trans: "same_guard s s1 \<Longrightarrow> same_guard s1 s' \<Longrightarrow> same_guard s s'"
  by (simp add: same_guard_def)

lemma same_guard_simps [simp]:
  "same_guard s s" "same_guard s (set_host f s)" "same_guard s (reply_byte k v s)" "same_guard s (can_reply s)"
  "same_guard s (clear_config s)" "same_guard s (s\<lparr>host := h\<rparr>)" "same_guard s (s\<lparr>flash := x\<rparr>)"
  "\<forall>e \<in> set es. spares_ev e \<Longrightarrow> same_guard s (sys_emit es s)"
  by (simp_all add: same_guard_def)

lemma same_guard_into [simp]:
  "same_guard s (set_host f s') = same_guard s s'" "same_guard s (reply_byte k v s') = same_guard s s'"
  "same_guard s (can_reply s') = same_guard s s'" "same_guard s (clear_config s') = same_guard s s'"
  "same_guard s (s'\<lparr>tim10_ready := t\<rparr>) = same_guard s s'" "same_guard s (s'\<lparr>tim2_ready := t\<rparr>) = same_guard s s'"
  "\<forall>e \<in> set es. spares_ev e \<Longrightarrow> same_guard s (sys_emit es s') = same_guard s s'"
  by (simp_all add: same_guard_def)

lemma keeps_bind [keeps_intros]: "keeps_unit f \<Longrightarrow> keeps_unit g \<Longrightarrow> keeps_unit (\<lambda>s. bind_res (f s) g)"
  unfolding keeps_unit_def bind_res_eq_Inr using same_guard_trans by metis

lemma keeps_step: "(\<And>s. same_guard s (f s)) \<Longrightarrow> keeps_unit (\<lambda>s. Inr (f s))"
  by (simp add: keeps_unit_def)

lemma keeps_pre: "(\<And>s. same_guard s (f s)) \<Longrightarrow> keeps_unit g \<Longrightarrow> keeps_unit (\<lambda>s. g (f s))"
  unfolding keeps_unit_def using same_guard_trans by metis

lemma timers_spared [simp]:
  "\<forall>e \<in> set (stop_timers s). spares_ev e" "\<forall>e \<in> set pwm_release. spares_ev e"
  "\<forall>e \<in> set (TIM10_PWM_Init a p c). spares_ev e" "\<forall>e \<in> set (TIM2_Init b q). spares_ev e"
  "\<forall>e \<in> set (HAL_TIM_PeriodElapsedCallback t l). spares_ev e" "\<forall>e \<in> set (snd (Fuse_check fuse)). spares_ev e"
  by (auto simp: stop_timers_def stop_tim10_def stop_tim2_def pwm_release_def TIM10_PWM_Init_def TIM2_Init_def HAL_TIM_PWM_MspInit_def
      HAL_TIM_PeriodElapsedCallback_def Fuse_check_def PF6_def PROTECT_def split: if_splits)

lemma keeps_sys_frame [keeps_intros]: "keeps_unit sys_frame"
  using protect_extends[OF logsD[OF logs_FiuCom]] by (auto simp: keeps_unit_def sys_frame_def same_guard_def)

lemma keeps_config: "keeps_unit (do_config k)" "keeps_unit (can_config k)"
  by (auto simp: keeps_unit_def can_config_def do_config_def Let_def split: if_splits)

lemma keeps_udp_config_done: "keeps_unit (\<lambda>s. Inr (udp_config_done s))"
  by (auto simp: keeps_unit_def udp_config_done_def Let_def case_prod_beta same_guard_def)

lemma keeps_start [keeps_intros]: "keeps_unit startFault" "keeps_unit udp_start" "keeps_unit can_start"
proof -
  have pwm: "keeps_unit (\<lambda>s. if g_bLoose (host s) = 1 then bind_res (pwm_arr (g_Pfreq (host s))) (\<lambda>arr.
       Inr (sys_emit (TIM10_PWM_Init arr (180 * 100) (ucast (pwm_ccr (g_Pduty (host s)) arr))) s\<lparr>tim10_ready := True\<rparr>)) else Inr s)"
    by (auto simp: keeps_unit_def split: if_splits)
  have tim: "keeps_unit (\<lambda>s. Inr (if g_Ptime (host s) > 0 then
      sys_emit (TIM2_Init (ucast (g_Ptime (host s)) * 2) (90 * 500)) s\<lparr>tim2_ready := True\<rparr> else s))"
    by (rule keeps_step) simp
  show st: "keeps_unit startFault"
    unfolding startFault_def Let_def
    by (rule keeps_pre[where g = "\<lambda>s. bind_res (sys_frame s) k" for k]) (simp, intro keeps_bind keeps_sys_frame pwm tim)
  show "keeps_unit udp_start" "keeps_unit can_start"
    unfolding udp_start_def can_start_def by (intro keeps_bind st keeps_step; simp)+
qed

lemma keeps_reset_prefix: "same_guard s (set_host reset_frame (sys_emit (stop_timers s @ pwm_release) s))"
  by (simp add: ball_Un)

lemma keeps_reset:
  shows "keeps_unit (udp_reset :: 'f sys_st \<Rightarrow> _)" and "keeps_unit (can_reset :: 'f sys_st \<Rightarrow> _)"
proof -
  note pre = keeps_reset_prefix
  have re: "keeps_unit (\<lambda>s :: 'f sys_st. Inr (if g_Error s \<noteq> 0 then reply_byte 2 (g_Error s) s else clear_config (reply_byte 2 0 s)))"
    "keeps_unit (\<lambda>s :: 'f sys_st. Inr (if g_Error s \<noteq> 0 then can_reply (reply_byte 2 (g_Error s) s) else clear_config (can_reply (reply_byte 2 0 s))))"
    by (rule keeps_step; simp)+
  show "keeps_unit (can_reset :: 'f sys_st \<Rightarrow> _)"
    unfolding can_reset_def by (rule keeps_pre[OF pre]) (intro keeps_bind keeps_sys_frame re)
  show "keeps_unit (udp_reset :: 'f sys_st \<Rightarrow> _)"
    unfolding udp_reset_def Let_def
  proof (rule keeps_pre[OF pre])
    show "keeps_unit (\<lambda>s :: 'f sys_st. bind_res (sys_frame (if g_Ptime (host s) > 0 then sys_emit [if tim2_ready s then Tim2StopIT else NullTimer 2] s else s)) (\<lambda>s.
        Inr (if g_Error s \<noteq> 0 then reply_byte 2 (g_Error s) s else clear_config (reply_byte 2 0 s))))"
      by (rule keeps_pre[where g = "\<lambda>s. bind_res (sys_frame s) k" for k]) (simp, intro keeps_bind keeps_sys_frame re)
  qed
qed

lemma keeps_reply_fold: "same_guard s' (fold (\<lambda>i. reply_byte (3 + i) (v i)) ns s) = same_guard s' s"
  by (induction ns arbitrary: s) simp_all

lemma keeps_fuses: "keeps_unit (udp_fuses fuse)" "keeps_unit (can_fuses fuse)"
  by (auto simp: keeps_unit_def udp_fuses_def can_fuses_def Let_def case_prod_beta reply_fuses_def keeps_reply_fold
      simp del: fold_simps upt_rec_numeral split: if_splits)

lemma keeps_record: "keeps_unit (udp_record dev addr)"
  by (auto simp: keeps_unit_def udp_record_def same_guard_def split: if_splits)

lemma keeps_status: "keeps_unit can_status"
  by (auto simp: keeps_unit_def can_status_def)

lemmas keeps_branches = keeps_config keeps_udp_config_done keeps_start keeps_reset keeps_fuses keeps_record keeps_status

lemma keeps_tables:
  "\<forall>(c, m, f) \<in> set (udp_branches dev fuse). keeps_unit f" "\<forall>(c, m, f) \<in> set (can_branches fuse). keeps_unit f"
  by (simp_all add: udp_branches_def can_branches_def keeps_branches)

section \<open>Steps keep the invariant\<close>

context message_handler
begin

text \<open>The loop over a packet keeps the invariant, whatever the packet holds.\<close>

lemma slice_loop_ok:
  "ok s \<Longrightarrow> slice_loop handle n k buf s = Inr (r, s') \<Longrightarrow> ok s'"
proof (induction n arbitrary: k buf s)
  case (Suc n)
  then have k: "k + 8 \<le> length buf" by (auto split: if_splits)
  with Suc.prems(2) obtain d s1 where d: "handle (take 8 (drop k buf)) s = Inr (d, s1)" by auto
  have "length (take 8 (drop k buf)) = 8" using k by simp
  from handle_ok[OF Suc.prems(1) this d] have "ok s1" by blast
  with Suc k d show ?case by (cases d) auto
qed simp

end

lemma udp_handler_unit:
  assumes "sys_ok b0 s" "length m = 8" "HostCanDataAnalysisNoLoopBuf dev fuse m s = Inr (r, s')"
  shows "same_guard s s'"
proof -
  define s0 where "s0 = set_host (\<lambda>h. h\<lparr>g_DataFromHost := m\<rparr>) s"
  have s0: "same_guard s s0" by (simp add: s0_def)
  let ?run = "case map_of (udp_branches dev fuse) (m ! 0) of
      Some (q, f) \<Rightarrow> if q \<longrightarrow> g_WorkMode (host s) = m ! 1 then f s0 else Inr s0 | None \<Rightarrow> Inr s0"
  from assms(3) have "s' = sys_emit [SystemReset] s0 \<or> ?run = Inr s'"
    unfolding udp_dispatch[OF assms(1,2) s0_def] by (cases ?run) (simp_all split: if_split_asm)
  moreover have ?thesis if run: "?run = Inr s'"
  proof (cases "map_of (udp_branches dev fuse) (m ! 0)")
    case (Some x)
    obtain q f where x: "x = (q, f)" by fastforce
    with map_of_SomeD[OF Some] keeps_tables(1)[of dev fuse] have f: "keeps_unit f" by auto
    from run have "f s0 = Inr s' \<or> s' = s0" unfolding Some x by (simp split: if_split_asm)
    with keeps_unitD[OF f] s0 same_guard_trans show ?thesis by metis
  qed (use run s0 in simp)
  ultimately show ?thesis using s0 by auto
qed

interpretation um: message_handler "HostCanDataAnalysisNoLoopBuf dev fuse" "\<lambda>s. sys_ok b0 s \<and> same_guard u s"
  for dev fuse b0 u
  by unfold_locales (use udp_handler_keeps udp_handler_unit same_guard_trans in metis)

lemma udp_callback_keeps:
  assumes "sys_ok b0 s" "udp_echoserver_receive_callback dev fuse payload s = Inr (Some r, s')"
  shows "sys_ok b0 s' \<and> same_guard s s'"
proof -
  from assms(2) have "length payload \<le> 128"
    by (auto simp: udp_echoserver_receive_callback_def store_bytes_def COMM_LEN_def split: if_splits)
  note rx = rx_store[OF this] and ip = ip_record_overflows[OF length_rx_buf[OF this]]
  from assms(2) consider "s' = s" | n r' where "FiuRelayPinActive dev fuse 10 n (rx_buf payload) s = Inr (r', s')"
    by (auto simp: udp_echoserver_receive_callback_def rx ip Let_def split: if_splits)
  then show ?thesis
  proof cases
    case (2 n r')
    with um.slice_loop_ok[of b0 s s] assms(1) show ?thesis by (simp add: FiuRelayPinActive_def)
  qed (use assms(1) in simp)
qed

text \<open>A poll of the CAN task that returns takes one message, if there is one, and no more.\<close>

definition same_poll :: "'f sys_st \<Rightarrow> 'f sys_st \<Rightarrow> bool" where
  "same_poll s s' \<longleftrightarrow> g_Error s' = g_Error s \<and> (\<forall>b0. protect b0 (rel s') = protect b0 (rel s)) \<and>
     can s' = (if ring_pending (can s) then ring_release (can s) else can s) \<and> g_WorkMode (host s') = g_WorkMode (host s)"

lemma can_config_done_unit:
  "g_Error (snd (can_config_done s)) = g_Error s \<and> (\<forall>b0. protect b0 (rel (snd (can_config_done s))) = protect b0 (rel s)) \<and>
   can (snd (can_config_done s)) = (if fst (can_config_done s) = None then can s else ring_release (can s))"
  by (simp add: can_config_done_def Let_def case_prod_beta)

lemma can_handler_unit:
  assumes "sys_ok b0 s" "HostCanDataAnalysis fuse s = Inr (Some r, s')"
  shows "sys_ok b0 s' \<and> same_poll s s'"
proof (cases "ring_pending (can s)")
  case True
  define s0 where "s0 = set_host (\<lambda>h. h\<lparr>g_DataFromHost := ring_peek (can s)\<rparr>) s"
  have s0: "sys_ok b0 s0" "same_guard s s0" "g_WorkMode (host s0) = g_WorkMode (host s)"
    using assms(1) by (simp_all add: s0_def sys_ok_def ring_peek_def)
  have wm: "g_WorkMode (host u) = g_WorkMode (host s)" if "msg_key u = msg_key s0" for u :: "'a sys_st"
    using that s0(3) by (simp add: msg_key_def)
  note cd = can_config_done_unit[of s0] can_config_done_ok(1)[OF s0(1)] wm[OF can_config_done_ok(2)[OF s0(1)]]
  consider "s' = can_release s0"
    | "s' = snd (can_config_done s0)" "fst (can_config_done s0) \<noteq> None"
    | "s' = can_release (snd (can_config_done s0))" "fst (can_config_done s0) = None"
    | c q f s1 where "(c, q, f) \<in> set (can_branches fuse)" "f s0 = Inr s1" "s' = can_release s1"
    using assms(2) unfolding can_dispatch[OF assms(1) True refl s0_def]
    by (auto split: if_splits option.splits prod.splits dest!: map_of_SomeD)
  then show ?thesis
  proof cases
    case (4 c q f s1)
    with can_branches_ok(2)[of fuse b0] keeps_tables(2)[of fuse] have "stable b0 f" "keeps_unit f" by auto
    from stableD[OF this(1) s0(1) 4(2)] keeps_unitD[OF this(2) 4(2)] 4(3) s0 True wm[of s1] show ?thesis
      by (simp add: same_poll_def same_guard_def)
  qed (use True s0 cd in \<open>auto simp: same_poll_def same_guard_def\<close>)
qed (use assms in \<open>simp add: HostCanDataAnalysis_def same_poll_def\<close>)

text \<open>Configuration done, spelled out.\<close>

lemma can_config_done_cases:
  assumes "sys_ok b0 s" "d = g_DataFromHost (host s)"
    and "t = push_bit 8 (ucast (d ! 2)) OR ucast (d ! 3)" "s1 = set_host (\<lambda>h. h\<lparr>g_Ptime := t\<rparr>) s"
  shows "can_config_done s =
    (if g_Error s \<noteq> 0 then (None, can_reply (reply_byte 2 (g_Error s) s1))
     else if 65500 < t then (Some 0, clear_config (can_release (can_reply (reply_byte 2 0x82 s1))))
     else (Some 1, set_host FIU_Cmd0_CurPinFlag_init (can_release (can_reply (reply_byte 2 0
       (set_host (\<lambda>h. h\<lparr>g_bTime := 1, g_FiuByte17Data := packed_frame h\<rparr>) s1))))))"
proof -
  have s1: "sys_ok b0 s1" using assms(1,4) by (simp add: sys_ok_def)
  then have h: "host_wf (host s1)" by (simp add: sys_ok_def)
  have e: "g_HostConfigErr (host s1) ! 1 = 0x82" "g_HostConfigPass (host s1) = 0" using h by (simp_all add: host_wf_def)
  define s2 where "s2 = set_host (\<lambda>h. h\<lparr>g_bTime := 1\<rparr>) s1"
  have s2: "sys_ok b0 s2" using s1 by (simp add: s2_def sys_ok_def)
  have pf: "packed_frame (h\<lparr>g_bTime := 1\<rparr>) = packed_frame h" for h by (simp add: packed_frame_def)
  have t1: "g_Ptime (host s1) = t" "g_Error s1 = g_Error s" using assms(4) by simp_all
  have s3: "s2\<lparr>host := (host s2)\<lparr>g_FiuByte17Data := packed_frame (host s2)\<rparr>\<rparr> =
      set_host (\<lambda>h. h\<lparr>g_bTime := 1, g_FiuByte17Data := packed_frame h\<rparr>) s1"
    by (simp add: s2_def set_host_def pf)
  show ?thesis
    unfolding can_config_done_def Let_def assms(2)[symmetric] assms(3)[symmetric] assms(4)[symmetric] s2_def[symmetric]
      config_packs[OF s2] t1
    using e by (simp add: s3) (simp add: s2_def)
qed

text \<open>
  C18. The CAN handler on a pending message: it takes the oldest message and runs the table entry of its
  command byte if the work mode matches. Configuration done stores the time, high byte first, then
  replies the error, or rejects a time above 65500 with code 0x82 and clears the configuration, or
  packs the frame and opens a new session. Whenever the handler returns, on every branch, it has
  released the message's slot exactly once; a restart does not return and releases nothing.
\<close>

theorem can_handler_cases:
  assumes "sys_ok b0 s" "ring_pending (can s)" "d = ring_peek (can s)" "s0 = set_host (\<lambda>h. h\<lparr>g_DataFromHost := d\<rparr>) s"
    and "t = push_bit 8 (ucast (d ! 2)) OR ucast (d ! 3)" "s1 = set_host (\<lambda>h. h\<lparr>g_Ptime := t\<rparr>) s0"
  shows "HostCanDataAnalysis fuse s =
    (if g_WorkMode (host s) \<noteq> d ! 1 then Inr (Some 1, can_release s0)
     else if d ! 0 = 5 then
       Inr (if g_Error s \<noteq> 0 then (Some 1, can_release (can_reply (reply_byte 2 (g_Error s) s1)))
        else if 65500 < t then (Some 0, clear_config (can_release (can_reply (reply_byte 2 0x82 s1))))
        else (Some 1, set_host FIU_Cmd0_CurPinFlag_init (can_release (can_reply (reply_byte 2 0
          (set_host (\<lambda>h. h\<lparr>g_bTime := 1, g_FiuByte17Data := packed_frame h\<rparr>) s1))))))
     else if d ! 0 = 0x1C then Inr (None, sys_emit [SystemReset] s0)
     else bind_res (case map_of (can_branches fuse) (d ! 0) of Some (m, f) \<Rightarrow> f s0 | None \<Rightarrow> Inr s0)
       (\<lambda>s. Inr (Some 1, can_release s))) \<and>
    (\<forall>r s'. HostCanDataAnalysis fuse s = Inr (r, s') \<longrightarrow> can s' = (if r = None then can s else ring_release (can s)))"
proof
  have s0: "sys_ok b0 s0" "d = g_DataFromHost (host s0)" "g_Error s0 = g_Error s"
    using assms(1,3,4) by (simp_all add: sys_ok_def ring_peek_def)
  note disp = can_dispatch[OF assms(1-4), of fuse] and cd = can_config_done_cases[OF s0(1,2) assms(5,6)]
  show "HostCanDataAnalysis fuse s =
    (if g_WorkMode (host s) \<noteq> d ! 1 then Inr (Some 1, can_release s0)
     else if d ! 0 = 5 then
       Inr (if g_Error s \<noteq> 0 then (Some 1, can_release (can_reply (reply_byte 2 (g_Error s) s1)))
        else if 65500 < t then (Some 0, clear_config (can_release (can_reply (reply_byte 2 0x82 s1))))
        else (Some 1, set_host FIU_Cmd0_CurPinFlag_init (can_release (can_reply (reply_byte 2 0
          (set_host (\<lambda>h. h\<lparr>g_bTime := 1, g_FiuByte17Data := packed_frame h\<rparr>) s1))))))
     else if d ! 0 = 0x1C then Inr (None, sys_emit [SystemReset] s0)
     else bind_res (case map_of (can_branches fuse) (d ! 0) of Some (m, f) \<Rightarrow> f s0 | None \<Rightarrow> Inr s0)
       (\<lambda>s. Inr (Some 1, can_release s)))"
    unfolding disp cd s0(3) by simp
  show "\<forall>r s'. HostCanDataAnalysis fuse s = Inr (r, s') \<longrightarrow> can s' = (if r = None then can s else ring_release (can s))"
  proof (intro allI impI)
    fix r s' assume run: "HostCanDataAnalysis fuse s = Inr (r, s')"
    show "can s' = (if r = None then can s else ring_release (can s))"
    proof (cases r)
      case None
      with run have "s' = sys_emit [SystemReset] s0"
        unfolding disp by (auto split: if_splits option.splits prod.splits)
      then show ?thesis using None assms(4) by simp
    next
      case (Some x)
      with can_handler_unit[OF assms(1)] run assms(2) show ?thesis by (auto simp: same_poll_def)
    qed
  qed
qed

theorem can_handler_cases_witness:
  "\<exists>s'. HostCanDataAnalysis (\<lambda>_. True) (sys0\<lparr>can := status_ring\<rparr>) = Inr (Some 1, s') \<and>
     g_DataFromHost (host s') = [0x1D, 0, 0, 7, 7, 7, 7, 7] \<and> \<not> ring_pending (can s')"
proof -
  have ring: "ring_wf status_ring" "ring_pending status_ring" "ring_peek status_ring = [0x1D, 0, 7, 7, 7, 7, 7, 7]"
    "\<not> ring_pending (ring_release status_ring)"
    by (simp_all add: ring_wf_def status_ring_def can_zero_def ring_pending_def ring_peek_def ring_release_def upt_rec)
  then have "sys_ok board0 (sys0\<lparr>can := status_ring\<rparr>)" using sys0_ok(1) by (simp add: sys_ok_def)
  moreover have "g_workStatus (host sys0) = 0"
    by (simp add: sys0_def host_init_def GlobalDataInit_def ErrorNumInit_def host_zero_def)
  ultimately show ?thesis
    using can_handler_cases[of board0 "sys0\<lparr>can := status_ring\<rparr>" _ _ _ _ "\<lambda>_. True", OF _ _ refl refl refl refl] sys0_ok(2,3) ring
    by (simp add: can_branches_def can_status_def)
qed

section \<open>Start-up\<close>

text \<open>Events on pins outside the four output groups do not show in the view.\<close>

definition aside :: "io_event \<Rightarrow> bool" where
  "aside e \<longleftrightarrow> (\<forall>l. \<forall>p \<in> set tab_pins. level_step e l p = l p)"

lemma aside_pin [simp]: "snd p < 16 \<Longrightarrow> p \<notin> set tab_pins \<Longrightarrow> aside (write_pin p v)"
  by (auto simp: aside_def level_step_write_pin)

lemma neutral_aside [simp]: "neutral e \<Longrightarrow> aside e"
  by (simp add: neutral_def aside_def)

lemma aside_quiet: "aside e \<Longrightarrow> clk_quiet e"
  using pin_in_tab(1) unfolding aside_def clk_quiet_def tab_pins_def by auto

lemma levels_aside: "\<forall>e \<in> set es. aside e \<Longrightarrow> p \<in> set tab_pins \<Longrightarrow> levels_of es l p = l p"
  by (induction es arbitrary: l) (simp_all add: aside_def)

lemma view_aside:
  assumes "\<forall>e \<in> set es. aside e"
  shows "view b0 (emit es r) = view b0 r"
proof -
  have "CTRLBUS (Suc i) \<in> set tab_pins" if "i < 17" for i using that pin_in_tab(3) by (simp add: tab_pins_def)
  moreover have "RESCTRL (Suc i) \<in> set tab_pins" if "i < 15" for i using that pin_in_tab(4) by (simp add: tab_pins_def)
  ultimately show ?thesis
    using dq_out_quiet[of es "board_of b0 r"] aside_quiet assms
    by (simp add: view_def bus_levels_def res_levels_def levels_aside[OF assms] del: upt_rec_numeral)
qed

lemma stop_events_aside:
  "\<forall>e \<in> set (snd (Fuse_check fuse)). aside e" "\<forall>e \<in> set (Error_loop 0). aside e"
  by (simp_all add: Fuse_check_def Error_loop_def tab_pins_def CHCLK_tab_def RELAYEN_tab_def CTRLBUS_tab_def RESCTRL_tab_def)

lemma levels_Error_loop: "levels_of (Error_loop 0) l = l(PROTECT := False, (GPIOB, 12) := True)"
  by (simp add: Error_loop_def level_step_write_pin PROTECT_def)

lemma enter_error_ok:
  assumes "sys_ok b0 s"
  shows "sys_ok b0 (enter_error s)" "g_Error (enter_error s) = 1" "\<not> protect b0 (rel (enter_error s))"
    "level (board_of b0 (rel (enter_error s))) (GPIOB, 12)" "view b0 (rel (enter_error s)) = view b0 (rel s)"
    "host (enter_error s) = host s" "can (enter_error s) = can s"
proof -
  show "sys_ok b0 (enter_error s)"
    using sys_ok_emit[of b0 "s\<lparr>g_Error := 1\<rparr>" "Error_loop 0"] assms stop_events_aside(2) aside_quiet
    by (auto simp: enter_error_def sys_ok_def)
  show "view b0 (rel (enter_error s)) = view b0 (rel s)" by (simp add: enter_error_def view_aside stop_events_aside)
qed (simp_all add: enter_error_def protect_def levels_Error_loop PROTECT_def)

lemma LED_Init_protect:
  assumes "LED_Init r = Inr r'"
  shows "protect b0 r'"
proof -
  let ?r = "emit (led_ports_AE @ led_ports_FI @ led_port_H) r"
  from assms obtain r1 where "Sn74374_Set0 ?r = Inr r1" "r' = HV_FunRelay_Set 0 r1"
    unfolding LED_Init_def bind_res_eq_Inr by auto
  then have "extends ?r r'" using logsD[OF logs_Set0] by simp
  from protect_extends[OF this] have "protect b0 r' = protect b0 ?r" .
  also have "protect b0 ?r"
    unfolding protect_def by (simp add: led_port_H_def level_step_write_pin PROTECT_def CH_EN_def)
  finally show ?thesis by simp
qed

text \<open>The globals at power-on: their initialisers, and zero.\<close>

definition power_on :: "'f \<Rightarrow> 'f sys_st" where
  "power_on f = \<lparr>host = host_zero, rel = relay_init, can = can_zero, flash = f, net = net0, g_Error = 0,
     tim10_ready = False, tim2_ready = False\<rparr>"

lemma main_init_spec:
  "\<exists>run s'. main_init dev fuse temp1 temp2 (power_on f) = Inr (run, s') \<and> sys_ok b0 s' \<and>
     view b0 (rel s') = idle_view \<and> cfg_empty (host s') \<and> session_fresh (host s') \<and> ring_content (can s') = [] \<and>
     (run \<longleftrightarrow> list_all fuse [1..<6] \<and> temp1 \<and> temp2) \<and> protect b0 (rel s') = run \<and>
     g_Error s' = of_bool (\<not> run) \<and> (run \<or> level (board_of b0 (rel s')) (GPIOB, 12))"
proof -
  from LED_Init_view[OF relay_wf_init, of b0] obtain r where
    r: "LED_Init relay_init = Inr r" "good b0 r" "view b0 r = idle_view" by (auto simp: good_def)
  define s1 where "s1 = sys_emit (snd (Fuse_check fuse)) (set_host (\<lambda>h. GlobalDataInit (ErrorNumInit h)) (power_on f)\<lparr>rel := r\<rparr>)"
  have h1: "host s1 = host_init" "can s1 = can_zero" "g_Error s1 = 0" by (simp_all add: s1_def power_on_def host_init_def)
  have "good b0 (rel s1)" using r(2) quiet_events(6)[of fuse] by (auto simp: s1_def intro!: good_quiet)
  then have ok: "sys_ok b0 s1" using h1 host_init_ok can_zero_wf by (simp add: sys_ok_def)
  have v1: "view b0 (rel s1) = idle_view" using r(3) by (simp add: s1_def view_aside stop_events_aside)
  have p1: "protect b0 (rel s1)" using LED_Init_protect[OF r(1)] by (simp add: s1_def)
  let ?s2 = "s1\<lparr>net := IpModifiedCheck dev (flash s1) (CanModifiedCheck dev (flash s1) (net s1))\<rparr>"
  have eq: "main_init dev fuse temp1 temp2 (power_on f) =
      Inr (if list_all fuse [1..<6] \<and> temp1 \<and> temp2 then (True, ?s2) else (False, enter_error s1))"
    using r(1) unfolding main_init_def Let_def case_prod_beta Fuse_check_zero[symmetric]
    by (simp add: power_on_def s1_def Let_def)
  note err = enter_error_ok[OF ok]
  show ?thesis
  proof (cases "list_all fuse [1..<6] \<and> temp1 \<and> temp2")
    case True
    have "sys_ok b0 ?s2" using ok by (simp add: sys_ok_def)
    with True show ?thesis unfolding eq using h1 v1 p1 host_init_ok can_zero_wf
      by (intro exI[of _ True] exI[of _ ?s2]) simp
  next
    case False
    then show ?thesis unfolding eq using h1 v1 err host_init_ok can_zero_wf
      by (intro exI[of _ False] exI[of _ "enter_error s1"]) simp
  qed
qed

text \<open>
  C38. Start-up, from any board state: it never faults, ends with every relay, bus relay and
  resistor line open, an empty configuration and an empty CAN ring, and starts the tasks exactly
  when all five fuses are whole and both temperature inputs are high. The protection relay is
  then closed; otherwise the error flag is set, the protection relay is open and the buzzer on.
\<close>

theorem main_init_outcome:
  "\<exists>run s'. main_init dev fuse temp1 temp2 (power_on f) = Inr (run, s') \<and> sys_ok b0 s' \<and>
     view b0 (rel s') = idle_view \<and> cfg_empty (host s') \<and> session_fresh (host s') \<and> ring_content (can s') = [] \<and>
     (run \<longleftrightarrow> list_all fuse [1..<6] \<and> temp1 \<and> temp2) \<and> protect b0 (rel s') = run \<and>
     g_Error s' = of_bool (\<not> run) \<and> (run \<or> level (board_of b0 (rel s')) (GPIOB, 12))"
  by (rule main_init_spec)

section \<open>Runs\<close>

text \<open>The invariant of a running unit: well-formed, and protected exactly while there is no error.\<close>

definition unit_inv :: "board \<Rightarrow> 'f sys_st \<Rightarrow> bool" where
  "unit_inv b0 s \<longleftrightarrow> sys_ok b0 s \<and> (protect b0 (rel s) \<longleftrightarrow> g_Error s = 0)"

lemma led_round_inv:
  assumes "unit_inv b0 s" "g_Error s = 0"
  shows "unit_inv b0 (led_round lamp temp1 temp2 s)"
proof -
  let ?s = "sys_emit [Pout LED_MCU (of_bool (\<not> lamp))] s"
  have "LED_MCU \<noteq> CHCLK (Suc k)" if "k < 14" for k
  proof -
    have "LED_MCU \<notin> set CHCLK_tab" by (simp add: LED_MCU_def CHCLK_tab_def)
    with pin_in_tab(1)[OF that] show ?thesis by metis
  qed
  then have "clk_quiet (Pout LED_MCU w)" for w unfolding clk_quiet_def by (metis level_step_Pout fun_upd_other)
  with assms(1) have "sys_ok b0 ?s" by (auto simp: unit_inv_def intro: sys_ok_emit)
  moreover have "LED_MCU \<noteq> PROTECT" by (simp add: LED_MCU_def PROTECT_def)
  ultimately have ok: "unit_inv b0 ?s" using assms(1) by (simp add: unit_inv_def)
  then show ?thesis using enter_error_ok[of b0 ?s] by (simp add: led_round_def Let_def unit_inv_def)
qed

lemma netinit_round_inv:
  assumes "netinit_round link rt sftrst junk t s = Inr (t', s')" "sys_ok b0 s"
  shows "sys_ok b0 s' \<and> same_guard s s'"
proof -
  let ?es = "[Pcf8574Bit SOFTRSTLED_IO True, write_pin (GPIOB, 12) True, DelayMs 500,
    Pcf8574Bit SOFTRSTLED_IO True, write_pin (GPIOB, 12) False]"
  have "\<forall>e \<in> set ?es. clk_quiet e" "\<forall>e \<in> set ?es. spares_ev e"
    by (simp_all add: clk_quiet_pin CHCLK_tab_def PROTECT_def)
  moreover from assms(1) have "s' = s \<or> s' = sys_emit ?es s"
    by (auto simp: netinit_round_def split: if_splits)
  ultimately show ?thesis using sys_ok_emit[OF assms(2), of ?es] assms(2) by auto
qed

lemma unit_step_inv:
  assumes "unit_step dev s s'" "unit_inv b0 s"
  shows "unit_inv b0 s' \<and> (g_Error s \<noteq> 0 \<longrightarrow> g_Error s' \<noteq> 0)"
  using assms(1)
proof cases
  case (udp_packet fuse payload r)
  with udp_callback_keeps assms(2) show ?thesis by (fastforce simp: unit_inv_def same_guard_def)
next
  case (can_receive hi ext data c)
  with ring_wf_receive[of "can s" hi "g_LocalCanId_r (net s)" ext data] assms(2) show ?thesis
    by (auto simp: unit_inv_def sys_ok_def)
next
  case (can_task fuse r)
  with can_handler_unit assms(2) show ?thesis by (fastforce simp: unit_inv_def same_poll_def)
next
  case (led_task lamp temp1 temp2)
  with led_round_inv[OF assms(2)] show ?thesis by simp
next
  case (netinit_task link rt sftrst junk t t')
  with netinit_round_inv assms(2) show ?thesis by (fastforce simp: unit_inv_def same_guard_def)
next
  case tim2
  with assms(2) quiet_events(5)[of "tim10_ready s" "g_bLoose (host s)"] show ?thesis
    by (auto simp: unit_inv_def tim2_expired_def sys_ok_def intro!: good_quiet)
qed

lemma unit_run_inv:
  assumes "(unit_step dev)\<^sup>*\<^sup>* s s'" "unit_inv b0 s"
  shows "unit_inv b0 s' \<and> (g_Error s \<noteq> 0 \<longrightarrow> g_Error s' \<noteq> 0)"
  using assms by (induction rule: rtranclp_induct) (use unit_step_inv in blast)+

text \<open>
  C39. Every run: from a successful start-up, whatever packets, CAN messages, rounds of the tasks and
  timer expiries follow in whatever order, every array keeps its declared length, the ring cursors
  stay in range and aligned, the shadow copies of the relay registers agree with the board, and
  the protection relay is closed exactly while there is no error. An error is never cleared, except by
  a restart, which ends the run, as does a step that is undefined.
\<close>

theorem runs_stay_well_formed:
  assumes "main_init dev fuse temp1 temp2 (power_on f) = Inr (True, s0)"
    and "(unit_step dev)\<^sup>*\<^sup>* s0 s" "(unit_step dev)\<^sup>*\<^sup>* s s'"
  shows "sys_ok b0 s' \<and> (protect b0 (rel s') \<longleftrightarrow> g_Error s' = 0) \<and> (g_Error s \<noteq> 0 \<longrightarrow> g_Error s' \<noteq> 0)"
proof -
  from main_init_spec[of dev fuse temp1 temp2 f b0] assms(1) have "unit_inv b0 s0" by (auto simp: unit_inv_def)
  with unit_run_inv[OF assms(2)] have "unit_inv b0 s" by blast
  from unit_run_inv[OF assms(3) this] show ?thesis by (simp add: unit_inv_def)
qed

theorem runs_stay_well_formed_witness:
  "\<exists>s0. main_init nor_dev (\<lambda>_. True) True True (power_on blank) = Inr (True, s0) \<and>
     \<not> protect board0 (rel (tim2_expired (led_round False False True s0)))"
proof -
  from main_init_spec[of nor_dev "\<lambda>_. True" True True blank board0] obtain s0 where
    s0: "main_init nor_dev (\<lambda>_. True) True True (power_on blank) = Inr (True, s0)" "g_Error s0 = 0"
    by (auto simp: list_all_iff)
  let ?s = "led_round False False True s0"
  have "(unit_step nor_dev)\<^sup>*\<^sup>* s0 ?s" "(unit_step nor_dev)\<^sup>*\<^sup>* ?s (tim2_expired ?s)"
    using unit_step.led_task[OF s0(2)] unit_step.tim2 by blast+
  from runs_stay_well_formed[OF s0(1) this, of board0] s0 show ?thesis
    by (auto simp: led_round_def enter_error_def)
qed

section \<open>The CAN task empties the ring\<close>

text \<open>
  Messages that a poll handles to the end, in work mode \<open>wm\<close>: another unit's, or any command but
  start (which can fault) and restart, with the pin of a configuration message inside its word.
\<close>

definition serviceable :: "u8 \<Rightarrow> u8 list \<Rightarrow> bool" where
  "serviceable wm m \<longleftrightarrow> m ! 1 \<noteq> wm \<or>
     (m ! 0 \<notin> {0x10, 0x1C} \<and> (m ! 0 \<le> 3 \<longrightarrow> \<not> pin_off_array (pin_limit (m ! 0)) (m ! 2)))"

lemma McuGet_total:
  assumes "host_wf h" "d = g_DataFromHost h" "d ! 0 \<le> 3 \<longrightarrow> \<not> pin_off_array (pin_limit (d ! 0)) (d ! 2)"
  shows "\<exists>r. McuGetHostConfigInfo h = Inr r"
proof (cases "accepts d h")
  case True
  from McuGet_accepted[OF assms(1) _ assms(2)] True assms(2,3) show ?thesis by auto
next
  case False
  from McuGet_rejected[OF assms(1)] False assms(2) show ?thesis by auto
qed

lemma can_reset_total: "sys_ok b0 s \<Longrightarrow> \<exists>s'. can_reset s = Inr s'"
proof -
  assume ok: "sys_ok b0 s"
  let ?s = "set_host reset_frame (sys_emit (stop_timers s @ pwm_release) s)"
  have "sys_ok b0 ?s" "host_wf (host s)" using stableD[OF stable_reset_prefix ok] ok by (simp_all add: sys_ok_def)
  from sys_frame_reset[OF this(1) _ this(2)] obtain r where "sys_frame ?s = Inr (?s\<lparr>rel := r\<rparr>)" by auto
  then show ?thesis by (simp add: can_reset_def)
qed

lemma poll_serviceable:
  assumes ok: "sys_ok b0 s" and c: "ring_content (can s) = m # ms" and m: "serviceable (g_WorkMode (host s)) m"
  shows "\<exists>r s'. HostCanDataAnalysis fuse s = Inr (Some r, s')"
proof -
  have wf: "ring_wf (can s)" using ok by (simp add: sys_ok_def)
  have pend: "ring_pending (can s)" and pk: "ring_peek (can s) = m"
    using ring_pending_eq[OF wf] ring_peek_eq[OF wf] c by simp_all
  define s0 where "s0 = set_host (\<lambda>h. h\<lparr>g_DataFromHost := m\<rparr>) s"
  have ok0: "sys_ok b0 s0" using ok pk by (auto simp: s0_def sys_ok_def ring_peek_def)
  then have wf0: "host_wf (host s0)" "g_DataFromHost (host s0) = m" by (simp_all add: sys_ok_def s0_def)
  have cfg: "\<exists>s'. can_config k s0 = Inr s'" if "\<not> (m ! 0 \<le> 3 \<and> pin_off_array (pin_limit (m ! 0)) (m ! 2))" for k
    using McuGet_total[OF wf0(1) refl] wf0(2) that by (auto simp: can_config_def do_config_def Let_def)
  have tot: "\<exists>s'. can_reset s0 = Inr s'" "\<exists>s'. can_fuses fuse s0 = Inr s'" "\<exists>s'. can_status s0 = Inr s'"
    using can_reset_total[OF ok0] by (simp_all add: can_fuses_def can_status_def Let_def case_prod_beta)
  have run: "\<exists>s'. (case map_of (can_branches fuse) (m ! 0) of Some (q, f) \<Rightarrow> f s0 | None \<Rightarrow> Inr s0) = Inr s'"
    if "m ! 0 \<notin> {0x10, 0x1C}" "m ! 0 \<le> 3 \<longrightarrow> \<not> pin_off_array (pin_limit (m ! 0)) (m ! 2)"
    using that cfg[of 3] cfg[of 2] tot by (simp add: can_branches_def)
  obtain e t where e: "can_config_done s0 = (e, t)" by fastforce
  show ?thesis
    unfolding can_dispatch[OF ok pend refl s0_def[folded pk]] pk
    using run m e by (cases e) (auto simp: serviceable_def)
qed

text \<open>
  C40. The CAN task makes progress: if every pending message is serviceable, as many rounds as there
  are messages (never more than 24) handle them all and leave the ring empty, in any state of the
  unit, an error included.
\<close>

theorem CanDataDealTask_drains:
  assumes "sys_ok b0 s" "\<forall>m \<in> set (ring_content (can s)). serviceable (g_WorkMode (host s)) m"
    and "length (ring_content (can s)) \<le> n"
  shows "\<exists>s'. CanDataDealTask fuse n s = Inr s' \<and> ring_content (can s') = [] \<and> sys_ok b0 s' \<and> g_Error s' = g_Error s"
  using assms
proof (induction n arbitrary: s)
  case (Suc n)
  have wf: "ring_wf (can s)" using Suc.prems(1) by (simp add: sys_ok_def)
  show ?case
  proof (cases "ring_content (can s)")
    case Nil
    then have idle: "HostCanDataAnalysis fuse s = Inr (Some 0, s)"
      using ring_pending_eq[OF wf] by (simp add: HostCanDataAnalysis_def)
    with Suc.IH[OF Suc.prems(1)] Nil show ?thesis by simp
  next
    case (Cons m ms)
    with poll_serviceable[OF Suc.prems(1) Cons, of fuse] Suc.prems(2) obtain r s1 where
      s1: "HostCanDataAnalysis fuse s = Inr (Some r, s1)" by auto
    from can_handler_unit[OF Suc.prems(1) s1] ring_release_ok[OF wf] ring_pending_eq[OF wf] Cons have
      "sys_ok b0 s1" "ring_content (can s1) = ms" "g_WorkMode (host s1) = g_WorkMode (host s)" "g_Error s1 = g_Error s"
      by (simp_all add: same_poll_def)
    with Suc.IH[of s1] Suc.prems(2,3) Cons s1 show ?thesis by auto
  qed
qed (simp add: ring_content_def)

theorem CanDataDealTask_drains_witness:
  "\<exists>s'. CanDataDealTask (\<lambda>_. True) 3 (sys0\<lparr>can := status_ring\<rparr>) = Inr s' \<and> ring_content (can s') = []"
proof -
  have ring: "ring_wf status_ring" "ring_content status_ring = [[0x1D, 0, 7, 7, 7, 7, 7, 7]]"
    by (simp_all add: ring_wf_def status_ring_def can_zero_def ring_content_def ring_count_def slot_def upt_rec)
  then have "sys_ok board0 (sys0\<lparr>can := status_ring\<rparr>)" using sys0_ok(1) by (simp add: sys_ok_def)
  moreover have "serviceable (g_WorkMode (host (sys0\<lparr>can := status_ring\<rparr>))) [0x1D, 0, 7, 7, 7, 7, 7, 7]"
    by (simp add: serviceable_def word_le_nat_alt)
  ultimately show ?thesis
    using CanDataDealTask_drains[of board0 "sys0\<lparr>can := status_ring\<rparr>" 3 "\<lambda>_. True"] ring(2) by auto
qed

end
