(* ===== verification/Spec2Isabelle.thy ===== *)
theory Spec2Isabelle
  imports NetMem SysArch Usart Iic System
begin

text \<open>
  Verification of the firmware of a fault injection unit (FIU): an STM32F429 board that
  short-circuits, opens or leaks the channels of an engine control unit under test through 216
  channel relays, 17 bus relays and a resistor decade. A host configures faults by 8-byte messages
  over UDP or CAN; the firmware accumulates them, packs a 17-byte frame, and drives the relays.

  \<^bold>\<open>Parts and theories\<close>

  \<^item> \<^verbatim>\<open>Prelude\<close>: machine types, undefined behaviour of C as a value of type \<open>c_fault\<close> (an access
    outside an array, a division by zero, a loop followed for too few rounds), loops, byte views.
  \<^item> \<^verbatim>\<open>Hal\<close>: pins and the events by which the firmware acts on the board (\<^verbatim>\<open>src/HARDWARE/Fiu/FiuProcess.h\<close>
    and the calls of the vendor HAL), and what the board makes of them.
  \<^item> \<^verbatim>\<open>Relay\<close>, \<^verbatim>\<open>FiuFrame\<close>: \<^verbatim>\<open>src/HARDWARE/Fiu/FiuProcess.c\<close>. The relay registers with their
    shadow copies, bus relays, resistor decade; the fault routines and \<open>FiuCom_Process\<close>. The
    declarative \<open>plan\<close> of a frame is the specification that the processor refines. \<^verbatim>\<open>FrameLog\<close> shows
    which lines these routines can touch at all.
  \<^item> \<^verbatim>\<open>HostConfig\<close>: the configuration half of \<^verbatim>\<open>src/HARDWARE/Fiu/FiuHostDataAnalysis.c\<close>:
    plausibility check, decoder, frame packing.
  \<^item> \<^verbatim>\<open>Flash\<close>: \<^verbatim>\<open>src/HARDWARE/STMFLASH/stmflash.c\<close>, the record writer \<open>InfModify\<close> and the start-up
    readers of \<^verbatim>\<open>src/USER/main.c\<close>. The flash controller is the record parameter \<open>flash_dev\<close>; its
    laws are the locale \<open>flash_device\<close>, interpreted on a NOR flash.
  \<^item> \<^verbatim>\<open>CanRing\<close>: \<^verbatim>\<open>src/HARDWARE/CAN/can.c\<close>, the receive interrupt and the message ring, which meets
    the locale \<open>message_queue\<close>.
  \<^item> \<^verbatim>\<open>Periph\<close>: timers, port set-up, fuse check, error stop.
  \<^item> \<^verbatim>\<open>HostDispatch\<close>: the dispatch half of \<^verbatim>\<open>FiuHostDataAnalysis.c\<close>: \<open>startFault\<close>, the UDP and CAN
    handlers, the end of a timed fault, over one state record \<open>sys_st\<close> of all components.
  \<^item> \<^verbatim>\<open>Session\<close>: what a sequence of commands does to the board.
  \<^item> \<^verbatim>\<open>UdpComm\<close>: \<^verbatim>\<open>src/LWIP/udpecho/udpecho.c\<close> and \<^verbatim>\<open>mulcast.c\<close>, the packets around the messages, the two
    receive callbacks, the device description.
  \<^item> \<^verbatim>\<open>Malloc\<close>: \<^verbatim>\<open>src/MALLOC/malloc.c\<close>, three pools of blocks, shown to be pools of disjoint
    regions (locale \<open>region_pool\<close>). \<^verbatim>\<open>NetMem\<close>: its clients in \<^verbatim>\<open>src/HARDWARE/LAN8720/lan8720.c\<close> and
    \<^verbatim>\<open>src/LWIP/lwip_app/lwip_comm/lwip_comm.c\<close>.
  \<^item> \<^verbatim>\<open>Iic\<close>: \<^verbatim>\<open>src/HARDWARE/IIC/myiic.c\<close> and \<^verbatim>\<open>src/HARDWARE/PCF8574/pcf8574.c\<close>, the two-wire bus and the port
    expander, against frames of bus symbols.
  \<^item> \<^verbatim>\<open>Usart\<close>: the receive callback of \<^verbatim>\<open>src/SYSTEM/usart/usart.c\<close>. \<^verbatim>\<open>SysArch\<close>: time accounting of
    \<^verbatim>\<open>src/LWIP/arch/sys_arch.c\<close>.
  \<^item> \<^verbatim>\<open>Protect\<close>, \<^verbatim>\<open>System\<close>: \<^verbatim>\<open>src/USER/main.c\<close>. \<open>main_init\<close> is start-up, the relation \<open>unit_step\<close> what can
    happen afterwards: packets, interrupts, rounds of the three tasks, in any order. \<^verbatim>\<open>Protect\<close> shows
    that no routine of the fault injector moves the protection relay.

  \<^bold>\<open>State and effects.\<close> Globals are records, one per source file; every operation returns the updated
  record or a fault. Output is a log of events in program order, read by the observers \<open>level_step\<close>
  (pin levels) and \<open>board_step\<close> (relay registers). Values read from pins are arguments. A handler is
  one step: interrupts between its statements are considered only for the CAN ring, where the
  FIFO property allows them. Undefined behaviour of C is a fault that ends the computation, with one
  exception: an access to a timer through a handle that has not been set up is the event \<open>NullTimer\<close>, and
  the model goes on, because the processor does (address 0 is flash and does not trap). Every
  first start and reset makes such accesses; the property of \<open>startFault\<close> says exactly when.

  \<^bold>\<open>What is shown.\<close> Frames: refinement of the plan, the exact condition of undefined behaviour, no
  effect of invalid frames. Configuration: the check decides its acceptance condition, exact
  out-of-bounds condition, what a message adds, errors clear, packing loses nothing. Flash:
  write correctness and termination, records read back and what one write erases. Ring: FIFO under
  interrupts, behaviour when full. Dispatch: handlers equal tables, reset opens everything,
  exact PWM values, end-to-end sessions, defects of start and timer expiry. Memory: the allocator is a pool of
  disjoint regions, and reallocation is exact up to where it reads past its pool. Whole unit: the outcome of start-up, the invariant of all runs with the
  protection relay closed exactly while there is no error, and a CAN task that empties its ring.

  \<^bold>\<open>Bounds and fuel.\<close> \<open>erase_loop\<close> gets two rounds per word: an erase clears the word for good, so
  each address is visited at most twice on a device that meets \<open>flash_device\<close>; the termination
  property proves that this is enough. All other loops are bounded by the source.

  \<^bold>\<open>Not modelled.\<close> The vendor HAL (\<^verbatim>\<open>src/HALLIB\<close>, \<^verbatim>\<open>src/CORE\<close>), lwIP (\<^verbatim>\<open>src/LWIP/lwip-1.4.1\<close>) and
  uC/OS-II (\<^verbatim>\<open>src/UCOSII\<close>) are third-party; they make up nearly all of the repository's lines. SDRAM, clock,
  CAN and PHY set-up only configure registers. LCD, key and USMART drivers and \<^verbatim>\<open>app_lwip.c\<close> are not part of
  the build.
\<close>

end
